(* ===== verification/Prelude.thy ===== *)
theory Prelude
  imports Main "HOL-Library.Word" "HOL-Library.While_Combinator" "HOL-Library.AList"
begin

text \<open>
  Shared vocabulary of the development: the machine types of the C++ sources, the error values that
  stand for every exit, out-of-range access and read of indeterminate memory, the view of a byte
  buffer through a pointer, the \<open>size_t\<close> subtraction that wraps, and the generic lemmas on lists,
  loops and sums that the components share.  The collections \<open>buf_simps\<close> (buffers and slices),
  \<open>step_simps\<close> (definitions of single operations) and \<open>inv_intros\<close> (preservation rules) are filled
  by the components.
\<close>

named_theorems buf_simps \<open>slices of byte buffers\<close>
named_theorems step_simps \<open>unfolding of single operations\<close>
named_theorems inv_intros \<open>operations keep the component invariants\<close>

type_synonym byte = "8 word"
type_synonym u16 = "16 word"
type_synonym u32 = "32 word"
type_synonym u64 = "64 word"

datatype mc_error =
    ExitFailure     \<comment> \<open>\<open>exit(EXIT_FAILURE)\<close> after a logged message\<close>
  | OutOfBounds     \<comment> \<open>a read or write outside an allocated buffer or vector\<close>
  | Indeterminate   \<comment> \<open>a read of memory or of a variable that was never written\<close>
  | DivideByZero
  | DeltaError      \<comment> \<open>a method gives up: \<open>ProcessTrace\<close> returns with chunks left in the queue\<close>
  | Diverges        \<comment> \<open>an inner loop that never ends, where the model of the caller has no other value for it\<close>
  | Overlap         \<comment> \<open>\<open>memcpy\<close> between regions that overlap\<close>
  | KeyNotFound     \<comment> \<open>the exception of \<open>lruCache.h\<close>\<close>

type_synonym 'a result = "mc_error + 'a"

subsection \<open>Results\<close>

definition rbind :: "'a result \<Rightarrow> ('a \<Rightarrow> 'b result) \<Rightarrow> 'b result" where
  "rbind r f = (case r of Inl e \<Rightarrow> Inl e | Inr x \<Rightarrow> f x)"

definition isOk :: "'a result \<Rightarrow> bool" where
  "isOk r = (case r of Inl _ \<Rightarrow> False | Inr _ \<Rightarrow> True)"

lemma rbind_simps [simp]:
  "rbind (Inl e) f = Inl e"
  "rbind (Inr x) f = f x"
  by (simp_all add: rbind_def)

lemma rbind_eq_Inr_iff: "rbind r f = Inr y \<longleftrightarrow> (\<exists>x. r = Inr x \<and> f x = Inr y)"
  by (cases r) simp_all

lemma isOk_simps [simp]: "isOk (Inl e) = False" "isOk (Inr x) = True"
  by (simp_all add: isOk_def)

lemma rbind_assoc: "rbind (rbind r f) g = rbind r (\<lambda>x. rbind (f x) g)"
  by (cases r) simp_all

text \<open>A loop body that may fail, folded over a list: the loop stops at the first error.\<close>

fun rfold :: "('s \<Rightarrow> 'a \<Rightarrow> 's result) \<Rightarrow> 's \<Rightarrow> 'a list \<Rightarrow> 's result" where
  "rfold f s [] = Inr s"
| "rfold f s (x # xs) = rbind (f s x) (\<lambda>s'. rfold f s' xs)"

lemma rfold_append: "rfold f s (xs @ ys) = rbind (rfold f s xs) (\<lambda>s'. rfold f s' ys)"
  by (induction xs arbitrary: s) (simp_all add: rbind_assoc)

lemma rfold_invariant:
  assumes "rfold f s xs = Inr t" and "I s"
    and "\<And>s x s'. I s \<Longrightarrow> x \<in> set xs \<Longrightarrow> f s x = Inr s' \<Longrightarrow> I s'"
  shows "I t"
  using assms
proof (induction xs arbitrary: s)
  case Nil
  then show ?case by simp
next
  case (Cons x xs)
  from Cons.prems(1) obtain s' where s': "f s x = Inr s'" "rfold f s' xs = Inr t"
    by (auto simp: rbind_eq_Inr_iff)
  from Cons.prems(2,3) s'(1) have "I s'" by auto
  with s'(2) show ?case
    by (rule Cons.IH) (use Cons.prems(3) in auto)
qed

lemma rfold_returns:
  assumes "I s" "\<And>s x. I s \<Longrightarrow> x \<in> set xs \<Longrightarrow> \<exists>s'. f s x = Inr s' \<and> I s'"
  shows "\<exists>t. rfold f s xs = Inr t \<and> I t"
  using assms
proof (induction xs arbitrary: s)
  case (Cons x xs)
  then obtain s' where "f s x = Inr s'" "I s'" by force
  with Cons.IH [of s'] Cons.prems(2) show ?case by auto
qed simp

lemma fold_max_list: "fold (\<lambda>i b. max b (f i)) is b = Max (insert b (f ` set is))" for b :: "'b::linorder"
proof (induction "is" arbitrary: b)
  case (Cons i "is")
  then show ?case by (cases "set is = {}") (simp_all add: max.assoc)
qed simp

subsection \<open>Unsigned 64-bit subtraction on sizes\<close>

text \<open>
  Sizes and offsets that are bounded by an allocated buffer are naturals; where the source subtracts
  two of them in \<open>size_t\<close> and the difference can be negative, the wrap-around is written out.
\<close>

definition usub64 :: "nat \<Rightarrow> nat \<Rightarrow> nat" where
  "usub64 a b = nat ((int a - int b) mod 2 ^ 64)"

lemma usub64_le [simp]: "b \<le> a \<Longrightarrow> a < 2 ^ 64 \<Longrightarrow> usub64 a b = a - b"
  by (simp add: usub64_def flip: of_nat_diff)

lemma usub64_wrap:
  assumes "a < b" "b \<le> 2 ^ 64"
  shows "usub64 a b = 2 ^ 64 + a - b"
proof -
  have "(int a - int b) mod 2 ^ 64 = (int a - int b + 2 ^ 64) mod 2 ^ 64" by simp
  also have "\<dots> = int a - int b + 2 ^ 64"
    using assms by (intro mod_pos_pos_trivial) auto
  finally show ?thesis
    using assms by (simp add: usub64_def nat_diff_distrib)
qed

subsection \<open>Buffers\<close>

text \<open>
  \<open>mem_at buf off\<close> is the memory seen through the pointer \<open>buf + off\<close>, where \<open>buf\<close> was cleared with
  \<open>memset\<close> before \<open>length buf\<close> bytes were read into it: past the bytes read there are zeros.
  \<open>slice off n buf\<close> is what \<open>memcpy\<close> of \<open>n\<close> bytes from \<open>buf + off\<close> copies.
\<close>

definition mem_at :: "byte list \<Rightarrow> nat \<Rightarrow> nat \<Rightarrow> byte" where
  "mem_at buf off i = (if off + i < length buf then buf ! (off + i) else 0)"

definition slice :: "nat \<Rightarrow> nat \<Rightarrow> 'a list \<Rightarrow> 'a list" where
  "slice off n xs = take n (drop off xs)"

definition zslice :: "nat \<Rightarrow> nat \<Rightarrow> byte list \<Rightarrow> byte list" where
  "zslice off n xs = slice off n xs @ replicate (n - (length xs - off)) 0"

definition overwrite :: "nat \<Rightarrow> 'a list \<Rightarrow> 'a list \<Rightarrow> 'a list" where
  "overwrite off ys xs = take off xs @ ys @ drop (off + length ys) xs"

lemma slice_length [buf_simps]: "length (slice off n xs) = min n (length xs - off)"
  by (simp add: slice_def)

lemma slice_length_exact [buf_simps]: "off + n \<le> length xs \<Longrightarrow> length (slice off n xs) = n"
  by (simp add: slice_def)

lemma take_slice [buf_simps]: "take off xs @ slice off n xs = take (off + n) xs"
  by (simp add: slice_def take_add)

lemma zslice_eq_slice [buf_simps]: "off + n \<le> length xs \<Longrightarrow> zslice off n xs = slice off n xs"
  by (simp add: zslice_def)

lemma zslice_length [buf_simps]: "length (zslice off n xs) = n"
  by (simp add: zslice_def slice_def)

lemma slice_append1 [buf_simps]: "off + n \<le> length xs \<Longrightarrow> slice off n (xs @ ys) = slice off n xs"
  by (simp add: slice_def)

lemma slice_take [buf_simps]: "off + n \<le> m \<Longrightarrow> slice off n (take m xs) = slice off n xs"
  by (simp add: slice_def drop_take min_def)

lemma slice_drop [buf_simps]: "slice off n (drop m xs) = slice (m + off) n xs"
  by (simp add: slice_def add.commute)

lemma slice_at_end [buf_simps]: "slice (length xs) (length ys) (xs @ ys @ zs) = ys"
  by (simp add: slice_def)

lemma overwrite_length [buf_simps]:
  "off + length ys \<le> length xs \<Longrightarrow> length (overwrite off ys xs) = length xs"
  by (simp add: overwrite_def)

lemma slice_overwrite_same [buf_simps]:
  "off \<le> length xs \<Longrightarrow> slice off (length ys) (overwrite off ys xs) = ys"
  by (simp add: slice_def overwrite_def)

lemma slice_overwrite_before [buf_simps]:
  "o1 + n \<le> off \<Longrightarrow> off \<le> length xs \<Longrightarrow> slice o1 n (overwrite off ys xs) = slice o1 n xs"
  by (auto simp: slice_def overwrite_def drop_take min_def)

lemma take_overwrite [buf_simps]:
  "off \<le> length xs \<Longrightarrow> take (off + length ys) (overwrite off ys xs) = take off xs @ ys"
  by (simp add: overwrite_def)

text \<open>The unsigned number a little-endian machine reads from the given bytes.\<close>

unbundle bit_operations_syntax

fun le_word :: "byte list \<Rightarrow> 'a::len word" where
  "le_word [] = 0"
| "le_word (b # bs) = ucast b OR push_bit 8 (le_word bs)"

lemma bit_le_word:
  "bit (le_word bs :: 'a::len word) n \<longleftrightarrow> n < LENGTH('a) \<and> n < 8 * length bs \<and> bit (bs ! (n div 8)) (n mod 8)"
proof (induction bs arbitrary: n)
  case (Cons b bs)
  show ?case
  proof (cases "n < 8")
    case True
    then show ?thesis by (simp add: bit_simps)
  next
    case False
    then have "n = (n - 8) + 8" by simp
    then obtain k where n: "n = k + 8" by blast
    have "\<not> bit b (k + 8)" using bit_imp_le_length [of b "k + 8"] by auto
    moreover have "(k + 8) div 8 = Suc (k div 8)" by simp
    ultimately show ?thesis unfolding n using Cons.IH [of k] by (auto simp: bit_simps simp del: div_add_self2)
  qed
qed simp

lemma byte_eqI: "(\<And>k. k < 8 \<Longrightarrow> bit a k = bit b k) \<Longrightarrow> a = b" for a b :: byte
  by (rule bit_eqI) (auto dest: bit_imp_le_length)

lemma le_word_inject:
  assumes "length as = length bs" "8 * length as \<le> LENGTH('a)"
  shows "(le_word as = (le_word bs :: 'a::len word)) \<longleftrightarrow> as = bs"
proof
  assume eq: "le_word as = (le_word bs :: 'a word)"
  have "as ! i = bs ! i" if "i < length as" for i
  proof (rule byte_eqI)
    fix k :: nat assume k: "k < 8"
    have "bit (le_word as :: 'a word) (8 * i + k) = bit (le_word bs :: 'a word) (8 * i + k)" by (simp add: eq)
    then show "bit (as ! i) k = bit (bs ! i) k" using assms that k by (simp add: bit_le_word)
  qed
  with assms(1) show "as = bs" by (rule nth_equalityI)
qed simp

subsection \<open>Loops\<close>

text \<open>
  Loops of the source whose exit is not structural are instances of one combinator, built on
  \<open>while_option\<close>: the body may fail (\<open>Some (Inl e)\<close>) or contain a loop that does not return
  (\<open>None\<close>); the result is \<open>None\<close> when the loop itself never ends.
\<close>

definition rwhile ::
  "('s \<Rightarrow> bool) \<Rightarrow> ('s \<Rightarrow> 's result option) \<Rightarrow> 's \<Rightarrow> 's result option" where
  "rwhile b f s =
     Option.bind (while_option (\<lambda>r. case r of Some (Inr s) \<Rightarrow> b s | _ \<Rightarrow> False)
                    (\<lambda>r. case r of Some (Inr s) \<Rightarrow> f s | _ \<Rightarrow> r) (Some (Inr s))) id"

lemma rwhile_unfold:
  "rwhile b f s =
     (if b s then (case f s of Some (Inr s') \<Rightarrow> rwhile b f s' | r \<Rightarrow> r) else Some (Inr s))"
  unfolding rwhile_def
  by (subst while_option_unfold)
    (auto simp: while_option_unfold [of _ _ "Some (Inl _)"] while_option_unfold [of _ _ None]
          split: option.splits sum.splits)

lemma rwhile_rule:
  fixes s t :: 's
  assumes "rwhile b f s = Some (Inr t)" and "P s"
    and "\<And>s s'. P s \<Longrightarrow> b s \<Longrightarrow> f s = Some (Inr s') \<Longrightarrow> P s'"
  shows "P t \<and> \<not> b t"
proof -
  let ?b = "\<lambda>r :: 's result option. case r of Some (Inr s) \<Rightarrow> b s | _ \<Rightarrow> False"
  let ?c = "\<lambda>r :: 's result option. case r of Some (Inr s) \<Rightarrow> f s | _ \<Rightarrow> r"
  let ?Q = "\<lambda>r :: 's result option. case r of Some (Inr s) \<Rightarrow> P s | _ \<Rightarrow> True"
  from assms(1) have w: "while_option ?b ?c (Some (Inr s)) = Some (Some (Inr t))"
    unfolding rwhile_def by (auto simp: bind_eq_Some_conv)
  have step: "\<And>r. ?Q r \<Longrightarrow> ?b r \<Longrightarrow> ?Q (?c r)"
    using assms(3) by (auto split: option.splits sum.splits)
  have "?Q (Some (Inr t))"
    using while_option_rule [of ?Q ?b ?c, OF step w] assms(2) by simp
  moreover have "\<not> ?b (Some (Inr t))"
    using while_option_stop [OF w] .
  ultimately show ?thesis by simp
qed

lemma rwhile_returns:
  fixes m :: "'s \<Rightarrow> nat"
  assumes "P s"
    and step: "\<And>s. P s \<Longrightarrow> b s \<Longrightarrow> \<exists>r. f s = Some r \<and> (\<forall>s'. r = Inr s' \<longrightarrow> P s' \<and> m s' < m s)"
  shows "\<exists>r. rwhile b f s = Some r \<and> (\<forall>t. r = Inr t \<longrightarrow> P t \<and> \<not> b t)"
  using assms(1)
proof (induction "m s" arbitrary: s rule: less_induct)
  case less
  show ?case
  proof (cases "b s")
    case False
    with less.prems show ?thesis by (subst rwhile_unfold) simp
  next
    case True
    from step [OF less.prems True] obtain r where
      r: "f s = Some r" "\<And>s'. r = Inr s' \<Longrightarrow> P s' \<and> m s' < m s" by blast
    show ?thesis
    proof (cases r)
      case (Inl e)
      with r True show ?thesis by (subst rwhile_unfold) simp
    next
      case (Inr s')
      with r have "P s'" "m s' < m s" by auto
      with less.hyps obtain q where "rwhile b f s' = Some q" "\<forall>t. q = Inr t \<longrightarrow> P t \<and> \<not> b t"
        by blast
      with Inr r(1) True show ?thesis by (subst rwhile_unfold) simp
    qed
  qed
qed

lemma rwhile_ok:
  fixes m :: "'s \<Rightarrow> nat"
  assumes "P s"
    and step: "\<And>s. P s \<Longrightarrow> b s \<Longrightarrow> \<exists>s'. f s = Some (Inr s') \<and> P s' \<and> m s' < m s"
  shows "\<exists>t. rwhile b f s = Some (Inr t) \<and> P t \<and> \<not> b t"
  using assms(1)
proof (induction "m s" arbitrary: s rule: less_induct)
  case less
  show ?case
  proof (cases "b s")
    case False
    with less.prems show ?thesis by (subst rwhile_unfold) simp
  next
    case True
    from step [OF less.prems True] obtain s' where s': "f s = Some (Inr s')" "P s'" "m s' < m s"
      by blast
    with less.hyps obtain t where "rwhile b f s' = Some (Inr t)" "P t" "\<not> b t" by blast
    with s'(1) True show ?thesis by (subst rwhile_unfold) simp
  qed
qed

end
