(* ===== verification/RWQueue.thy ===== *)
theory RWQueue
  imports Prelude
begin

text \<open>
  The lock-free queue of \<open>include/readerwriterqueue.h\<close> that \<open>include/messageQueue.h\<close> wraps: a ring of blocks, each a ring of
  slots, with one producer and one consumer.  \<open>try_enqueue\<close>, \<open>try_dequeue\<close> and \<open>size_approx\<close> are programs of the two threads,
  cut at every access to memory the other thread writes, so that their interleavings are the interleavings of
  these accesses; memory is sequentially consistent.  Blocks are named by their index, a slot without a
  constructed object is \<open>None\<close>.  A failing \<open>assert\<close> is the error \<open>ExitFailure\<close>.
\<close>

section \<open>The data\<close>

record 'a Block =
  front :: nat
  localTail :: nat
  tail :: nat
  localFront :: nat
  next_block :: nat
  slots :: "'a option list"
  sizeMask :: nat

record 'a ReaderWriterQueue =
  blocks :: "'a Block list"
  frontBlock :: nat
  tailBlock :: nat
  largestBlockSize :: nat

definition MAX_BLOCK_SIZE :: nat where "MAX_BLOCK_SIZE = 512"

definition ceilToPow2 :: "u64 \<Rightarrow> u64" where
  "ceilToPow2 x =
     (let x = x - 1;
          x = x OR drop_bit 1 x;
          x = x OR drop_bit 2 x;
          x = x OR drop_bit 4 x;
          x = fold (\<lambda>i x. x OR drop_bit (i * 8) x) [1, 2, 4] x
      in x + 1)"

definition make_block :: "nat \<Rightarrow> 'a Block" where
  "make_block n = \<lparr>front = 0, localTail = 0, tail = 0, localFront = 0, next_block = 0, slots = replicate n None, sizeMask = n - 1\<rparr>"

text \<open>One round of the constructor's loop: the last block gets the new one as its successor, the new one the first.\<close>

definition add_block :: "nat \<Rightarrow> 'a Block list \<Rightarrow> 'a Block list" where
  "add_block n bs =
     (if bs = [] then [] else bs[length bs - 1 := (last bs)\<lparr>next_block := length bs\<rparr>]) @ [(make_block n)\<lparr>next_block := 0\<rparr>]"

definition ReaderWriterQueue_new :: "nat \<Rightarrow> 'a ReaderWriterQueue" where
  "ReaderWriterQueue_new sz =
     (let largest = unat (ceilToPow2 (of_nat (sz + 1))) in
      if largest > MAX_BLOCK_SIZE * 2 then
        let initialBlockCount = (sz + MAX_BLOCK_SIZE * 2 - 3) div (MAX_BLOCK_SIZE - 1) in
        \<lparr>blocks = (add_block MAX_BLOCK_SIZE ^^ initialBlockCount) [], frontBlock = 0, tailBlock = 0, largestBlockSize = MAX_BLOCK_SIZE\<rparr>
      else \<lparr>blocks = [(make_block largest)\<lparr>next_block := 0\<rparr>], frontBlock = 0, tailBlock = 0, largestBlockSize = largest\<rparr>)"

text \<open>Access through a block pointer.\<close>

definition deref :: "nat \<Rightarrow> 'a ReaderWriterQueue \<Rightarrow> ('a Block \<Rightarrow> 'b result) \<Rightarrow> 'b result" where
  "deref p q f = (if p < length (blocks q) then f (blocks q ! p) else Inl OutOfBounds)"

definition store :: "nat \<Rightarrow> ('a Block \<Rightarrow> 'a Block) \<Rightarrow> 'a ReaderWriterQueue \<Rightarrow> 'a ReaderWriterQueue" where
  "store p f q = q\<lparr>blocks := (blocks q)[p := f (blocks q ! p)]\<rparr>"

text \<open>Placement \<open>new\<close> into a slot; moving an object out of a slot and destroying it.\<close>

definition construct :: "nat \<Rightarrow> nat \<Rightarrow> 'a \<Rightarrow> 'a ReaderWriterQueue \<Rightarrow> 'a ReaderWriterQueue result" where
  "construct p i x q = deref p q (\<lambda>b.
     if i < length (slots b) then Inr (store p (slots_update (\<lambda>s. s[i := Some x])) q) else Inl OutOfBounds)"

definition take_out :: "nat \<Rightarrow> nat \<Rightarrow> 'a ReaderWriterQueue \<Rightarrow> ('a \<times> 'a ReaderWriterQueue) result" where
  "take_out p i q = deref p q (\<lambda>b.
     if i < length (slots b) then
       (case slots b ! i of None \<Rightarrow> Inl Indeterminate | Some x \<Rightarrow> Inr (x, store p (slots_update (\<lambda>s. s[i := None])) q))
     else Inl OutOfBounds)"

section \<open>The operations\<close>

text \<open>\<open>inner_enqueue\<close> with \<open>CannotAlloc\<close>, of the element \<open>x\<close>.\<close>

datatype enq_pc =
    PStart
  | PReadFront nat nat nat    \<comment> \<open>tailBlock\_, blockTail, nextBlockTail\<close>
  | PWrite nat nat nat
  | PPublish nat nat          \<comment> \<open>tailBlock\_, nextBlockTail\<close>
  | PFull nat                 \<comment> \<open>tailBlock\_\<close>
  | PNext nat                 \<comment> \<open>tailBlockNext\<close>
  | PWriteNext nat nat        \<comment> \<open>tailBlockNext, nextBlockTail\<close>
  | PPublishNext nat nat
  | PAdvance nat
  | PDone bool

definition enq_step :: "'a \<Rightarrow> enq_pc \<Rightarrow> 'a ReaderWriterQueue \<Rightarrow> (enq_pc \<times> 'a ReaderWriterQueue) result" where
  "enq_step x pc q = (case pc of
     PStart \<Rightarrow>
       let tb = tailBlock q in
       deref tb q (\<lambda>b.
         let blockFront = localFront b; blockTail = tail b; nextBlockTail = (blockTail + 1) AND sizeMask b in
         Inr (if nextBlockTail \<noteq> blockFront then PWrite tb blockTail nextBlockTail else PReadFront tb blockTail nextBlockTail, q))
   | PReadFront tb blockTail nextBlockTail \<Rightarrow>
       deref tb q (\<lambda>b.
         Inr (if nextBlockTail \<noteq> front b then PWrite tb blockTail nextBlockTail else PFull tb,
              store tb (localFront_update (\<lambda>_. front b)) q))
   | PWrite tb blockTail nextBlockTail \<Rightarrow> rbind (construct tb blockTail x q) (\<lambda>q. Inr (PPublish tb nextBlockTail, q))
   | PPublish tb nextBlockTail \<Rightarrow> deref tb q (\<lambda>b. Inr (PDone True, store tb (tail_update (\<lambda>_. nextBlockTail)) q))
   | PFull tb \<Rightarrow>
       deref tb q (\<lambda>b. Inr (if next_block b \<noteq> frontBlock q then PNext (next_block b) else PDone False, q))
   | PNext tn \<Rightarrow>
       deref tn q (\<lambda>b.
         let nextBlockFront = front b; nextBlockTail = tail b in
         if nextBlockFront = nextBlockTail
         then Inr (PWriteNext tn nextBlockTail, store tn (localFront_update (\<lambda>_. nextBlockFront)) q)
         else Inl ExitFailure)
   | PWriteNext tn nextBlockTail \<Rightarrow> rbind (construct tn nextBlockTail x q) (\<lambda>q. Inr (PPublishNext tn nextBlockTail, q))
   | PPublishNext tn nextBlockTail \<Rightarrow>
       deref tn q (\<lambda>b. Inr (PAdvance tn, store tn (tail_update (\<lambda>_. (nextBlockTail + 1) AND sizeMask b)) q))
   | PAdvance tn \<Rightarrow> Inr (PDone True, q\<lparr>tailBlock := tn\<rparr>)
   | PDone r \<Rightarrow> Inr (pc, q))"

text \<open>\<open>try_dequeue\<close>.\<close>

datatype 'a deq_pc =
    CStart
  | CReadTail nat nat         \<comment> \<open>frontBlock\_, blockFront\<close>
  | CTailBlock nat
  | CReread
  | CNext nat
  | CMove nat nat             \<comment> \<open>nextBlock, nextBlockFront\<close>
  | CRead nat nat
  | CPublish nat nat 'a
  | CDone "'a option"

definition deq_step :: "'a deq_pc \<Rightarrow> 'a ReaderWriterQueue \<Rightarrow> ('a deq_pc \<times> 'a ReaderWriterQueue) result" where
  "deq_step pc q = (case pc of
     CStart \<Rightarrow>
       let fb = frontBlock q in
       deref fb q (\<lambda>b.
         let blockTail = localTail b; blockFront = front b in
         Inr (if blockFront \<noteq> blockTail then CRead fb blockFront else CReadTail fb blockFront, q))
   | CReadTail fb blockFront \<Rightarrow>
       deref fb q (\<lambda>b.
         Inr (if blockFront \<noteq> tail b then CRead fb blockFront else CTailBlock fb, store fb (localTail_update (\<lambda>_. tail b)) q))
   | CTailBlock fb \<Rightarrow> Inr (if fb \<noteq> tailBlock q then CReread else CDone None, q)
   | CReread \<Rightarrow>
       let fb = frontBlock q in
       deref fb q (\<lambda>b.
         let blockTail = tail b; blockFront = front b in
         Inr (if blockFront \<noteq> blockTail then CRead fb blockFront else CNext fb, store fb (localTail_update (\<lambda>_. blockTail)) q))
   | CNext fb \<Rightarrow>
       deref fb q (\<lambda>b. let nb = next_block b in
       deref nb q (\<lambda>b'.
         let nextBlockFront = front b'; nextBlockTail = tail b' in
         if nextBlockFront \<noteq> nextBlockTail
         then Inr (CMove nb nextBlockFront, store nb (localTail_update (\<lambda>_. nextBlockTail)) q)
         else Inl ExitFailure))
   | CMove nb nextBlockFront \<Rightarrow> Inr (CRead nb nextBlockFront, q\<lparr>frontBlock := nb\<rparr>)
   | CRead fb blockFront \<Rightarrow>
       rbind (take_out fb blockFront q) (\<lambda>(x, q).
       deref fb q (\<lambda>b. Inr (CPublish fb ((blockFront + 1) AND sizeMask b) x, q)))
   | CPublish fb blockFront x \<Rightarrow> deref fb q (\<lambda>b. Inr (CDone (Some x), store fb (front_update (\<lambda>_. blockFront)) q))
   | CDone r \<Rightarrow> Inr (pc, q))"

text \<open>\<open>size_approx\<close>: the next block and the sum so far; the loop starts and ends at the front block.\<close>

definition size_step :: "nat \<Rightarrow> nat \<Rightarrow> 'a ReaderWriterQueue \<Rightarrow> (nat \<times> nat) result" where
  "size_step p acc q = deref p q (\<lambda>b. Inr (next_block b, acc + (usub64 (tail b) (front b) AND sizeMask b)))"

section \<open>The two threads\<close>

text \<open>
  The producer pushes \<open>to_push\<close> (\<open>Push\<close> repeats \<open>try_enqueue\<close> until it succeeds) and then sets \<open>done_\<close>; the consumer tests
  \<open>done_\<close>, when it is set tests \<open>IsEmpty\<close>, otherwise calls \<open>Pop\<close>, as in theory \<open>MessageQueue\<close>.
\<close>

datatype 'a loop_pc = LDone | LSize nat nat nat | LEmpty nat | LPop "'a deq_pc" | LExited   \<comment> \<open>\<open>LSize\<close>: frontBlock\_, block, result\<close>

record 'a rw_sys =
  rw_to_push :: "'a list"
  rw_over :: bool
  rw_flag :: bool
  rwq :: "'a ReaderWriterQueue"
  ppc :: enq_pc
  cpc :: "'a loop_pc"
  rw_received :: "'a list"

definition rw_init :: "nat \<Rightarrow> 'a list \<Rightarrow> 'a rw_sys" where
  "rw_init n xs = \<lparr>rw_to_push = xs, rw_over = False, rw_flag = False, rwq = ReaderWriterQueue_new n, ppc = PStart, cpc = LDone, rw_received = []\<rparr>"

inductive rw_step :: "'a rw_sys \<Rightarrow> 'a rw_sys \<Rightarrow> bool" where
  enq: "rw_to_push s = x # xs \<Longrightarrow> (\<forall>r. ppc s \<noteq> PDone r) \<Longrightarrow> enq_step x (ppc s) (rwq s) = Inr (pc, q) \<Longrightarrow>
    rw_step s (s\<lparr>ppc := pc, rwq := q\<rparr>)"
| pushed: "rw_to_push s = x # xs \<Longrightarrow> ppc s = PDone True \<Longrightarrow> rw_step s (s\<lparr>ppc := PStart, rw_to_push := xs\<rparr>)"
| retry: "ppc s = PDone False \<Longrightarrow> rw_step s (s\<lparr>ppc := PStart\<rparr>)"
| finish: "rw_to_push s = [] \<Longrightarrow> \<not> rw_over s \<Longrightarrow> rw_step s (s\<lparr>rw_over := True, rw_flag := True\<rparr>)"
| not_done: "cpc s = LDone \<Longrightarrow> \<not> rw_flag s \<Longrightarrow> rw_step s (s\<lparr>cpc := LPop CStart\<rparr>)"
| seen_done: "cpc s = LDone \<Longrightarrow> rw_flag s \<Longrightarrow> rw_step s (s\<lparr>cpc := LSize (frontBlock (rwq s)) (frontBlock (rwq s)) 0\<rparr>)"
| size_step: "cpc s = LSize fb p acc \<Longrightarrow> size_step p acc (rwq s) = Inr (p', acc') \<Longrightarrow>
    rw_step s (s\<lparr>cpc := (if p' \<noteq> fb then LSize fb p' acc' else LEmpty acc')\<rparr>)"
| leave: "cpc s = LEmpty 0 \<Longrightarrow> rw_step s (s\<lparr>cpc := LExited, rw_flag := False\<rparr>)"
| not_empty: "cpc s = LEmpty n \<Longrightarrow> n \<noteq> 0 \<Longrightarrow> rw_step s (s\<lparr>cpc := LPop CStart\<rparr>)"
| deq: "cpc s = LPop pc \<Longrightarrow> (\<forall>r. pc \<noteq> CDone r) \<Longrightarrow> deq_step pc (rwq s) = Inr (pc', q) \<Longrightarrow>
    rw_step s (s\<lparr>cpc := LPop pc', rwq := q\<rparr>)"
| popped: "cpc s = LPop (CDone (Some x)) \<Longrightarrow> rw_step s (s\<lparr>cpc := LDone, rw_received := rw_received s @ [x]\<rparr>)"
| pop_fails: "cpc s = LPop (CDone None) \<Longrightarrow> rw_step s (s\<lparr>cpc := LDone\<rparr>)"

inductive_cases rw_stepE: "rw_step s t"

section \<open>One block\<close>

text \<open>
  The indices of a block are counters that never go back, taken modulo the size of the block: \<open>F\<close> and \<open>T\<close> objects have been
  removed and added, \<open>LF\<close> and \<open>LT\<close> are the values the other side saw last.  \<open>c\<close> are the objects in between;
  with a \<open>hole\<close> the first of them has been moved out already.
\<close>

definition pow2_mask :: "nat \<Rightarrow> bool" where
  "pow2_mask k \<longleftrightarrow> (\<exists>e > 0. e \<le> 63 \<and> k = 2 ^ e - 1)"

definition holds :: "bool \<Rightarrow> 'a Block \<Rightarrow> nat \<Rightarrow> 'a list \<Rightarrow> bool" where
  "holds hole b F c \<longleftrightarrow> (\<forall>j < length c. hole \<and> j = 0 \<or> slots b ! ((F + j) mod (sizeMask b + 1)) = Some (c ! j))"

definition block_rep :: "bool \<Rightarrow> 'a Block \<Rightarrow> nat \<Rightarrow> nat \<Rightarrow> nat \<Rightarrow> nat \<Rightarrow> 'a list \<Rightarrow> bool" where
  "block_rep hole b F T LF LT c \<longleftrightarrow> pow2_mask (sizeMask b) \<and> length (slots b) = sizeMask b + 1
     \<and> front b = F mod (sizeMask b + 1) \<and> tail b = T mod (sizeMask b + 1)
     \<and> localFront b = LF mod (sizeMask b + 1) \<and> localTail b = LT mod (sizeMask b + 1)
     \<and> LF \<le> F \<and> F \<le> LT \<and> LT \<le> T \<and> T \<le> LF + sizeMask b \<and> length c = T - F
     \<and> holds hole b F c"

lemma pow2_mask_and:
  assumes "pow2_mask k"
  shows "0 < k" "n AND k = n mod (k + 1)"
proof -
  from assms obtain e where e: "0 < e" "k = 2 ^ e - 1" by (auto simp: pow2_mask_def)
  then have "2 ^ 1 \<le> (2 :: nat) ^ e" by (intro power_increasing) simp_all
  then show "0 < k" using e(2) by simp
  have "n AND k = n AND mask e" by (simp only: e(2) mask_eq_exp_minus_1)
  also have "\<dots> = n mod 2 ^ e" by (simp only: take_bit_eq_mask [symmetric] take_bit_eq_mod)
  also have "2 ^ e = k + 1" using e(2) by simp
  finally show "n AND k = n mod (k + 1)" .
qed

text \<open>Counters at most one turn apart are told apart by their residues, but for a full turn.\<close>

lemma mod_turn: "a \<le> b \<Longrightarrow> b \<le> a + s \<Longrightarrow> b mod s = a mod s \<longleftrightarrow> b = a \<or> b = a + s" for a b s :: nat
proof
  assume a: "a \<le> b" "b \<le> a + s" "b mod s = a mod s"
  then have "s dvd b - a" by (simp add: mod_eq_dvd_iff_nat)
  then obtain k where k: "b - a = s * k" by blast
  have "b - a \<le> s" using a(2) by simp
  then have "s * k \<le> s * 1" using k by simp
  then have "s = 0 \<or> k \<le> 1" unfolding mult_le_cancel1 by auto
  with k a show "b = a \<or> b = a + s" by (auto simp: le_Suc_eq)
qed auto

lemma block_repD:
  assumes "block_rep h b F T LF LT c"
  shows "0 < sizeMask b" "\<And>n. n AND sizeMask b = n mod (sizeMask b + 1)" "length (slots b) = sizeMask b + 1"
    "front b = F mod (sizeMask b + 1)" "tail b = T mod (sizeMask b + 1)" "localFront b = LF mod (sizeMask b + 1)" "localTail b = LT mod (sizeMask b + 1)"
    "LF \<le> F" "F \<le> LT" "LT \<le> T" "T \<le> LF + sizeMask b" "length c = T - F"
  using assms pow2_mask_and [of "sizeMask b"] by (simp_all add: block_rep_def)

lemma block_rep_tests:
  assumes "block_rep h b F T LF LT c"
  shows "(tail b + 1) AND sizeMask b = localFront b \<longleftrightarrow> T = LF + sizeMask b"
    "(tail b + 1) AND sizeMask b = front b \<longleftrightarrow> T = F + sizeMask b"
    "front b = localTail b \<longleftrightarrow> F = LT" "front b = tail b \<longleftrightarrow> F = T"
    "(tail b + 1) AND sizeMask b = (T + 1) mod (sizeMask b + 1)" "(front b + 1) AND sizeMask b = (F + 1) mod (sizeMask b + 1)"
proof -
  note d = block_repD [OF assms]
  show T1: "(tail b + 1) AND sizeMask b = (T + 1) mod (sizeMask b + 1)" "(front b + 1) AND sizeMask b = (F + 1) mod (sizeMask b + 1)"
    using d(2,4,5) by (simp_all add: mod_simps)
  show "(tail b + 1) AND sizeMask b = localFront b \<longleftrightarrow> T = LF + sizeMask b"
    using mod_turn [of LF "T + 1" "sizeMask b + 1"] d(6,8-11) unfolding T1 by auto
  show "(tail b + 1) AND sizeMask b = front b \<longleftrightarrow> T = F + sizeMask b"
    using mod_turn [of F "T + 1" "sizeMask b + 1"] d(4,8-11) unfolding T1 by auto
  show "front b = localTail b \<longleftrightarrow> F = LT" using mod_turn [of F LT "sizeMask b + 1"] d(4,7,8-11) by auto
  show "front b = tail b \<longleftrightarrow> F = T" using mod_turn [of F T "sizeMask b + 1"] d(4,5,8-11) by auto
qed

lemma block_rep_localFront: "block_rep h b F T LF LT c \<Longrightarrow> block_rep h (b\<lparr>localFront := front b\<rparr>) F T F LT c"
  by (simp add: block_rep_def holds_def)

lemma block_rep_localTail: "block_rep h b F T LF LT c \<Longrightarrow> block_rep h (b\<lparr>localTail := tail b\<rparr>) F T LF T c"
  by (simp add: block_rep_def holds_def)

lemma block_rep_slot:
  assumes "block_rep h b F T LF LT c" "j < length c"
  shows "(F + j) mod (sizeMask b + 1) \<noteq> tail b"
proof
  note d = block_repD [OF assms(1)]
  assume "(F + j) mod (sizeMask b + 1) = tail b"
  then have "T mod (sizeMask b + 1) = (F + j) mod (sizeMask b + 1)" using d(5) by simp
  with mod_turn [of "F + j" T "sizeMask b + 1"] d(8-12) assms(2) show False by simp
qed

lemma block_rep_construct:
  assumes "block_rep h b F T LF LT c"
  shows "tail b < length (slots b)" "block_rep h (b\<lparr>slots := (slots b)[tail b := Some x]\<rparr>) F T LF LT c"
proof -
  note d = block_repD [OF assms]
  show "tail b < length (slots b)" using d(3,5) by simp
  have "holds h (b\<lparr>slots := (slots b)[tail b := Some x]\<rparr>) F c"
    using assms block_rep_slot [OF assms] unfolding holds_def block_rep_def by (simp add: nth_list_update_neq [OF not_sym])
  with assms show "block_rep h (b\<lparr>slots := (slots b)[tail b := Some x]\<rparr>) F T LF LT c" by (simp add: block_rep_def)
qed

lemma block_rep_publish:
  assumes "block_rep h b F T LF LT c" "T < LF + sizeMask b" "slots b ! tail b = Some x"
  shows "block_rep h (b\<lparr>tail := (tail b + 1) AND sizeMask b\<rparr>) F (T + 1) LF LT (c @ [x])"
proof -
  note d = block_repD [OF assms(1)]
  have old: "holds h b F c" using assms(1) by (simp add: block_rep_def)
  have "hole \<and> j = 0 \<or> slots b ! ((F + j) mod (sizeMask b + 1)) = Some ((c @ [x]) ! j)" if "j < length (c @ [x])" "hole = h" for j hole
  proof (cases "j < length c")
    case True
    with old that(2) show ?thesis by (simp add: holds_def nth_append)
  next
    case False
    then have "j = length c" "F + j = T" using that(1) d(8-12) by simp_all
    then show ?thesis using d(5) assms(3) by simp
  qed
  then have "holds h (b\<lparr>tail := (tail b + 1) AND sizeMask b\<rparr>) F (c @ [x])" by (simp add: holds_def)
  with assms(1,2) d(8-12) block_rep_tests(5) [OF assms(1)] show ?thesis by (simp add: block_rep_def)
qed

lemma block_rep_take:
  assumes "block_rep False b F T LF LT c" "F < T"
  shows "front b < length (slots b)" "slots b ! front b = Some (hd c)"
    "block_rep True (b\<lparr>slots := (slots b)[front b := None]\<rparr>) F T LF LT c" "front b \<noteq> tail b"
proof -
  note d = block_repD [OF assms(1)]
  have old: "holds False b F c" "c \<noteq> []" using assms d(12) by (auto simp: block_rep_def)
  show "front b < length (slots b)" using d(3,4) by simp
  show "slots b ! front b = Some (hd c)" using old d(4) by (auto simp: holds_def hd_conv_nth)
  show "front b \<noteq> tail b" using block_rep_tests(4) [OF assms(1)] assms(2) by simp
  have "(slots b)[front b := None] ! ((F + j) mod (sizeMask b + 1)) = Some (c ! j)" if "j < length c" "j \<noteq> 0" for j
  proof -
    have "(F + j) mod (sizeMask b + 1) \<noteq> F mod (sizeMask b + 1)" using mod_turn [of F "F + j" "sizeMask b + 1"] d(8-12) that by auto
    then have "front b \<noteq> (F + j) mod (sizeMask b + 1)" using d(4) by (simp add: not_sym)
    moreover have "slots b ! ((F + j) mod (sizeMask b + 1)) = Some (c ! j)" using old(1) that(1) by (simp add: holds_def)
    ultimately show ?thesis by (metis nth_list_update_neq)
  qed
  then have "holds True (b\<lparr>slots := (slots b)[front b := None]\<rparr>) F c"
    unfolding holds_def by auto
  with assms show "block_rep True (b\<lparr>slots := (slots b)[front b := None]\<rparr>) F T LF LT c" by (simp add: block_rep_def)
qed

lemma block_rep_advance:
  assumes "block_rep h b F T LF LT c" "F < LT"
  shows "block_rep False (b\<lparr>front := (front b + 1) AND sizeMask b\<rparr>) (F + 1) T LF LT (tl c)"
proof -
  note d = block_repD [OF assms(1)]
  have old: "holds h b F c" using assms(1) by (simp add: block_rep_def)
  have "slots b ! ((F + 1 + j) mod (sizeMask b + 1)) = Some (tl c ! j)" if "j < length (tl c)" for j
  proof -
    have "Suc j < length c" using that by simp
    with old have "slots b ! ((F + Suc j) mod (sizeMask b + 1)) = Some (c ! Suc j)" unfolding holds_def by blast
    with that show ?thesis by (simp add: nth_tl)
  qed
  then have "holds False (b\<lparr>front := (front b + 1) AND sizeMask b\<rparr>) (F + 1) (tl c)" by (simp add: holds_def)
  with assms d(8-12) block_rep_tests(6) [OF assms(1)] show ?thesis by (simp add: block_rep_def)
qed

section \<open>The ring of blocks\<close>

text \<open>
  The block pointers are counters too; the blocks from \<open>FB\<close> to \<open>TB\<close> hold the queue.  Blocks behind the front one are not
  empty, those before the tail one are full, the others are empty, up to one (\<open>adv = 1\<close>) the producer has
  filled and not yet entered.
\<close>

record 'a ghost =
  gFB :: nat
  gTB :: nat
  gF :: "nat \<Rightarrow> nat"
  gT :: "nat \<Rightarrow> nat"
  gLF :: "nat \<Rightarrow> nat"
  gLT :: "nat \<Rightarrow> nat"
  gc :: "nat \<Rightarrow> 'a list"

definition block_at :: "bool \<Rightarrow> 'a ReaderWriterQueue \<Rightarrow> 'a ghost \<Rightarrow> nat \<Rightarrow> bool" where
  "block_at hole q g i \<longleftrightarrow> next_block (blocks q ! i) = Suc i mod length (blocks q)
     \<and> block_rep (hole \<and> i = frontBlock q) (blocks q ! i) (gF g i) (gT g i) (gLF g i) (gLT g i) (gc g i)"

definition shape :: "nat \<Rightarrow> nat \<Rightarrow> nat \<Rightarrow> nat \<Rightarrow> (nat \<Rightarrow> 'a list) \<Rightarrow> (nat \<Rightarrow> nat) \<Rightarrow> bool" where
  "shape B FB TB adv c m \<longleftrightarrow> (\<forall>k. FB < k \<and> k \<le> TB \<longrightarrow> c (k mod B) \<noteq> [])
     \<and> (\<forall>k. FB < k \<and> k < TB \<longrightarrow> length (c (k mod B)) = m (k mod B))
     \<and> (\<forall>k. TB + adv < k \<and> k < FB + B \<longrightarrow> c (k mod B) = [])"

definition masks :: "'a ReaderWriterQueue \<Rightarrow> nat \<Rightarrow> nat" where
  "masks q i = sizeMask (blocks q ! i)"

definition ring_rep :: "bool \<Rightarrow> nat \<Rightarrow> 'a ReaderWriterQueue \<Rightarrow> 'a ghost \<Rightarrow> bool" where
  "ring_rep hole adv q g \<longleftrightarrow> gFB g \<le> gTB g \<and> gTB g + adv < gFB g + length (blocks q)
     \<and> frontBlock q = gFB g mod length (blocks q) \<and> tailBlock q = gTB g mod length (blocks q)
     \<and> (\<forall>i < length (blocks q). block_at hole q g i)
     \<and> shape (length (blocks q)) (gFB g) (gTB g) adv (gc g) (masks q)"

definition content :: "nat \<Rightarrow> 'a ghost \<Rightarrow> 'a list" where
  "content B g = concat (map (\<lambda>k. gc g (k mod B)) [gFB g..<Suc (gTB g)])"

definition add_obj :: "nat \<Rightarrow> 'a \<Rightarrow> 'a ghost \<Rightarrow> 'a ghost" where
  "add_obj i x g = g\<lparr>gT := (gT g)(i := gT g i + 1), gc := (gc g)(i := gc g i @ [x])\<rparr>"

lemma add_obj_sel [simp]:
  "gFB (add_obj i x g) = gFB g" "gTB (add_obj i x g) = gTB g" "gF (add_obj i x g) = gF g" "gLF (add_obj i x g) = gLF g"
  "gLT (add_obj i x g) = gLT g" "gT (add_obj i x g) = (gT g)(i := gT g i + 1)" "gc (add_obj i x g) = (gc g)(i := gc g i @ [x])"
  by (simp_all add: add_obj_def)

lemma ring_repD:
  assumes "ring_rep hole adv q g"
  shows "0 < length (blocks q)" "gFB g \<le> gTB g" "gTB g + adv < gFB g + length (blocks q)" "frontBlock q = gFB g mod length (blocks q)"
    "tailBlock q = gTB g mod length (blocks q)" "frontBlock q < length (blocks q)" "tailBlock q < length (blocks q)"
    "Suc (gTB g) mod length (blocks q) < length (blocks q)"
    "i < length (blocks q) \<Longrightarrow> block_at hole q g i" "shape (length (blocks q)) (gFB g) (gTB g) adv (gc g) (masks q)"
proof -
  show "0 < length (blocks q)" using assms by (auto simp: ring_rep_def)
  then show "frontBlock q < length (blocks q)" "tailBlock q < length (blocks q)" "Suc (gTB g) mod length (blocks q) < length (blocks q)"
    using assms by (simp_all add: ring_rep_def)
qed (use assms in \<open>simp_all add: ring_rep_def\<close>)

lemma concat_cong:
  "(\<And>k. a \<le> k \<Longrightarrow> k < b \<Longrightarrow> f (k mod B) = h (k mod B)) \<Longrightarrow>
    concat (map (\<lambda>k. f (k mod B)) [a..<b]) = concat (map (\<lambda>k. h (k mod B)) [a..<b])"
  by (intro arg_cong [where f = concat] map_cong) auto

lemma mod_window: "a \<le> j \<Longrightarrow> j < a + B \<Longrightarrow> a \<le> k \<Longrightarrow> k < a + B \<Longrightarrow> j mod B = k mod B \<longleftrightarrow> j = k" for a j k B :: nat
proof (cases j k rule: linorder_cases)
  case less
  assume a: "a \<le> j" "k < a + B"
  with less have "k \<noteq> j + B" "j \<noteq> k" by simp_all
  with mod_turn [of j k B] less a show ?thesis by auto
next
  case greater
  assume a: "a \<le> k" "j < a + B"
  with greater have "j \<noteq> k + B" "j \<noteq> k" by simp_all
  with mod_turn [of k j B] greater a show ?thesis by auto
qed simp

lemma store_sel [simp]:
  "length (blocks (store p f q)) = length (blocks q)" "frontBlock (store p f q) = frontBlock q" "tailBlock (store p f q) = tailBlock q"
  "i < length (blocks q) \<Longrightarrow> blocks (store p f q) ! i = (if i = p then f (blocks q ! p) else blocks q ! i)"
  by (simp_all add: store_def nth_list_update)

text \<open>A change of one block that leaves its contents alone.\<close>

lemma ring_store:
  assumes "ring_rep hole adv q g" "i < length (blocks q)"
    and "next_block (f (blocks q ! i)) = next_block (blocks q ! i)" "sizeMask (f (blocks q ! i)) = sizeMask (blocks q ! i)"
    and "block_rep (hole' \<and> i = frontBlock q) (f (blocks q ! i)) (gF g i) (gT g i) LF' LT' (gc g i)"
    and "hole' = hole \<or> i = frontBlock q"
  shows "ring_rep hole' adv (store i f q) (g\<lparr>gLF := (gLF g)(i := LF'), gLT := (gLT g)(i := LT')\<rparr>)"
proof -
  note d = ring_repD [OF assms(1)]
  let ?g = "g\<lparr>gLF := (gLF g)(i := LF'), gLT := (gLT g)(i := LT')\<rparr>"
  have "block_at hole' (store i f q) ?g k" if "k < length (blocks q)" for k
    using d(9) [OF that] that assms(2,3,5,6) by (cases "k = i") (auto simp: block_at_def)
  moreover have "shape (length (blocks q)) (gFB g) (gTB g) adv (gc g) (masks (store i f q))"
    using d(1,10) assms(2,4) by (auto simp: shape_def masks_def)
  ultimately show ?thesis using assms(1) by (simp add: ring_rep_def)
qed

text \<open>The producer makes an object visible in the tail block.\<close>

lemma ring_publish:
  assumes "ring_rep hole 0 q g" "i = tailBlock q"
    and "next_block (f (blocks q ! i)) = next_block (blocks q ! i)" "sizeMask (f (blocks q ! i)) = sizeMask (blocks q ! i)"
    and "block_rep (hole \<and> i = frontBlock q) (f (blocks q ! i)) (gF g i) (gT g i + 1) (gLF g i) (gLT g i) (gc g i @ [x])"
  shows "ring_rep hole 0 (store i f q) (add_obj i x g)"
    and "content (length (blocks q)) (add_obj i x g) = content (length (blocks q)) g @ [x]"
proof -
  note d = ring_repD [OF assms(1)]
  let ?B = "length (blocks q)"
  have w: "k mod ?B = i \<longleftrightarrow> k = gTB g" if "gFB g \<le> k" "k < gFB g + ?B" for k
    using mod_window [OF that, of "gTB g"] d(2,3,5) assms(2) by simp
  have "block_at hole (store i f q) (add_obj i x g) k" if "k < ?B" for k
    using d(9) [OF that] that assms(3,5) d(7) assms(2) by (cases "k = i") (auto simp: block_at_def)
  moreover have "shape ?B (gFB g) (gTB g) 0 ((gc g)(i := gc g i @ [x])) (masks (store i f q))"
    using d(1,2,3,10) assms(2,4) w d(7) by (auto simp: shape_def masks_def)
  ultimately show "ring_rep hole 0 (store i f q) (add_obj i x g)" using assms(1) by (simp add: ring_rep_def)
  have "concat (map (\<lambda>k. ((gc g)(i := gc g i @ [x])) (k mod ?B)) [gFB g..<gTB g]) = concat (map (\<lambda>k. gc g (k mod ?B)) [gFB g..<gTB g])"
    using w d(2,3) by (intro concat_cong) simp
  moreover have "gTB g mod ?B = i" using d(5) assms(2) by simp
  ultimately show "content ?B (add_obj i x g) = content ?B g @ [x]" using d(2) by (simp add: content_def)
qed

text \<open>The producer fills the block behind the tail block, and then enters it.\<close>

lemma ring_publish_next:
  assumes "ring_rep hole 0 q g" "i = Suc (gTB g) mod length (blocks q)" "Suc (gTB g) < gFB g + length (blocks q)"
    and "next_block (f (blocks q ! i)) = next_block (blocks q ! i)" "sizeMask (f (blocks q ! i)) = sizeMask (blocks q ! i)"
    and "block_rep (hole \<and> i = frontBlock q) (f (blocks q ! i)) (gF g i) (gT g i + 1) (gLF g i) (gLT g i) (gc g i @ [x])"
  shows "ring_rep hole 1 (store i f q) (add_obj i x g)"
    and "content (length (blocks q)) (add_obj i x g) = content (length (blocks q)) g" "gc g i = []"
proof -
  note d = ring_repD [OF assms(1)]
  let ?B = "length (blocks q)"
  have w: "k mod ?B = i \<longleftrightarrow> k = Suc (gTB g)" if "gFB g \<le> k" "k < gFB g + ?B" for k
    using mod_window [OF that, of "Suc (gTB g)"] d(2) assms(2,3) by simp
  show "gc g i = []" using d(10) assms(2,3) by (simp add: shape_def)
  have "block_at hole (store i f q) (add_obj i x g) k" if "k < ?B" for k
    using d(9) [OF that] that assms(2,4,6) by (cases "k = i") (auto simp: block_at_def)
  moreover have "shape ?B (gFB g) (gTB g) 1 ((gc g)(i := gc g i @ [x])) (masks (store i f q))"
    using d(1,2,3,10) assms(2,5) w d(8) by (auto simp: shape_def masks_def)
  ultimately show "ring_rep hole 1 (store i f q) (add_obj i x g)" using assms(1,3) by (simp add: ring_rep_def)
  have "concat (map (\<lambda>k. ((gc g)(i := gc g i @ [x])) (k mod ?B)) [gFB g..<Suc (gTB g)]) = concat (map (\<lambda>k. gc g (k mod ?B)) [gFB g..<Suc (gTB g)])"
    using w d(2,3) by (intro concat_cong) simp
  then show "content ?B (add_obj i x g) = content ?B g" unfolding content_def by (simp del: upt_Suc)
qed

lemma ring_advance:
  assumes "ring_rep hole 1 q g" "tn = Suc (gTB g) mod length (blocks q)" "gc g tn = [x]"
    and "gFB g < gTB g \<longrightarrow> length (gc g (tailBlock q)) = masks q (tailBlock q)"
  shows "ring_rep hole 0 (q\<lparr>tailBlock := tn\<rparr>) (g\<lparr>gTB := Suc (gTB g)\<rparr>)"
    "content (length (blocks q)) (g\<lparr>gTB := Suc (gTB g)\<rparr>) = content (length (blocks q)) g @ [x]"
proof -
  note d = ring_repD [OF assms(1)]
  let ?B = "length (blocks q)"
  have "shape ?B (gFB g) (Suc (gTB g)) 0 (gc g) (masks q)"
    using d(5,10) assms(2-4) unfolding shape_def by (metis (no_types, lifting) Suc_eq_plus1 add_0_right le_Suc_eq less_Suc_eq list.discI)
  moreover have "block_at hole (q\<lparr>tailBlock := tn\<rparr>) (g\<lparr>gTB := Suc (gTB g)\<rparr>) i" if "i < ?B" for i
    using d(9) [OF that] by (simp add: block_at_def)
  moreover have "masks (q\<lparr>tailBlock := tn\<rparr>) = masks q" by (simp add: masks_def fun_eq_iff)
  ultimately show "ring_rep hole 0 (q\<lparr>tailBlock := tn\<rparr>) (g\<lparr>gTB := Suc (gTB g)\<rparr>)"
    using assms(1,2) by (simp add: ring_rep_def)
  show "content ?B (g\<lparr>gTB := Suc (gTB g)\<rparr>) = content ?B g @ [x]" using d(2) assms(2,3) by (simp add: content_def)
qed

text \<open>The consumer removes the first object of the front block, or leaves an empty front block.\<close>

definition remove_obj :: "nat \<Rightarrow> 'a ghost \<Rightarrow> 'a ghost" where
  "remove_obj i g = g\<lparr>gF := (gF g)(i := gF g i + 1), gc := (gc g)(i := tl (gc g i))\<rparr>"

lemma remove_obj_sel [simp]:
  "gFB (remove_obj i g) = gFB g" "gTB (remove_obj i g) = gTB g" "gT (remove_obj i g) = gT g" "gLF (remove_obj i g) = gLF g"
  "gLT (remove_obj i g) = gLT g" "gF (remove_obj i g) = (gF g)(i := gF g i + 1)" "gc (remove_obj i g) = (gc g)(i := tl (gc g i))"
  by (simp_all add: remove_obj_def)

lemma front_content:
  assumes "ring_rep hole adv q g"
  shows "content (length (blocks q)) g = gc g (frontBlock q) @ concat (map (\<lambda>k. gc g (k mod length (blocks q))) [Suc (gFB g)..<Suc (gTB g)])"
  using ring_repD(2,4) [OF assms] by (simp add: content_def upt_conv_Cons del: upt_Suc)

lemma ring_remove:
  assumes "ring_rep hole adv q g" "i = frontBlock q" "gc g i \<noteq> []"
    and "next_block (f (blocks q ! i)) = next_block (blocks q ! i)" "sizeMask (f (blocks q ! i)) = sizeMask (blocks q ! i)"
    and "block_rep False (f (blocks q ! i)) (gF g i + 1) (gT g i) (gLF g i) (gLT g i) (tl (gc g i))"
  shows "ring_rep False adv (store i f q) (remove_obj i g)"
    and "content (length (blocks q)) g = hd (gc g i) # content (length (blocks q)) (remove_obj i g)"
proof -
  note d = ring_repD [OF assms(1)]
  let ?B = "length (blocks q)"
  have w: "k mod ?B \<noteq> i" if "gFB g < k" "k < gFB g + ?B" for k
    using mod_window [of "gFB g" k ?B "gFB g"] that d(1,4) assms(2) by simp
  have "block_at False (store i f q) (remove_obj i g) k" if "k < ?B" for k
    using d(9) [OF that] that assms(2,4,6) by (cases "k = i") (auto simp: block_at_def)
  moreover have "shape ?B (gFB g) (gTB g) adv ((gc g)(i := tl (gc g i))) (masks (store i f q))"
    using d(1-3,10) w by (auto simp: shape_def masks_def)
  ultimately show r: "ring_rep False adv (store i f q) (remove_obj i g)" using assms(1) by (simp add: ring_rep_def)
  have "concat (map (\<lambda>k. ((gc g)(i := tl (gc g i))) (k mod ?B)) [Suc (gFB g)..<Suc (gTB g)]) = concat (map (\<lambda>k. gc g (k mod ?B)) [Suc (gFB g)..<Suc (gTB g)])"
    using w d(2,3) by (intro concat_cong) simp
  then show "content ?B g = hd (gc g i) # content ?B (remove_obj i g)"
    using front_content [OF assms(1)] front_content [OF r] assms(2,3) by (simp del: upt_Suc)
qed

lemma ring_move:
  assumes "ring_rep False adv q g" "gFB g < gTB g" "gc g (frontBlock q) = []" "nb = Suc (gFB g) mod length (blocks q)"
  shows "ring_rep False adv (q\<lparr>frontBlock := nb\<rparr>) (g\<lparr>gFB := Suc (gFB g)\<rparr>)"
    "content (length (blocks q)) (g\<lparr>gFB := Suc (gFB g)\<rparr>) = content (length (blocks q)) g"
proof -
  note d = ring_repD [OF assms(1)]
  let ?B = "length (blocks q)"
  have "gc g (k mod ?B) = []" if "gTB g + adv < k" "k < Suc (gFB g) + ?B" for k
  proof (cases "k = gFB g + ?B")
    case True
    with assms(3) d(4) show ?thesis by simp
  qed (use d(10) that in \<open>auto simp: shape_def\<close>)
  then have "shape ?B (Suc (gFB g)) (gTB g) adv (gc g) (masks q)" using d(10) by (simp add: shape_def)
  moreover have "block_at False (q\<lparr>frontBlock := nb\<rparr>) (g\<lparr>gFB := Suc (gFB g)\<rparr>) i" if "i < ?B" for i
    using d(9) [OF that] by (simp add: block_at_def)
  moreover have "masks (q\<lparr>frontBlock := nb\<rparr>) = masks q" by (simp add: masks_def fun_eq_iff)
  ultimately show "ring_rep False adv (q\<lparr>frontBlock := nb\<rparr>) (g\<lparr>gFB := Suc (gFB g)\<rparr>)"
    using assms(1,2,4) by (simp add: ring_rep_def)
  show "content ?B (g\<lparr>gFB := Suc (gFB g)\<rparr>) = content ?B g"
    using front_content [OF assms(1)] assms(2,3) by (simp add: content_def del: upt_Suc)
qed

section \<open>Where the two threads are\<close>

abbreviation blk :: "'a ReaderWriterQueue \<Rightarrow> nat \<Rightarrow> 'a Block" where
  "blk q i \<equiv> blocks q ! i"

text \<open>
  The producer found its block full; where the consumer works on another block it is still full.  The block behind
  it is free.
\<close>

definition full_tail :: "'a ReaderWriterQueue \<Rightarrow> 'a ghost \<Rightarrow> bool" where
  "full_tail q g \<longleftrightarrow> gT g (tailBlock q) = gLF g (tailBlock q) + masks q (tailBlock q)
     \<and> (gFB g < gTB g \<longrightarrow> gF g (tailBlock q) = gLF g (tailBlock q))"

definition next_free :: "'a ReaderWriterQueue \<Rightarrow> 'a ghost \<Rightarrow> nat \<Rightarrow> bool" where
  "next_free q g tn \<longleftrightarrow> full_tail q g \<and> tn = Suc (gTB g) mod length (blocks q) \<and> Suc (gTB g) < gFB g + length (blocks q)"

fun pinv :: "'a \<Rightarrow> 'a ReaderWriterQueue \<Rightarrow> 'a ghost \<Rightarrow> enq_pc \<Rightarrow> bool" where
  "pinv x q g (PReadFront tb t nt) \<longleftrightarrow> tb = tailBlock q \<and> t = tail (blk q tb) \<and> nt = (tail (blk q tb) + 1) AND sizeMask (blk q tb)"
| "pinv x q g (PWrite tb t nt) \<longleftrightarrow> tb = tailBlock q \<and> t = tail (blk q tb) \<and> nt = (tail (blk q tb) + 1) AND sizeMask (blk q tb)
     \<and> gT g tb < gLF g tb + masks q tb"
| "pinv x q g (PPublish tb nt) \<longleftrightarrow> tb = tailBlock q \<and> nt = (tail (blk q tb) + 1) AND sizeMask (blk q tb)
     \<and> gT g tb < gLF g tb + masks q tb \<and> slots (blk q tb) ! tail (blk q tb) = Some x"
| "pinv x q g (PFull tb) \<longleftrightarrow> tb = tailBlock q \<and> full_tail q g"
| "pinv x q g (PNext tn) \<longleftrightarrow> next_free q g tn"
| "pinv x q g (PWriteNext tn t) \<longleftrightarrow> next_free q g tn \<and> t = tail (blk q tn) \<and> gT g tn = gLF g tn"
| "pinv x q g (PPublishNext tn t) \<longleftrightarrow> next_free q g tn \<and> t = tail (blk q tn) \<and> gT g tn = gLF g tn \<and> slots (blk q tn) ! t = Some x"
| "pinv x q g (PAdvance tn) \<longleftrightarrow> next_free q g tn \<and> gc g tn = [x]"
| "pinv x q g _ \<longleftrightarrow> True"

definition adv_of :: "enq_pc \<Rightarrow> nat" where
  "adv_of pc = (case pc of PAdvance _ \<Rightarrow> 1 | _ \<Rightarrow> 0)"

fun cinv :: "'a ReaderWriterQueue \<Rightarrow> 'a ghost \<Rightarrow> 'a deq_pc \<Rightarrow> bool" where
  "cinv q g (CReadTail fb f) \<longleftrightarrow> fb = frontBlock q \<and> f = front (blk q fb)"
| "cinv q g (CTailBlock fb) \<longleftrightarrow> fb = frontBlock q"
| "cinv q g CReread \<longleftrightarrow> gFB g < gTB g"
| "cinv q g (CNext fb) \<longleftrightarrow> fb = frontBlock q \<and> gFB g < gTB g \<and> gc g (frontBlock q) = []"
| "cinv q g (CMove nb f) \<longleftrightarrow> gFB g < gTB g \<and> gc g (frontBlock q) = [] \<and> nb = Suc (gFB g) mod length (blocks q)
     \<and> f = front (blk q nb) \<and> gF g nb < gLT g nb"
| "cinv q g (CRead fb f) \<longleftrightarrow> fb = frontBlock q \<and> f = front (blk q fb) \<and> gF g fb < gLT g fb"
| "cinv q g (CPublish fb f x) \<longleftrightarrow> fb = frontBlock q \<and> f = (front (blk q fb) + 1) AND sizeMask (blk q fb)
     \<and> gF g fb < gLT g fb \<and> gc g fb \<noteq> [] \<and> hd (gc g fb) = x"
| "cinv q g _ \<longleftrightarrow> True"

definition hole_of :: "'a deq_pc \<Rightarrow> bool" where
  "hole_of pc = (case pc of CPublish _ _ _ \<Rightarrow> True | _ \<Rightarrow> False)"

text \<open>What each thread leaves alone.\<close>

definition enq_keeps :: "'a ReaderWriterQueue \<Rightarrow> 'a ghost \<Rightarrow> 'a ReaderWriterQueue \<Rightarrow> 'a ghost \<Rightarrow> bool" where
  "enq_keeps q g q' g' \<longleftrightarrow> length (blocks q') = length (blocks q) \<and> frontBlock q' = frontBlock q \<and> gFB g' = gFB g \<and> gTB g \<le> gTB g'
     \<and> gF g' = gF g \<and> gLT g' = gLT g
     \<and> (\<forall>i < length (blocks q). front (blk q' i) = front (blk q i) \<and> sizeMask (blk q' i) = sizeMask (blk q i))
     \<and> (\<forall>i. \<exists>ys. gc g' i = gc g i @ ys) \<and> (gFB g < gTB g \<longrightarrow> gc g' (frontBlock q) = gc g (frontBlock q))"

definition deq_keeps :: "'a ReaderWriterQueue \<Rightarrow> 'a ghost \<Rightarrow> 'a ReaderWriterQueue \<Rightarrow> 'a ghost \<Rightarrow> bool" where
  "deq_keeps q g q' g' \<longleftrightarrow> length (blocks q') = length (blocks q) \<and> tailBlock q' = tailBlock q \<and> gTB g' = gTB g \<and> gFB g \<le> gFB g'
     \<and> gT g' = gT g \<and> gLF g' = gLF g
     \<and> (\<forall>i < length (blocks q). tail (blk q' i) = tail (blk q i) \<and> sizeMask (blk q' i) = sizeMask (blk q i)
          \<and> slots (blk q' i) ! tail (blk q i) = slots (blk q i) ! tail (blk q i))
     \<and> (\<forall>i. i \<noteq> frontBlock q \<longrightarrow> gF g' i = gF g i \<and> gc g' i = gc g i)"

lemma cinv_stable: "cinv q g pc \<Longrightarrow> ring_rep hole adv q g \<Longrightarrow> enq_keeps q g q' g' \<Longrightarrow> cinv q' g' pc"
proof -
  assume a: "cinv q g pc" "ring_rep hole adv q g" "enq_keeps q g q' g'"
  note d = ring_repD [OF a(2)]
  have n: "Suc (gFB g) mod length (blocks q) < length (blocks q)" using d(1) by simp
  have hd: "hd (gc g' i) = hd (gc g i) \<and> gc g' i \<noteq> []" if "gc g i \<noteq> []" for i
    using a(3) that by (metis enq_keeps_def append_is_Nil_conv hd_append)
  show ?thesis using a(1,3) d(6) n hd by (cases pc) (auto simp: enq_keeps_def)
qed

lemma window_neq:
  assumes "ring_rep hole adv q g"
  shows "gFB g < gTB g \<Longrightarrow> tailBlock q \<noteq> frontBlock q"
    "Suc (gTB g) < gFB g + length (blocks q) \<Longrightarrow> Suc (gTB g) mod length (blocks q) \<noteq> frontBlock q"
    "Suc (gTB g) < gFB g + length (blocks q) \<Longrightarrow> Suc (gTB g) mod length (blocks q) \<noteq> tailBlock q"
  using ring_repD(1-5) [OF assms] mod_window [of "gFB g" "gTB g" "length (blocks q)" "gFB g"]
    mod_window [of "gFB g" "Suc (gTB g)" "length (blocks q)" "gFB g"] mod_window [of "gFB g" "Suc (gTB g)" "length (blocks q)" "gTB g"]
  by simp_all

lemma pinv_stable: "pinv x q g pc \<Longrightarrow> ring_rep hole adv q g \<Longrightarrow> deq_keeps q g q' g' \<Longrightarrow> pinv x q' g' pc"
proof -
  assume a: "pinv x q g pc" "ring_rep hole adv q g" "deq_keeps q g q' g'"
  note d = ring_repD [OF a(2)] and w = window_neq [OF a(2)]
  have k: "masks q' (tailBlock q) = masks q (tailBlock q)" using a(3) d(7) by (simp add: deq_keeps_def masks_def)
  have f: "full_tail q g \<Longrightarrow> full_tail q' g'" using a(3) w(1) by (auto simp: full_tail_def deq_keeps_def k)
  have n: "next_free q g tn \<Longrightarrow> next_free q' g' tn \<and> tn < length (blocks q) \<and> tn \<noteq> frontBlock q" for tn
    using f a(3) d(8) w(2) by (auto simp: next_free_def deq_keeps_def)
  show ?thesis using a(1,3) d(7) n f k by (cases pc) (auto simp: deq_keeps_def)
qed

section \<open>The steps\<close>

lemma enq_keeps_refl: "enq_keeps q g q g"
  by (simp add: enq_keeps_def)

lemma deq_keeps_refl: "deq_keeps q g q g"
  by (simp add: deq_keeps_def)

lemma block_at_rep: "ring_rep hole adv q g \<Longrightarrow> i < length (blocks q) \<Longrightarrow>
    block_rep (hole \<and> i = frontBlock q) (blk q i) (gF g i) (gT g i) (gLF g i) (gLT g i) (gc g i)"
  using ring_repD(9) [of hole adv q g i] by (simp add: block_at_def)

text \<open>One step of \<open>try_enqueue\<close>: no error, the queue is as before or, in the last step, has got \<open>x\<close> at its end.\<close>

definition enq_good :: "'a \<Rightarrow> bool \<Rightarrow> 'a ReaderWriterQueue \<Rightarrow> 'a ghost \<Rightarrow> (enq_pc \<times> 'a ReaderWriterQueue) result \<Rightarrow> bool" where
  "enq_good x hole q g r \<longleftrightarrow> (\<exists>pc' q' g'. r = Inr (pc', q') \<and> ring_rep hole (adv_of pc') q' g' \<and> pinv x q' g' pc' \<and> enq_keeps q g q' g'
     \<and> content (length (blocks q)) g' = content (length (blocks q)) g @ (if pc' = PDone True then [x] else []))"

lemma enq_goodI:
  "r = Inr (pc', q') \<Longrightarrow> ring_rep hole (adv_of pc') q' g' \<Longrightarrow> pinv x q' g' pc' \<Longrightarrow> enq_keeps q g q' g' \<Longrightarrow>
    content (length (blocks q)) g' = content (length (blocks q)) g @ (if pc' = PDone True then [x] else []) \<Longrightarrow> enq_good x hole q g r"
  unfolding enq_good_def by blast

lemma enq_start_ok:
  assumes "ring_rep hole 0 q g"
  shows "enq_good x hole q g (enq_step x PStart q)"
proof -
  note d = ring_repD [OF assms] and r = block_at_rep [OF assms ring_repD(7) [OF assms]]
  let ?b = "blk q (tailBlock q)"
  let ?nt = "(tail ?b + 1) AND sizeMask ?b"
  let ?pc = "if ?nt \<noteq> localFront ?b then PWrite (tailBlock q) (tail ?b) ?nt else PReadFront (tailBlock q) (tail ?b) ?nt"
  have n: "?nt \<noteq> localFront ?b \<longleftrightarrow> gT g (tailBlock q) < gLF g (tailBlock q) + masks q (tailBlock q)"
    using block_rep_tests(1) [OF r] block_repD(11) [OF r] by (auto simp: masks_def)
  show ?thesis
  proof (rule enq_goodI [of _ ?pc q _ g])
    show "pinv x q g ?pc" unfolding n by simp
  qed (use d(7) assms enq_keeps_refl in \<open>simp_all add: enq_step_def deref_def adv_of_def Let_def\<close>)
qed

lemma enq_read_front_ok:
  assumes "ring_rep hole 0 q g" "pinv x q g (PReadFront tb t nt)"
  shows "enq_good x hole q g (enq_step x (PReadFront tb t nt) q)"
proof -
  note d = ring_repD [OF assms(1)] and r = block_at_rep [OF assms(1) ring_repD(7) [OF assms(1)]]
  let ?f = "localFront_update (\<lambda>_. front (blk q tb))" and ?g = "g\<lparr>gLF := (gLF g)(tb := gF g tb), gLT := (gLT g)(tb := gLT g tb)\<rparr>"
  from assms(2) have tb: "tb = tailBlock q" "t = tail (blk q tb)" "nt = (tail (blk q tb) + 1) AND sizeMask (blk q tb)" by simp_all
  have R: "ring_rep hole 0 (store tb ?f q) ?g"
    using ring_store [OF assms(1), of tb ?f hole "gF g tb" "gLT g tb"] block_rep_localFront [OF r] d(7) tb(1) by simp
  have m: "masks (store tb ?f q) tb = masks q tb" using d(7) tb(1) by (simp add: masks_def)
  have "nt \<noteq> front (blk q tb) \<longleftrightarrow> gT g tb < gF g tb + masks q tb" "gT g tb \<le> gF g tb + masks q tb"
    using block_rep_tests(2) [OF r] block_repD(8-11) [OF r] tb by (auto simp: masks_def)
  then have "pinv x (store tb ?f q) ?g (if nt \<noteq> front (blk q tb) then PWrite tb t nt else PFull tb)"
    using tb d(7) m by (auto simp: full_tail_def)
  moreover have "enq_keeps q g (store tb ?f q) ?g" using d(7) tb(1) by (simp add: enq_keeps_def)
  moreover have "content (length (blocks q)) ?g = content (length (blocks q)) g" by (simp add: content_def)
  moreover have "adv_of (if nt \<noteq> front (blk q tb) then PWrite tb t nt else PFull tb) = 0" by (simp add: adv_of_def)
  ultimately show ?thesis
    using R d(7) tb(1)
    by (intro enq_goodI [of _ "if nt \<noteq> front (blk q tb) then PWrite tb t nt else PFull tb" "store tb ?f q" _ ?g]) (simp_all add: enq_step_def deref_def)
qed

text \<open>Constructing the object behind the last one of a block changes nothing that is visible.\<close>

lemma construct_ok:
  assumes "ring_rep hole 0 q g" "p < length (blocks q)" "t = tail (blk q p)"
  shows "\<exists>q'. construct p t x q = Inr q' \<and> ring_rep hole 0 q' g \<and> enq_keeps q g q' g \<and> length (blocks q') = length (blocks q)
    \<and> tailBlock q' = tailBlock q \<and> masks q' = masks q \<and> (\<forall>i. tail (blk q' i) = tail (blk q i)) \<and> slots (blk q' p) ! t = Some x"
proof -
  note r = block_at_rep [OF assms(1,2)]
  let ?f = "slots_update (\<lambda>s. s[t := Some x])"
  have up: "?f (blk q p) = (blk q p)\<lparr>slots := (slots (blk q p))[tail (blk q p) := Some x]\<rparr>" using assms(3) by simp
  have "g\<lparr>gLF := (gLF g)(p := gLF g p), gLT := (gLT g)(p := gLT g p)\<rparr> = g" by simp
  moreover have "block_rep (hole \<and> p = frontBlock q) (?f (blk q p)) (gF g p) (gT g p) (gLF g p) (gLT g p) (gc g p)"
    unfolding up by (rule block_rep_construct(2) [OF r])
  ultimately have R: "ring_rep hole 0 (store p ?f q) g"
    using ring_store [OF assms(1,2), of ?f hole "gLF g p" "gLT g p"] by simp
  have b: "blk (store p ?f q) i = (if i = p then ?f (blk q p) else blk q i)" for i
    using assms(2) by (simp add: store_def nth_list_update_eq nth_list_update_neq)
  have "masks (store p ?f q) = masks q" by (auto simp: masks_def b fun_eq_iff)
  moreover have "enq_keeps q g (store p ?f q) g" by (auto simp: enq_keeps_def b)
  moreover have "construct p t x q = Inr (store p ?f q)"
    using assms(2,3) block_rep_construct(1) [OF r] by (simp add: construct_def deref_def)
  moreover have "tail (blk (store p ?f q) i) = tail (blk q i)" for i by (simp add: b)
  moreover have "slots (blk (store p ?f q) p) ! t = Some x" unfolding b using block_rep_construct(1) [OF r] assms(3) by simp
  ultimately show ?thesis using R by (intro exI [of _ "store p ?f q"]) simp
qed

lemma enq_write_ok:
  assumes "ring_rep hole 0 q g" "pinv x q g (PWrite tb t nt)"
  shows "enq_good x hole q g (enq_step x (PWrite tb t nt) q)"
proof -
  note d = ring_repD [OF assms(1)]
  from assms(2) have tb: "tb = tailBlock q" "t = tail (blk q tb)" by simp_all
  from construct_ok [OF assms(1), of tb t x] d(7) tb obtain q' where q': "construct tb t x q = Inr q'" "ring_rep hole 0 q' g" "enq_keeps q g q' g"
    "tailBlock q' = tailBlock q" "masks q' = masks q" "\<forall>i. tail (blk q' i) = tail (blk q i)" "slots (blk q' tb) ! t = Some x" by auto
  have "sizeMask (blk q' tb) = sizeMask (blk q tb)" using fun_cong [OF q'(5), of tb] by (simp add: masks_def)
  then have "pinv x q' g (PPublish tb nt)" using assms(2) q'(4-7) by auto
  then show ?thesis using q'(1-3) by (intro enq_goodI [of _ "PPublish tb nt" q' _ g]) (simp_all add: enq_step_def adv_of_def del: pinv.simps)
qed

lemma enq_write_next_ok:
  assumes "ring_rep hole 0 q g" "pinv x q g (PWriteNext tn t)"
  shows "enq_good x hole q g (enq_step x (PWriteNext tn t) q)"
proof -
  note d = ring_repD [OF assms(1)]
  from assms(2) have tn: "tn < length (blocks q)" "t = tail (blk q tn)" using d(8) by (simp_all add: next_free_def)
  from construct_ok [OF assms(1) tn, of x] obtain q' where q': "construct tn t x q = Inr q'" "ring_rep hole 0 q' g" "enq_keeps q g q' g"
    "length (blocks q') = length (blocks q)" "tailBlock q' = tailBlock q" "masks q' = masks q" "\<forall>i. tail (blk q' i) = tail (blk q i)" "slots (blk q' tn) ! t = Some x" by blast
  then have "pinv x q' g (PPublishNext tn t)" using assms(2) by (auto simp: next_free_def full_tail_def)
  with q' show ?thesis by (intro enq_goodI [of _ "PPublishNext tn t" q' _ g]) (simp_all add: enq_step_def adv_of_def)
qed

lemma enq_keeps_add:
  assumes "i < length (blocks q)" "front (f (blk q i)) = front (blk q i)" "sizeMask (f (blk q i)) = sizeMask (blk q i)"
    and "gFB g < gTB g \<longrightarrow> i \<noteq> frontBlock q"
  shows "enq_keeps q g (store i f q) (add_obj i x g)"
  using assms by (auto simp: enq_keeps_def)

lemma enq_publish_ok:
  assumes "ring_rep hole 0 q g" "pinv x q g (PPublish tb nt)"
  shows "enq_good x hole q g (enq_step x (PPublish tb nt) q)"
proof -
  note d = ring_repD [OF assms(1)] and r = block_at_rep [OF assms(1) ring_repD(7) [OF assms(1)]]
  let ?f = "tail_update (\<lambda>_. nt)"
  from assms(2) have tb: "tb = tailBlock q" "nt = (tail (blk q tb) + 1) AND sizeMask (blk q tb)" "gT g tb < gLF g tb + sizeMask (blk q tb)"
    "slots (blk q tb) ! tail (blk q tb) = Some x" by (auto simp: masks_def)
  have "block_rep (hole \<and> tb = frontBlock q) (?f (blk q tb)) (gF g tb) (gT g tb + 1) (gLF g tb) (gLT g tb) (gc g tb @ [x])"
    using block_rep_publish [OF r [folded tb(1)] tb(3,4)] by (simp only: tb(2))
  from ring_publish [OF assms(1) tb(1), of ?f, OF _ _ this] have R: "ring_rep hole 0 (store tb ?f q) (add_obj tb x g)"
    "content (length (blocks q)) (add_obj tb x g) = content (length (blocks q)) g @ [x]" by simp_all
  have "enq_keeps q g (store tb ?f q) (add_obj tb x g)"
    using window_neq(1) [OF assms(1)] d(7) tb(1) by (intro enq_keeps_add) auto
  with R d(7) tb(1) show ?thesis
    by (intro enq_goodI [of _ "PDone True" "store tb ?f q" _ "add_obj tb x g"]) (simp_all add: enq_step_def deref_def adv_of_def)
qed

lemma enq_publish_next_ok:
  assumes "ring_rep hole 0 q g" "pinv x q g (PPublishNext tn t)"
  shows "enq_good x hole q g (enq_step x (PPublishNext tn t) q)"
proof -
  note d = ring_repD [OF assms(1)]
  from assms(2) have tn: "tn = Suc (gTB g) mod length (blocks q)" "Suc (gTB g) < gFB g + length (blocks q)" "full_tail q g"
    "t = tail (blk q tn)" "gT g tn = gLF g tn" "slots (blk q tn) ! tail (blk q tn) = Some x" by (auto simp: next_free_def)
  have l: "tn < length (blocks q)" "tn \<noteq> frontBlock q" "tn \<noteq> tailBlock q" using d(8) tn(1,2) window_neq [OF assms(1)] by simp_all
  note r = block_at_rep [OF assms(1) l(1)]
  let ?f = "tail_update (\<lambda>_. (t + 1) AND sizeMask (blk q tn))"
  have "gT g tn < gLF g tn + sizeMask (blk q tn)" using block_repD(1) [OF r] tn(5) by simp
  from block_rep_publish [OF r this tn(6)]
  have "block_rep (hole \<and> tn = frontBlock q) (?f (blk q tn)) (gF g tn) (gT g tn + 1) (gLF g tn) (gLT g tn) (gc g tn @ [x])"
    by (simp only: tn(4))
  from ring_publish_next [OF assms(1) tn(1,2), of ?f, OF _ _ this] have R: "ring_rep hole 1 (store tn ?f q) (add_obj tn x g)"
    "content (length (blocks q)) (add_obj tn x g) = content (length (blocks q)) g" "gc g tn = []" by simp_all
  have "masks (store tn ?f q) (tailBlock q) = masks q (tailBlock q)" using l d(7) by (simp add: masks_def)
  then have "pinv x (store tn ?f q) (add_obj tn x g) (PAdvance tn)"
    using tn(1-3) l(3) R(3) by (simp add: next_free_def full_tail_def)
  moreover have "enq_keeps q g (store tn ?f q) (add_obj tn x g)" using l by (intro enq_keeps_add) auto
  ultimately show ?thesis using R l(1)
    by (intro enq_goodI [of _ "PAdvance tn" "store tn ?f q" _ "add_obj tn x g"]) (simp_all add: enq_step_def deref_def adv_of_def)
qed

lemma enq_full_ok:
  assumes "ring_rep hole 0 q g" "pinv x q g (PFull tb)"
  shows "enq_good x hole q g (enq_step x (PFull tb) q)"
proof -
  note d = ring_repD [OF assms(1)]
  from assms(2) have tb: "tb = tailBlock q" "full_tail q g" by simp_all
  have n: "next_block (blk q tb) = Suc (gTB g) mod length (blocks q)"
    using d(9) [OF d(7)] d(5) tb(1) by (simp add: block_at_def mod_simps)
  have "Suc (gTB g) mod length (blocks q) \<noteq> frontBlock q \<Longrightarrow> Suc (gTB g) < gFB g + length (blocks q)"
    using d(2-4) by (cases "Suc (gTB g) = gFB g + length (blocks q)") auto
  then have "pinv x q g (if next_block (blk q tb) \<noteq> frontBlock q then PNext (next_block (blk q tb)) else PDone False)"
    using tb n by (simp add: next_free_def)
  with assms(1) tb(1) d(7) enq_keeps_refl show ?thesis
    by (intro enq_goodI [of _ "if next_block (blk q tb) \<noteq> frontBlock q then PNext (next_block (blk q tb)) else PDone False" q _ g])
      (simp_all add: enq_step_def deref_def adv_of_def)
qed

lemma enq_next_ok:
  assumes "ring_rep hole 0 q g" "pinv x q g (PNext tn)"
  shows "enq_good x hole q g (enq_step x (PNext tn) q)"
proof -
  note d = ring_repD [OF assms(1)]
  from assms(2) have nf: "next_free q g tn" by simp
  then have tn: "tn < length (blocks q)" "tn \<noteq> tailBlock q" "gc g tn = []"
    using d(8,10) window_neq(3) [OF assms(1)] by (simp_all add: next_free_def shape_def)
  note r = block_at_rep [OF assms(1) tn(1)]
  let ?f = "localFront_update (\<lambda>_. front (blk q tn))" and ?g = "g\<lparr>gLF := (gLF g)(tn := gF g tn), gLT := (gLT g)(tn := gLT g tn)\<rparr>"
  have e: "gF g tn = gT g tn" "front (blk q tn) = tail (blk q tn)"
    using block_repD(8-12) [OF r] tn(3) block_rep_tests(4) [OF r] by auto
  have R: "ring_rep hole 0 (store tn ?f q) ?g"
    using ring_store [OF assms(1) tn(1), of ?f hole "gF g tn" "gLT g tn"] block_rep_localFront [OF r] by simp
  have "masks (store tn ?f q) (tailBlock q) = masks q (tailBlock q)" using tn d(7) by (simp add: masks_def)
  then have "pinv x (store tn ?f q) ?g (PWriteNext tn (tail (blk q tn)))"
    using nf tn e by (simp add: next_free_def full_tail_def)
  moreover have "enq_keeps q g (store tn ?f q) ?g" using tn(1) by (simp add: enq_keeps_def)
  moreover have "content (length (blocks q)) ?g = content (length (blocks q)) g" by (simp add: content_def)
  ultimately show ?thesis using R tn(1) e(2)
    by (intro enq_goodI [of _ "PWriteNext tn (tail (blk q tn))" "store tn ?f q" _ ?g]) (simp_all add: enq_step_def deref_def adv_of_def Let_def)
qed

lemma enq_advance_ok:
  assumes "ring_rep hole 1 q g" "pinv x q g (PAdvance tn)"
  shows "enq_good x hole q g (enq_step x (PAdvance tn) q)"
proof -
  note d = ring_repD [OF assms(1)]
  from assms(2) have tn: "full_tail q g" "tn = Suc (gTB g) mod length (blocks q)" "gc g tn = [x]" by (auto simp: next_free_def)
  note r = block_at_rep [OF assms(1) d(7)]
  have "gFB g < gTB g \<longrightarrow> length (gc g (tailBlock q)) = masks q (tailBlock q)"
    using tn(1) block_repD(12) [OF r] by (simp add: full_tail_def)
  from ring_advance [OF assms(1) tn(2,3) this] show ?thesis
    by (intro enq_goodI [of _ "PDone True" "q\<lparr>tailBlock := tn\<rparr>" _ "g\<lparr>gTB := Suc (gTB g)\<rparr>"]) (simp_all add: enq_step_def adv_of_def enq_keeps_def)
qed

lemma enq_step_ok:
  assumes "ring_rep hole (adv_of pc) q g" "pinv x q g pc" "\<forall>r. pc \<noteq> PDone r"
  shows "enq_good x hole q g (enq_step x pc q)"
  using assms
proof (cases pc)
  case (PDone r)
  with assms(3) show ?thesis by blast
qed (simp_all only: enq_pc.case adv_of_def enq_start_ok enq_read_front_ok enq_write_ok enq_publish_ok enq_full_ok enq_next_ok
      enq_write_next_ok enq_publish_next_ok enq_advance_ok)

text \<open>One step of \<open>try_dequeue\<close>: no error, the queue is as before or, in the last step, has lost its first object.\<close>

definition deq_good :: "nat \<Rightarrow> 'a ReaderWriterQueue \<Rightarrow> 'a ghost \<Rightarrow> ('a deq_pc \<times> 'a ReaderWriterQueue) result \<Rightarrow> bool" where
  "deq_good adv q g r \<longleftrightarrow> (\<exists>pc' q' g'. r = Inr (pc', q') \<and> ring_rep (hole_of pc') adv q' g' \<and> cinv q' g' pc' \<and> deq_keeps q g q' g'
     \<and> content (length (blocks q)) g = (case pc' of CDone (Some x) \<Rightarrow> [x] | _ \<Rightarrow> []) @ content (length (blocks q)) g')"

lemma deq_goodI:
  "r = Inr (pc', q') \<Longrightarrow> ring_rep (hole_of pc') adv q' g' \<Longrightarrow> cinv q' g' pc' \<Longrightarrow> deq_keeps q g q' g' \<Longrightarrow>
    content (length (blocks q)) g = (case pc' of CDone (Some x) \<Rightarrow> [x] | _ \<Rightarrow> []) @ content (length (blocks q)) g' \<Longrightarrow> deq_good adv q g r"
  unfolding deq_good_def by blast

lemma deq_start_ok:
  assumes "ring_rep False adv q g"
  shows "deq_good adv q g (deq_step CStart q)"
proof -
  note d = ring_repD [OF assms] and r = block_at_rep [OF assms ring_repD(6) [OF assms]]
  let ?b = "blk q (frontBlock q)"
  let ?pc = "if front ?b \<noteq> localTail ?b then CRead (frontBlock q) (front ?b) else CReadTail (frontBlock q) (front ?b)"
  have n: "front ?b \<noteq> localTail ?b \<longleftrightarrow> gF g (frontBlock q) < gLT g (frontBlock q)"
    using block_rep_tests(3) [OF r] block_repD(9) [OF r] by auto
  show ?thesis
  proof (rule deq_goodI [of _ ?pc q _ g])
    show "cinv q g ?pc" unfolding n by simp
  qed (use d(6) assms deq_keeps_refl in \<open>simp_all add: deq_step_def deref_def hole_of_def Let_def\<close>)
qed

text \<open>Reading the tail of a block the consumer owns.\<close>

lemma local_tail_ok:
  assumes "ring_rep False adv q g" "p < length (blocks q)"
  defines "q' \<equiv> store p (localTail_update (\<lambda>_. tail (blk q p))) q" and "g' \<equiv> g\<lparr>gLT := (gLT g)(p := gT g p)\<rparr>"
  shows "ring_rep False adv q' g'" "deq_keeps q g q' g'" "content (length (blocks q)) g' = content (length (blocks q)) g"
    "front (blk q p) \<noteq> tail (blk q p) \<longleftrightarrow> gF g p < gT g p" "gF g p < gT g p \<longleftrightarrow> gc g p \<noteq> []"
    "i < length (blocks q) \<Longrightarrow> front (blk q' i) = front (blk q i)" "gF g' = gF g" "gc g' = gc g" "gLT g' p = gT g p" "gFB g' = gFB g" "gTB g' = gTB g"
    "frontBlock q' = frontBlock q" "length (blocks q') = length (blocks q)"
proof -
  note r = block_at_rep [OF assms(1,2)]
  let ?f = "localTail_update (\<lambda>_. tail (blk q p))"
  have b: "block_rep (False \<and> p = frontBlock q) (?f (blk q p)) (gF g p) (gT g p) (gLF g p) (gT g p) (gc g p)"
    by (rule block_rep_localTail [OF r])
  have "g' = g\<lparr>gLF := (gLF g)(p := gLF g p), gLT := (gLT g)(p := gT g p)\<rparr>" by (simp add: g'_def)
  then show "ring_rep False adv q' g'" unfolding q'_def using ring_store [OF assms(1,2), of ?f, OF _ _ b] by simp
  show "deq_keeps q g q' g'" using assms(2) by (simp add: deq_keeps_def q'_def g'_def)
  show "front (blk q p) \<noteq> tail (blk q p) \<longleftrightarrow> gF g p < gT g p" using block_rep_tests(4) [OF r] block_repD(8-11) [OF r] by auto
  show "gF g p < gT g p \<longleftrightarrow> gc g p \<noteq> []" by (simp only: length_greater_0_conv [symmetric] block_repD(12) [OF r] zero_less_diff)
  show "i < length (blocks q) \<Longrightarrow> front (blk q' i) = front (blk q i)" by (simp add: q'_def)
qed (simp_all add: content_def q'_def g'_def)

lemma deq_read_tail_ok:
  assumes "ring_rep False adv q g" "cinv q g (CReadTail fb f)"
  shows "deq_good adv q g (deq_step (CReadTail fb f) q)"
proof -
  note d = ring_repD [OF assms(1)]
  from assms(2) have fb: "fb = frontBlock q" "f = front (blk q fb)" by simp_all
  with d(6) have l: "fb < length (blocks q)" by simp
  note t = local_tail_ok [OF assms(1) l]
  let ?q = "store fb (localTail_update (\<lambda>_. tail (blk q fb))) q" and ?g = "g\<lparr>gLT := (gLT g)(fb := gT g fb)\<rparr>"
  let ?pc = "if f \<noteq> tail (blk q fb) then CRead fb f else CTailBlock fb"
  have "cinv ?q ?g ?pc" using t(4,6,9) fb l by auto
  with t(1-3) l show ?thesis
    by (intro deq_goodI [of _ ?pc ?q _ ?g]) (simp_all add: deq_step_def deref_def hole_of_def del: cinv.simps)
qed

lemma deq_reread_ok:
  assumes "ring_rep False adv q g" "cinv q g CReread"
  shows "deq_good adv q g (deq_step CReread q)"
proof -
  note d = ring_repD [OF assms(1)] and t = local_tail_ok [OF assms(1) ring_repD(6) [OF assms(1)]]
  let ?fb = "frontBlock q"
  let ?q = "store ?fb (localTail_update (\<lambda>_. tail (blk q ?fb))) q" and ?g = "g\<lparr>gLT := (gLT g)(?fb := gT g ?fb)\<rparr>"
  let ?pc = "if front (blk q ?fb) \<noteq> tail (blk q ?fb) then CRead ?fb (front (blk q ?fb)) else CNext ?fb"
  have "cinv ?q ?g ?pc" using t(4,5,6,9) assms(2) d(6) by auto
  with t(1-3) d(6) show ?thesis
    by (intro deq_goodI [of _ ?pc ?q _ ?g]) (simp_all add: deq_step_def deref_def hole_of_def Let_def del: cinv.simps)
qed

lemma deq_tail_block_ok:
  assumes "ring_rep False adv q g" "cinv q g (CTailBlock fb)"
  shows "deq_good adv q g (deq_step (CTailBlock fb) q)"
proof -
  note d = ring_repD [OF assms(1)]
  from assms(2) have fb: "fb = frontBlock q" by simp
  have "gFB g < gTB g" if "fb \<noteq> tailBlock q" using that fb d(2,4,5) by (cases "gFB g = gTB g") auto
  then have "cinv q g (if fb \<noteq> tailBlock q then CReread else CDone None)" by simp
  with assms(1) deq_keeps_refl show ?thesis
    by (intro deq_goodI [of _ "if fb \<noteq> tailBlock q then CReread else CDone None" q _ g]) (simp_all add: deq_step_def hole_of_def)
qed

lemma deq_next_ok:
  assumes "ring_rep False adv q g" "cinv q g (CNext fb)"
  shows "deq_good adv q g (deq_step (CNext fb) q)"
proof -
  note d = ring_repD [OF assms(1)]
  from assms(2) have fb: "fb = frontBlock q" "gFB g < gTB g" "gc g (frontBlock q) = []" by simp_all
  let ?nb = "Suc (gFB g) mod length (blocks q)"
  have nb: "next_block (blk q fb) = ?nb" "?nb < length (blocks q)"
    using d(9) [OF d(6)] d(1,4) fb(1) by (simp_all add: block_at_def mod_simps)
  note t = local_tail_ok [OF assms(1) nb(2)]
  have "gc g ?nb \<noteq> []" using d(10) fb(2) by (simp add: shape_def)
  then have ne: "front (blk q ?nb) \<noteq> tail (blk q ?nb)" "gF g ?nb < gT g ?nb" using t(4,5) by simp_all
  let ?q = "store ?nb (localTail_update (\<lambda>_. tail (blk q ?nb))) q" and ?g = "g\<lparr>gLT := (gLT g)(?nb := gT g ?nb)\<rparr>"
  have "cinv ?q ?g (CMove ?nb (front (blk q ?nb)))" using t(6) [OF nb(2)] ne(2) fb by simp
  with t(1-3) d(6) nb fb(1) ne(1) show ?thesis
    by (intro deq_goodI [of _ "CMove ?nb (front (blk q ?nb))" ?q _ ?g]) (simp_all add: deq_step_def deref_def hole_of_def Let_def del: cinv.simps)
qed

lemma deq_move_ok:
  assumes "ring_rep False adv q g" "cinv q g (CMove nb f)"
  shows "deq_good adv q g (deq_step (CMove nb f) q)"
proof -
  note d = ring_repD [OF assms(1)]
  from assms(2) have m: "gFB g < gTB g" "gc g (frontBlock q) = []" "nb = Suc (gFB g) mod length (blocks q)" "f = front (blk q nb)" "gF g nb < gLT g nb"
    by auto
  from ring_move [OF assms(1) m(1-3)] m(4,5) show ?thesis
    by (intro deq_goodI [of _ "CRead nb f" "q\<lparr>frontBlock := nb\<rparr>" _ "g\<lparr>gFB := Suc (gFB g)\<rparr>"]) (simp_all add: deq_step_def hole_of_def deq_keeps_def)
qed

lemma deq_read_ok:
  assumes "ring_rep False adv q g" "cinv q g (CRead fb f)"
  shows "deq_good adv q g (deq_step (CRead fb f) q)"
proof -
  note d = ring_repD [OF assms(1)]
  from assms(2) have fb: "fb = frontBlock q" "f = front (blk q fb)" "gF g fb < gLT g fb" by auto
  with d(6) have l: "fb < length (blocks q)" by simp
  note r = block_at_rep [OF assms(1) l]
  have "gF g fb < gT g fb" using fb(3) block_repD(10) [OF r] by simp
  note k = block_rep_take [OF r [simplified] this] and ne = block_repD(12) [OF r] this
  let ?f = "slots_update (\<lambda>s. s[f := None])"
  have up: "?f (blk q fb) = (blk q fb)\<lparr>slots := (slots (blk q fb))[front (blk q fb) := None]\<rparr>" using fb(2) by simp
  have "block_rep (True \<and> fb = frontBlock q) (?f (blk q fb)) (gF g fb) (gT g fb) (gLF g fb) (gLT g fb) (gc g fb)"
    unfolding up using k(3) fb(1) by simp
  from ring_store [OF assms(1) l, of ?f True, OF _ _ this] fb(1) have R: "ring_rep True adv (store fb ?f q) g" by simp
  have s: "slots (blk q fb) ! f = Some (hd (gc g fb))" "f < length (slots (blk q fb))" "f \<noteq> tail (blk q fb)" using k(1,2,4) fb(2) by simp_all
  let ?pc = "CPublish fb ((f + 1) AND sizeMask (blk q fb)) (hd (gc g fb))"
  have "gc g fb \<noteq> []" using ne by auto
  then have "cinv (store fb ?f q) g ?pc" using fb l by simp
  moreover have "deq_keeps q g (store fb ?f q) g" using l s(3) by (auto simp: deq_keeps_def)
  moreover have "deq_step (CRead fb f) q = Inr (?pc, store fb ?f q)"
    using l s(1,2) by (simp add: deq_step_def take_out_def deref_def)
  ultimately show ?thesis using R
    by (intro deq_goodI [of _ ?pc "store fb ?f q" _ g]) (simp_all add: hole_of_def del: cinv.simps)
qed

lemma deq_publish_ok:
  assumes "ring_rep True adv q g" "cinv q g (CPublish fb f x)"
  shows "deq_good adv q g (deq_step (CPublish fb f x) q)"
proof -
  note d = ring_repD [OF assms(1)]
  from assms(2) have fb: "fb = frontBlock q" "f = (front (blk q fb) + 1) AND sizeMask (blk q fb)" "gF g fb < gLT g fb" "gc g fb \<noteq> []" "hd (gc g fb) = x"
    by auto
  with d(6) have l: "fb < length (blocks q)" by simp
  let ?f = "front_update (\<lambda>_. f)"
  have "block_rep False (?f (blk q fb)) (gF g fb + 1) (gT g fb) (gLF g fb) (gLT g fb) (tl (gc g fb))"
    using block_rep_advance [OF block_at_rep [OF assms(1) l] fb(3)] by (simp only: fb(2))
  from ring_remove [OF assms(1) fb(1,4), of ?f, OF _ _ this] have R: "ring_rep False adv (store fb ?f q) (remove_obj fb g)"
    "content (length (blocks q)) g = x # content (length (blocks q)) (remove_obj fb g)" using fb(5) by simp_all
  have "deq_keeps q g (store fb ?f q) (remove_obj fb g)" using l fb(1) by (simp add: deq_keeps_def)
  with R l show ?thesis
    by (intro deq_goodI [of _ "CDone (Some x)" "store fb ?f q" _ "remove_obj fb g"]) (simp_all add: deq_step_def deref_def hole_of_def)
qed

lemma deq_step_ok:
  assumes "ring_rep (hole_of pc) adv q g" "cinv q g pc" "\<forall>r. pc \<noteq> CDone r"
  shows "deq_good adv q g (deq_step pc q)"
  using assms
proof (cases pc)
  case (CDone r)
  with assms(3) show ?thesis by blast
qed (simp_all only: deq_pc.case hole_of_def deq_start_ok deq_read_tail_ok deq_tail_block_ok deq_reread_ok deq_next_ok deq_move_ok deq_read_ok deq_publish_ok)

section \<open>Counting\<close>

lemma block_size:
  assumes "block_rep h b F T LF LT c"
  shows "usub64 (tail b) (front b) AND sizeMask b = length c"
proof -
  note d = block_repD [OF assms]
  from assms obtain e where e: "e \<le> 63" "sizeMask b + 1 = 2 ^ e" by (auto simp: block_rep_def pow2_mask_def)
  let ?s = "sizeMask b + 1"
  have s64: "(2 :: nat) ^ 64 = ?s * 2 ^ (64 - e)" using e by (simp flip: power_add)
  have lt: "tail b < ?s" "front b < ?s" using d(4,5) by simp_all
  have "?s \<le> 2 ^ 64" unfolding e(2) using e(1) by (intro power_increasing) simp_all
  have "usub64 (tail b) (front b) mod ?s = (tail b + ?s - front b) mod ?s"
  proof (cases "front b \<le> tail b")
    case True
    then have "tail b + ?s - front b = tail b - front b + ?s" by simp
    then have "(tail b + ?s - front b) mod ?s = (tail b - front b) mod ?s" by (simp only: mod_add_self2)
    moreover have "usub64 (tail b) (front b) = tail b - front b" using True lt \<open>?s \<le> 2 ^ 64\<close> by (intro usub64_le) linarith+
    ultimately show ?thesis by simp
  next
    case False
    then have "usub64 (tail b) (front b) = 2 ^ 64 + tail b - front b" using lt \<open>?s \<le> 2 ^ 64\<close> by (intro usub64_wrap) linarith+
    also have "\<dots> = (tail b + ?s - front b) + (2 ^ 64 - ?s)"
      using \<open>?s \<le> 2 ^ 64\<close> lt by linarith
    also have "2 ^ 64 - ?s = ?s * (2 ^ (64 - e) - 1)" unfolding s64 by (simp only: diff_mult_distrib2 mult_1_right)
    finally show ?thesis by (simp only: mod_mult_self2)
  qed
  also have "\<dots> = (T - F) mod ?s"
  proof -
    have "F div ?s \<le> T div ?s" using d(8-11) by (intro div_le_mono) simp
    then obtain k where k: "T div ?s = F div ?s + k" by (metis le_add_diff_inverse)
    have "T = ?s * (F div ?s) + ?s * k + tail b" "F = ?s * (F div ?s) + front b"
      using mult_div_mod_eq [of ?s T] mult_div_mod_eq [of ?s F] d(4,5) k by (simp_all only: distrib_left)
    then have "T - F + ?s = (tail b + ?s - front b) + ?s * k" using d(8-11) lt by linarith
    then show ?thesis by (metis mod_add_self2 mod_mult_self2)
  qed
  also have "\<dots> = length c" using d(8-12) by simp
  finally show ?thesis using d(2) by simp
qed

section \<open>The constructor\<close>

text \<open>Or-ing with shifted copies spreads every bit downwards, over windows that double.\<close>

definition smeared :: "nat \<Rightarrow> u64 \<Rightarrow> u64 \<Rightarrow> bool" where
  "smeared w y z \<longleftrightarrow> (\<forall>n. bit z n \<longleftrightarrow> (\<exists>m. n \<le> m \<and> m < n + w \<and> bit y m))"

lemma smeared_step:
  assumes "smeared w y z"
  shows "smeared (2 * w) y (z OR drop_bit w z)"
  unfolding smeared_def
proof
  fix n
  have "bit (z OR drop_bit w z) n \<longleftrightarrow> bit z n \<or> bit z (n + w)" by (auto simp: bit_simps add.commute)
  also have "\<dots> \<longleftrightarrow> (\<exists>m. n \<le> m \<and> m < n + 2 * w \<and> bit y m)"
  proof
    assume "\<exists>m. n \<le> m \<and> m < n + 2 * w \<and> bit y m"
    then obtain m where m: "n \<le> m" "m < n + 2 * w" "bit y m" by blast
    show "bit z n \<or> bit z (n + w)"
    proof (cases "m < n + w")
      case True
      with m assms show ?thesis by (auto simp: smeared_def)
    next
      case False
      with m have "n + w \<le> m \<and> m < n + w + w \<and> bit y m" by simp
      with assms show ?thesis unfolding smeared_def by blast
    qed
  next
    assume "bit z n \<or> bit z (n + w)"
    then show "\<exists>m. n \<le> m \<and> m < n + 2 * w \<and> bit y m"
    proof
      assume "bit z n"
      then obtain m where "n \<le> m" "m < n + w" "bit y m" using assms unfolding smeared_def by blast
      then show ?thesis by (intro exI [of _ m]) simp
    next
      assume "bit z (n + w)"
      then obtain m where "n + w \<le> m" "m < n + w + w" "bit y m" using assms unfolding smeared_def by blast
      then show ?thesis by (intro exI [of _ m]) simp
    qed
  qed
  finally show "bit (z OR drop_bit w z) n \<longleftrightarrow> (\<exists>m. n \<le> m \<and> m < n + 2 * w \<and> bit y m)" .
qed

lemma smeared_start: "smeared 1 y y"
  unfolding smeared_def by (metis add.commute le_less_Suc_eq less_Suc_eq_le order_refl plus_1_eq_Suc)

lemma nat_top_bit: "0 < n \<Longrightarrow> \<exists>h. 2 ^ h \<le> n \<and> n < 2 ^ Suc h" for n :: nat
proof (induction n rule: less_induct)
  case (less n)
  show ?case
  proof (cases "n = 1")
    case False
    with less.prems have "n div 2 < n" "0 < n div 2" by simp_all
    with less.IH obtain h where "2 ^ h \<le> n div 2" "n div 2 < 2 ^ Suc h" by blast
    then have "2 ^ Suc h \<le> n" "n < 2 ^ Suc (Suc h)" by simp_all
    then show ?thesis by blast
  qed (auto intro: exI [of _ 0])
qed

text \<open>The bit trick returns the least power of two that is not below its argument.\<close>

lemma ceilToPow2_least:
  assumes "1 \<le> unat x" "unat x \<le> 2 ^ 63"
  shows "\<exists>e \<le> 63. unat (ceilToPow2 x) = 2 ^ e \<and> unat x \<le> 2 ^ e \<and> (\<forall>d. unat x \<le> 2 ^ d \<longrightarrow> e \<le> d)"
proof -
  define y where "y = x - 1"
  have y: "unat y = unat x - 1" using assms(1) unfolding y_def by (intro unat_minus_one) auto
  define z where "z = (let x = y; x = x OR drop_bit 1 x; x = x OR drop_bit 2 x; x = x OR drop_bit 4 x in
    fold (\<lambda>i x. x OR drop_bit (i * 8) x) [1, 2, 4] x)"
  have c: "ceilToPow2 x = z + 1" by (simp add: ceilToPow2_def y_def z_def Let_def)
  have "smeared 64 y z"
    using smeared_step [OF smeared_step [OF smeared_step [OF smeared_step [OF smeared_step [OF smeared_step [OF smeared_start [of y]]]]]]]
    by (simp add: z_def Let_def)
  then have z: "bit z n \<longleftrightarrow> (\<exists>m \<ge> n. bit y m)" for n
  proof -
    have "m < n + 64" if "bit y m" for m using bit_imp_le_length [OF that] by simp
    with \<open>smeared 64 y z\<close> show ?thesis unfolding smeared_def by blast
  qed
  show ?thesis
  proof (cases "y = 0")
    case True
    then have "z = 0" using z by (auto intro!: bit_eqI)
    moreover have "unat x = 1" using True y assms(1) by simp
    ultimately show ?thesis using c by (intro exI [of _ 0]) simp
  next
    case False
    then have "0 < unat y" by (simp add: unat_gt_0)
    from nat_top_bit [OF this] obtain h where h: "2 ^ h \<le> unat y" "unat y < 2 ^ Suc h" by blast
    have "(2 :: nat) ^ h < 2 ^ 63" using h(1) y assms by linarith
    then have "h < 63" by (rule power_less_imp_less_exp [rotated]) simp
    have "unat y div 2 ^ h = 1" using h by (intro div_nat_eqI) simp_all
    then have "bit (unat y) h" unfolding bit_iff_odd by simp
    then have top: "bit y h" by (simp add: bit_unsigned_iff)
    have above: "\<not> bit y m" if "h < m" for m
    proof -
      have "(2 :: nat) ^ Suc h \<le> 2 ^ m" using that by (intro power_increasing) simp_all
      then have "unat y div 2 ^ m = 0" using h(2) by (intro div_less) linarith
      then have "\<not> bit (unat y) m" unfolding bit_iff_odd by simp
      then show ?thesis by (simp add: bit_unsigned_iff)
    qed
    have "z = mask (Suc h)"
    proof (rule bit_word_eqI)
      fix n assume "n < LENGTH(64)"
      moreover have "(\<exists>m \<ge> n. bit y m) \<longleftrightarrow> n \<le> h" using top above by (meson le_trans not_less)
      ultimately show "bit z n \<longleftrightarrow> bit (mask (Suc h) :: u64) n" using z [of n] by (simp add: bit_mask_iff less_Suc_eq_le)
    qed
    then have "ceilToPow2 x = 2 ^ Suc h" using c by (simp add: mask_eq_exp_minus_1)
    moreover have "(2 :: nat) ^ Suc h < 2 ^ 64" using \<open>h < 63\<close> by (intro power_strict_increasing) simp_all
    then have "unat (of_nat (2 ^ Suc h) :: u64) = 2 ^ Suc h" unfolding unat_of_nat by simp
    ultimately have u: "unat (ceilToPow2 x) = 2 ^ Suc h" by simp
    have "Suc h \<le> d" if "unat x \<le> 2 ^ d" for d
    proof -
      have "(2 :: nat) ^ h < 2 ^ d" using that h(1) y assms(1) by linarith
      then show ?thesis using power_less_imp_less_exp [of "2 :: nat" h d] by simp
    qed
    then show ?thesis using u h(2) y assms(1) \<open>h < 63\<close> by (intro exI [of _ "Suc h"]) auto
  qed
qed

lemma add_block_length: "length (add_block n bs) = Suc (length bs)"
  by (simp add: add_block_def)

lemma add_blocks:
  "length ((add_block n ^^ k) ([] :: 'a Block list)) = k"
  "i < k \<Longrightarrow> (add_block n ^^ k) ([] :: 'a Block list) ! i = (make_block n)\<lparr>next_block := Suc i mod k\<rparr>"
proof (induction k arbitrary: i)
  case (Suc k)
  case 1
  show ?case using Suc.IH(1) by (simp add: add_block_length)
next
  case (Suc k)
  case 2
  let ?bs = "(add_block n ^^ k) [] :: 'a Block list"
  have len: "length ?bs = k" using Suc.IH(1) .
  show ?case
  proof (cases "k = 0")
    case False
    then have l: "?bs \<noteq> []" using len by auto
    have last: "last ?bs = ?bs ! (k - 1)" using last_conv_nth [OF l] len by simp
    have b: "(add_block n ^^ Suc k) [] = ?bs[k - 1 := (last ?bs)\<lparr>next_block := k\<rparr>] @ [(make_block n)\<lparr>next_block := 0\<rparr>]"
      using l len by (simp add: add_block_def)
    consider "i = k" | "i = k - 1" "i < k" | "i < k - 1" using 2 by linarith
    then show ?thesis
    proof cases
      case 1
      then show ?thesis unfolding b using len by (simp add: nth_append)
    next
      case 2
      then show ?thesis unfolding b using len last Suc.IH(2) [of "k - 1"] False by (simp add: nth_append)
    next
      case 3
      then show ?thesis unfolding b using len Suc.IH(2) [of i] by (simp add: nth_append)
    qed
  qed (use 2 in \<open>simp add: add_block_def\<close>)
qed simp_all

definition no_ghost :: "'a ghost" where
  "no_ghost = \<lparr>gFB = 0, gTB = 0, gF = (\<lambda>_. 0), gT = (\<lambda>_. 0), gLF = (\<lambda>_. 0), gLT = (\<lambda>_. 0), gc = (\<lambda>_. [])\<rparr>"

lemma fresh_ring:
  assumes "pow2_mask (n - 1)" "0 < n" "0 < length bs" "\<forall>i < length bs. bs ! i = (make_block n)\<lparr>next_block := Suc i mod length bs\<rparr>"
  shows "ring_rep False 0 \<lparr>blocks = bs, frontBlock = 0, tailBlock = 0, largestBlockSize = m\<rparr> no_ghost"
  using assms by (auto simp: ring_rep_def block_at_def block_rep_def holds_def shape_def no_ghost_def make_block_def)

text \<open>A new queue for \<open>n\<close> objects: one block with a spare slot, or so many blocks that all but one have room for \<open>n\<close>.\<close>

lemma ReaderWriterQueue_new_ok:
  assumes "1 \<le> n" "n < 2 ^ 32"
  defines "q \<equiv> ReaderWriterQueue_new n"
  shows "ring_rep False 0 q no_ghost" "content (length (blocks q)) no_ghost = []"
    "1024 \<le> n \<Longrightarrow> n \<le> (length (blocks q) - 1) * 511 \<and> (\<forall>i < length (blocks q). sizeMask (blk q i) = 511) \<and> 2 \<le> length (blocks q)"
proof -
  let ?l = "unat (ceilToPow2 (of_nat (n + 1)))"
  have u: "unat (of_nat (n + 1) :: u64) = n + 1" unfolding unat_of_nat using assms(2) by simp
  obtain e where e: "e \<le> 63" "?l = 2 ^ e" "n + 1 \<le> 2 ^ e"
    using ceilToPow2_least [of "of_nat (n + 1)"] assms(1,2) unfolding u by auto
  have "(1 :: nat) < 2 ^ e" using e(3) assms(1) by linarith
  then have "0 < e" by (cases e) simp_all
  with e have m: "pow2_mask (?l - 1)" "0 < ?l" by (auto simp: pow2_mask_def)
  have m512: "pow2_mask (512 - 1)" unfolding pow2_mask_def by (intro exI [of _ 9]) simp
  let ?k = "(n + 1021) div 511"
  have k: "0 < ?k" by (simp add: div_greater_zero_iff)
  have big: "q = \<lparr>blocks = (add_block 512 ^^ ?k) [], frontBlock = 0, tailBlock = 0, largestBlockSize = 512\<rparr>" if "?l > 1024"
    using that by (simp add: q_def ReaderWriterQueue_new_def MAX_BLOCK_SIZE_def Let_def add.commute)
  have small: "q = \<lparr>blocks = [(make_block ?l)\<lparr>next_block := 0\<rparr>], frontBlock = 0, tailBlock = 0, largestBlockSize = ?l\<rparr>" if "\<not> ?l > 1024"
    using that by (simp add: q_def ReaderWriterQueue_new_def MAX_BLOCK_SIZE_def Let_def)
  show "ring_rep False 0 q no_ghost"
  proof (cases "?l > 1024")
    case True
    show ?thesis unfolding big [OF True] using m512 k by (intro fresh_ring [of 512]) (simp_all add: add_blocks)
  next
    case False
    show ?thesis unfolding small [OF False] using m by (intro fresh_ring [of ?l]) simp_all
  qed
  show "content (length (blocks q)) no_ghost = []" by (simp add: content_def no_ghost_def)
  show "n \<le> (length (blocks q) - 1) * 511 \<and> (\<forall>i < length (blocks q). sizeMask (blk q i) = 511) \<and> 2 \<le> length (blocks q)" if "1024 \<le> n"
  proof -
    have "?l > 1024" using that e by linarith
    then have "length (blocks q) = ?k" "\<forall>i < ?k. sizeMask (blk q i) = 511" by (simp_all add: big add_blocks make_block_def)
    moreover have "n + 1021 < 511 * ?k + 511" using dividend_less_div_times [of 511 "n + 1021"] by simp
    moreover have "2 \<le> ?k" using that by (simp add: less_eq_div_iff_mult_less_eq)
    ultimately show ?thesis by (simp add: diff_mult_distrib)
  qed
qed

section \<open>The protocol\<close>

definition rw_reachable :: "nat \<Rightarrow> 'a list \<Rightarrow> 'a rw_sys \<Rightarrow> bool" where
  "rw_reachable n xs s \<longleftrightarrow> rw_step\<^sup>*\<^sup>* (rw_init n xs) s"

definition hole_at :: "'a loop_pc \<Rightarrow> bool" where
  "hole_at l = (case l of LPop pc \<Rightarrow> hole_of pc | _ \<Rightarrow> False)"

text \<open>What has left the queue and is not yet received; what is still to enter it.\<close>

definition in_hand :: "'a loop_pc \<Rightarrow> 'a list" where
  "in_hand l = (case l of LPop (CDone (Some x)) \<Rightarrow> [x] | _ \<Rightarrow> [])"

definition outside :: "'a rw_sys \<Rightarrow> 'a list" where
  "outside s = (if ppc s = PDone True then tl (rw_to_push s) else rw_to_push s)"

definition counted :: "nat \<Rightarrow> 'a ghost \<Rightarrow> nat \<Rightarrow> nat" where
  "counted B g j = (\<Sum>k \<leftarrow> [gFB g..<gFB g + j]. length (gc g (k mod B)))"

definition size_inv :: "'a ReaderWriterQueue \<Rightarrow> 'a ghost \<Rightarrow> nat \<Rightarrow> nat \<Rightarrow> bool" where
  "size_inv q g p acc \<longleftrightarrow> (\<exists>j < length (blocks q). p = (gFB g + j) mod length (blocks q) \<and> acc = counted (length (blocks q)) g j)"

fun linv :: "bool \<Rightarrow> 'a ReaderWriterQueue \<Rightarrow> 'a ghost \<Rightarrow> 'a loop_pc \<Rightarrow> bool" where
  "linv over q g (LPop pc) \<longleftrightarrow> cinv q g pc"
| "linv over q g (LSize fb p acc) \<longleftrightarrow> over \<and> fb = frontBlock q \<and> size_inv q g p acc"
| "linv over q g (LEmpty n) \<longleftrightarrow> over \<and> n = length (content (length (blocks q)) g)"
| "linv over q g LExited \<longleftrightarrow> over \<and> content (length (blocks q)) g = []"
| "linv over q g LDone \<longleftrightarrow> True"

definition rw_ok :: "'a list \<Rightarrow> 'a rw_sys \<Rightarrow> 'a ghost \<Rightarrow> bool" where
  "rw_ok xs s g \<longleftrightarrow> ring_rep (hole_at (cpc s)) (adv_of (ppc s)) (rwq s) g \<and> pinv (hd (rw_to_push s)) (rwq s) g (ppc s)
     \<and> linv (rw_over s) (rwq s) g (cpc s)
     \<and> rw_received s @ in_hand (cpc s) @ content (length (blocks (rwq s))) g @ outside s = xs
     \<and> (rw_over s \<longrightarrow> rw_to_push s = []) \<and> (rw_to_push s = [] \<longrightarrow> ppc s = PStart) \<and> (rw_flag s \<longleftrightarrow> rw_over s \<and> cpc s \<noteq> LExited)"

text \<open>Once round the ring every object is counted.\<close>

lemma counted_all:
  assumes "ring_rep hole 0 q g"
  shows "counted (length (blocks q)) g (length (blocks q)) = length (content (length (blocks q)) g)"
proof -
  note d = ring_repD [OF assms]
  let ?B = "length (blocks q)"
  have "[gFB g..<gFB g + ?B] = [gFB g..<Suc (gTB g)] @ [Suc (gTB g)..<gFB g + ?B]"
  proof -
    obtain r where "gFB g + ?B = Suc (gTB g) + r" using d(3) by (metis Suc_leI add_0_right le_Suc_ex)
    then show ?thesis using upt_add_eq_append [of "gFB g" "Suc (gTB g)" r] d(2) by (simp only: le_SucI)
  qed
  moreover have "(\<Sum>k \<leftarrow> [Suc (gTB g)..<gFB g + ?B]. length (gc g (k mod ?B))) = 0"
    using d(10) by (auto simp: sum_list_eq_0_iff shape_def)
  ultimately show ?thesis by (simp add: counted_def content_def length_concat comp_def del: upt_Suc)
qed

lemma size_step_ok:
  assumes "ring_rep False 0 q g" "size_inv q g p acc"
  shows "\<exists>p' acc'. size_step p acc q = Inr (p', acc')
    \<and> (if p' \<noteq> frontBlock q then size_inv q g p' acc' else acc' = length (content (length (blocks q)) g))"
proof -
  note d = ring_repD [OF assms(1)]
  let ?B = "length (blocks q)"
  from assms(2) obtain j where j: "j < ?B" "p = (gFB g + j) mod ?B" "acc = counted ?B g j" by (auto simp: size_inv_def)
  then have p: "p < ?B" using d(1) by simp
  let ?p = "(gFB g + Suc j) mod ?B"
  have s: "size_step p acc q = Inr (?p, counted ?B g (Suc j))"
    using block_size [OF block_at_rep [OF assms(1) p]] d(9) [OF p] p j(2,3)
    by (simp add: size_step_def deref_def counted_def block_at_def mod_simps)
  have "size_inv q g ?p (counted ?B g (Suc j))" if "?p \<noteq> frontBlock q"
  proof -
    have "(gFB g + ?B) mod ?B = frontBlock q" using d(4) by simp
    then have "Suc j \<noteq> ?B" using that by (metis (full_types))
    then show ?thesis using j(1) unfolding size_inv_def by (intro exI [of _ "Suc j"]) simp
  qed
  moreover have "Suc j = ?B" if "?p = frontBlock q"
    using mod_turn [of "gFB g" "gFB g + Suc j" ?B] j(1) d(4) that by simp
  ultimately show ?thesis using s counted_all [OF assms(1)] by (cases "?p = frontBlock q") auto
qed

lemma linv_stable:
  assumes "linv over q g l" "ring_rep hole adv q g" "enq_keeps q g q' g'" "\<not> over"
  shows "linv over q' g' l"
  using assms cinv_stable by (cases l) auto

lemma rw_enq:
  assumes "rw_ok zs s g" "rw_to_push s = x # xs" "\<forall>r. ppc s \<noteq> PDone r"
  shows "\<exists>pc q g'. enq_step x (ppc s) (rwq s) = Inr (pc, q) \<and> rw_ok zs (s\<lparr>ppc := pc, rwq := q\<rparr>) g'"
proof -
  have ok: "ring_rep (hole_at (cpc s)) (adv_of (ppc s)) (rwq s) g" "pinv x (rwq s) g (ppc s)" "linv (rw_over s) (rwq s) g (cpc s)"
    "rw_received s @ in_hand (cpc s) @ content (length (blocks (rwq s))) g @ x # xs = zs" "\<not> rw_over s"
    using assms by (auto simp: rw_ok_def outside_def)
  from enq_step_ok [OF ok(1,2) assms(3)] obtain pc q g' where
    st: "enq_step x (ppc s) (rwq s) = Inr (pc, q)" "ring_rep (hole_at (cpc s)) (adv_of pc) q g'" "pinv x q g' pc" "enq_keeps (rwq s) g q g'"
    "content (length (blocks (rwq s))) g' = content (length (blocks (rwq s))) g @ (if pc = PDone True then [x] else [])"
    unfolding enq_good_def by blast
  have "linv (rw_over s) q g' (cpc s)" using linv_stable [OF ok(3,1) st(4) ok(5)] .
  moreover have "length (blocks q) = length (blocks (rwq s))" using st(4) by (simp add: enq_keeps_def)
  ultimately have "rw_ok zs (s\<lparr>ppc := pc, rwq := q\<rparr>) g'"
    using assms(1,2) ok(4,5) st(2,3,5) by (auto simp: rw_ok_def outside_def)
  with st(1) show ?thesis by blast
qed

lemma rw_deq_content:
  assumes "rw_ok zs s g" "cpc s = LPop pc" "\<forall>r. pc \<noteq> CDone r"
  shows "\<exists>pc' q g'. deq_step pc (rwq s) = Inr (pc', q) \<and> rw_ok zs (s\<lparr>cpc := LPop pc', rwq := q\<rparr>) g' \<and> length (blocks q) = length (blocks (rwq s))
    \<and> content (length (blocks (rwq s))) g = (case pc' of CDone (Some x) \<Rightarrow> [x] | _ \<Rightarrow> []) @ content (length (blocks (rwq s))) g'"
proof -
  have h: "in_hand (cpc s) = []" using assms(2,3) by (cases pc) (auto simp: in_hand_def)
  have ok: "ring_rep (hole_of pc) (adv_of (ppc s)) (rwq s) g" "pinv (hd (rw_to_push s)) (rwq s) g (ppc s)" "cinv (rwq s) g pc"
    "rw_received s @ content (length (blocks (rwq s))) g @ outside s = zs"
    using assms(1,2) h by (auto simp: rw_ok_def hole_at_def)
  from deq_step_ok [OF ok(1,3) assms(3)] obtain pc' q g' where
    st: "deq_step pc (rwq s) = Inr (pc', q)" "ring_rep (hole_of pc') (adv_of (ppc s)) q g'" "cinv q g' pc'" "deq_keeps (rwq s) g q g'"
    "content (length (blocks (rwq s))) g = (case pc' of CDone (Some x) \<Rightarrow> [x] | _ \<Rightarrow> []) @ content (length (blocks (rwq s))) g'"
    unfolding deq_good_def by blast
  have "pinv (hd (rw_to_push s)) q g' (ppc s)" using pinv_stable [OF ok(2,1) st(4)] .
  moreover have l: "length (blocks q) = length (blocks (rwq s))" using st(4) by (simp add: deq_keeps_def)
  moreover have "in_hand (LPop pc') = (case pc' of CDone (Some x) \<Rightarrow> [x] | _ \<Rightarrow> [])" by (simp add: in_hand_def)
  moreover have "outside (s\<lparr>cpc := LPop pc', rwq := q\<rparr>) = outside s" by (simp add: outside_def)
  ultimately have "rw_ok zs (s\<lparr>cpc := LPop pc', rwq := q\<rparr>) g'"
    using assms(1,2) ok(4) st(2,3,5) by (simp add: rw_ok_def hole_at_def)
  with st(1,5) l show ?thesis by blast
qed

lemma rw_deq:
  assumes "rw_ok zs s g" "cpc s = LPop pc" "\<forall>r. pc \<noteq> CDone r"
  shows "\<exists>pc' q g'. deq_step pc (rwq s) = Inr (pc', q) \<and> rw_ok zs (s\<lparr>cpc := LPop pc', rwq := q\<rparr>) g'"
  using rw_deq_content [OF assms] by blast

lemma rw_size:
  assumes "rw_ok zs s g" "cpc s = LSize fb p acc"
  shows "\<exists>p' acc'. size_step p acc (rwq s) = Inr (p', acc') \<and> rw_ok zs (s\<lparr>cpc := (if p' \<noteq> fb then LSize fb p' acc' else LEmpty acc')\<rparr>) g"
proof -
  have ok: "ring_rep False 0 (rwq s) g" "size_inv (rwq s) g p acc" "fb = frontBlock (rwq s)" "rw_over s"
    using assms by (auto simp: rw_ok_def hole_at_def adv_of_def)
  from size_step_ok [OF ok(1,2)] obtain p' acc' where
    "size_step p acc (rwq s) = Inr (p', acc')"
    "if p' \<noteq> frontBlock (rwq s) then size_inv (rwq s) g p' acc' else acc' = length (content (length (blocks (rwq s))) g)" by blast
  then show ?thesis
    using assms ok by (intro exI [of _ p'] exI [of _ acc']) (auto simp: rw_ok_def hole_at_def in_hand_def outside_def split: if_splits)
qed

lemma rw_ok_step:
  assumes "rw_step s t" "rw_ok zs s g"
  shows "\<exists>g'. rw_ok zs t g'"
  using assms(1)
proof (cases rule: rw_step.cases)
  case (enq x xs pc q)
  with rw_enq [OF assms(2), of x xs] show ?thesis by auto
next
  case (deq pc pc' q)
  with rw_deq [OF assms(2), of pc] show ?thesis by auto
next
  case (size_step fb p acc p' acc')
  with rw_size [OF assms(2), of fb p acc] show ?thesis by auto
next
  case finish
  with assms(2) have "linv False (rwq s) g (cpc s)" by (simp add: rw_ok_def)
  then have "linv True (rwq s) g (cpc s)" "cpc s \<noteq> LExited" by (cases "cpc s"; simp)+
  with finish assms(2) show ?thesis by (intro exI [of _ g]) (auto simp: rw_ok_def outside_def)
next
  case seen_done
  then have "ring_rep False (adv_of (ppc s)) (rwq s) g" using assms(2) by (auto simp: rw_ok_def hole_at_def)
  note d = ring_repD [OF this]
  have "size_inv (rwq s) g (frontBlock (rwq s)) 0" using d(1,4) unfolding size_inv_def by (intro exI [of _ 0]) (simp add: counted_def)
  with seen_done assms(2) show ?thesis
    by (intro exI [of _ g]) (auto simp: rw_ok_def hole_at_def in_hand_def outside_def)
qed (use assms(2) in \<open>(intro exI [of _ g], auto simp: rw_ok_def hole_at_def hole_of_def in_hand_def outside_def adv_of_def)+\<close>)

lemma rw_ok_init:
  assumes "1 \<le> n" "n < 2 ^ 32"
  shows "rw_ok xs (rw_init n xs) no_ghost"
  using ReaderWriterQueue_new_ok [OF assms]
  by (simp add: rw_ok_def rw_init_def hole_at_def in_hand_def outside_def adv_of_def)

lemma rw_reachable_ok:
  assumes "rw_reachable n xs s" "1 \<le> n" "n < 2 ^ 32"
  shows "\<exists>g. rw_ok xs s g"
  using assms(1) unfolding rw_reachable_def
proof (induction rule: rtranclp_induct)
  case base
  show ?case using rw_ok_init [OF assms(2,3)] by blast
next
  case (step s t)
  with rw_ok_step show ?case by blast
qed

text \<open>
  C11: Whatever the interleaving of the single memory accesses of the two threads, the queue never reads a slot without an
  object, leaves its buffers or fails an assertion; what the consumer has received is a prefix of what the
  producer pushes; and when the consumer has left its loop, having seen \<open>done_\<close> and then a size of 0, it has
  received everything, in order.
\<close>
theorem RWQueue_fifo:
  assumes "rw_reachable n xs s" "1 \<le> n" "n < 2 ^ 32"
  shows "(\<forall>x ys. rw_to_push s = x # ys \<longrightarrow> isOk (enq_step x (ppc s) (rwq s)))
    \<and> (\<forall>pc. cpc s = LPop pc \<longrightarrow> isOk (deq_step pc (rwq s)))
    \<and> (\<exists>rest. xs = rw_received s @ rest)
    \<and> (cpc s = LExited \<longrightarrow> rw_received s = xs)"
proof -
  from rw_reachable_ok [OF assms] obtain g where g: "rw_ok xs s g" by blast
  have "isOk (enq_step x (ppc s) (rwq s))" if "rw_to_push s = x # ys" for x ys
  proof (cases "\<exists>r. ppc s = PDone r")
    case True
    then show ?thesis by (auto simp: enq_step_def)
  next
    case False
    with rw_enq [OF g that] show ?thesis by auto
  qed
  moreover have "isOk (deq_step pc (rwq s))" if "cpc s = LPop pc" for pc
  proof (cases "\<exists>r. pc = CDone r")
    case True
    then show ?thesis by (auto simp: deq_step_def)
  next
    case False
    with rw_deq [OF g that] show ?thesis by auto
  qed
  ultimately show ?thesis using g by (auto simp: rw_ok_def in_hand_def outside_def)
qed

theorem RWQueue_fifo_witness:
  "\<exists>s. rw_reachable 8192 [1, 2 :: nat] s \<and> ppc s = PPublish 0 1 \<and> isOk (enq_step 1 (ppc s) (rwq s)) \<and> (\<exists>rest. [1, 2] = rw_received s @ rest)"
proof -
  let ?q = "ReaderWriterQueue_new 8192 :: nat ReaderWriterQueue"
  have n: "length (blocks ?q) = 18" "blk ?q 0 = (make_block 512)\<lparr>next_block := 1\<rparr>" "frontBlock ?q = 0" "tailBlock ?q = 0"
  proof -
    have "unat (ceilToPow2 8193) = 16384" by (simp add: ceilToPow2_def)
    then show "length (blocks ?q) = 18" "blk ?q 0 = (make_block 512)\<lparr>next_block := 1\<rparr>" "frontBlock ?q = 0" "tailBlock ?q = 0"
      by (simp_all add: ReaderWriterQueue_new_def MAX_BLOCK_SIZE_def add_blocks)
  qed
  let ?q2 = "store 0 (slots_update (\<lambda>s. s[0 := Some 1])) ?q"
  let ?s0 = "rw_init 8192 [1, 2 :: nat]"
  let ?s1 = "?s0\<lparr>ppc := PWrite 0 0 1, rwq := ?q\<rparr>"
  let ?s2 = "?s1\<lparr>ppc := PPublish 0 1, rwq := ?q2\<rparr>"
  have "rw_step ?s0 ?s1"
    by (rule rw_step.enq [of _ 1 "[2]"]) (simp_all add: rw_init_def enq_step_def deref_def n make_block_def Let_def)
  moreover have "rw_step ?s1 ?s2"
    by (rule rw_step.enq [of _ 1 "[2]"]) (simp_all add: rw_init_def enq_step_def construct_def deref_def n make_block_def)
  ultimately have r: "rw_reachable 8192 [1, 2] ?s2" unfolding rw_reachable_def by (meson rtranclp.rtrancl_refl rtranclp.rtrancl_into_rtrancl)
  show ?thesis
    by (intro exI [of _ ?s2] conjI r) (use RWQueue_fifo [OF r] in \<open>simp_all add: rw_init_def\<close>)
qed

section \<open>Capacity\<close>

definition same_blocks :: "'a ReaderWriterQueue \<Rightarrow> 'a ReaderWriterQueue \<Rightarrow> bool" where
  "same_blocks q q' \<longleftrightarrow> length (blocks q') = length (blocks q) \<and> masks q' = masks q"

lemma same_blocks_intros [intro!]:
  "same_blocks q q" "same_blocks q (q\<lparr>tailBlock := k\<rparr>)" "same_blocks q (q\<lparr>frontBlock := k\<rparr>)"
  by (simp_all add: same_blocks_def masks_def fun_eq_iff)

lemma same_blocks_store [intro!]: "(\<And>b. sizeMask (f b) = sizeMask b) \<Longrightarrow> same_blocks q (store p f q)"
  unfolding same_blocks_def masks_def store_def
  by (cases "p < length (blocks q)") (auto simp: nth_list_update fun_eq_iff list_update_beyond)

lemma same_blocks_enq: "enq_step x pc q = Inr (pc', q') \<Longrightarrow> same_blocks q q'"
  by (cases pc) (auto simp: enq_step_def deref_def construct_def Let_def rbind_eq_Inr_iff split: if_splits)

lemma same_blocks_deq: "deq_step pc q = Inr (pc', q') \<Longrightarrow> same_blocks q q'"
  by (cases pc) (auto simp: deq_step_def deref_def take_out_def Let_def rbind_eq_Inr_iff split: if_splits option.splits)

lemmas same_blocks_steps = same_blocks_enq same_blocks_deq

lemma rw_same_blocks: "rw_step s t \<Longrightarrow> same_blocks (rwq s) (rwq t)"
  by (cases rule: rw_step.cases) (auto dest: same_blocks_steps simp: same_blocks_def)

lemma rw_reachable_blocks: "rw_reachable n xs s \<Longrightarrow> same_blocks (ReaderWriterQueue_new n) (rwq s)"
  unfolding rw_reachable_def
  by (induction rule: rtranclp_induct) (auto simp: rw_init_def same_blocks_def dest: rw_same_blocks)

text \<open>A queue whose producer finds no block to go on to holds as much as all but one block can hold.\<close>

lemma full_content:
  assumes "ring_rep hole 0 q g" "full_tail q g" "Suc (gTB g) mod length (blocks q) = frontBlock q" "2 \<le> length (blocks q)"
    and "\<forall>i < length (blocks q). sizeMask (blk q i) = m"
  shows "(length (blocks q) - 1) * m \<le> length (content (length (blocks q)) g)"
proof -
  note d = ring_repD [OF assms(1)]
  let ?B = "length (blocks q)"
  have tb: "Suc (gTB g) = gFB g + ?B" using mod_turn [of "gFB g" "Suc (gTB g)" ?B] d(2-4) assms(3) by simp
  then have lt: "gFB g < gTB g" using assms(4) by simp
  have "length (gc g (tailBlock q)) = m"
    using assms(2,5) lt d(7) block_repD(12) [OF block_at_rep [OF assms(1) d(7)]] by (simp add: full_tail_def masks_def)
  then have "length (gc g (k mod ?B)) = m" if "gFB g < k" "k \<le> gTB g" for k
    using that d(1,5,10) assms(5) by (cases "k = gTB g") (simp_all add: shape_def masks_def)
  then have "map (\<lambda>k. length (gc g (k mod ?B))) [Suc (gFB g)..<Suc (gTB g)] = map (\<lambda>k. m) [Suc (gFB g)..<Suc (gTB g)]"
    by (intro map_cong) auto
  then have "length (concat (map (\<lambda>k. gc g (k mod ?B)) [Suc (gFB g)..<Suc (gTB g)])) = (gTB g - gFB g) * m"
    by (simp only: length_concat map_map comp_def sum_list_triv length_upt) simp
  moreover have "gTB g - gFB g = ?B - 1" using tb lt by simp
  ultimately show ?thesis unfolding front_content [OF assms(1)] by simp
qed

lemma enq_fails_full:
  assumes "rw_reachable n xs s" "1024 \<le> n" "n < 2 ^ 32"
    and "rw_to_push s = x # ys" "\<forall>r. ppc s \<noteq> PDone r" "enq_step x (ppc s) (rwq s) = Inr (PDone False, q)"
  shows "length (rw_received s) + n + length (rw_to_push s) \<le> length xs"
proof -
  from assms(2) have n1: "1 \<le> n" by simp
  from rw_reachable_ok [OF assms(1) n1 assms(3)] obtain g where g: "rw_ok xs s g" by blast
  let ?q = "rwq s"
  have B: "n \<le> (length (blocks ?q) - 1) * 511" "\<forall>i < length (blocks ?q). sizeMask (blk ?q i) = 511" "2 \<le> length (blocks ?q)"
    using ReaderWriterQueue_new_ok(3) [OF n1 assms(3,2), where 'a = 'a] rw_reachable_blocks [OF assms(1)] by (auto simp: same_blocks_def masks_def fun_eq_iff)
  from assms(5,6) obtain tb where tb: "ppc s = PFull tb"
    by (cases "ppc s") (auto simp: enq_step_def deref_def Let_def rbind_eq_Inr_iff split: if_splits)
  have ok: "ring_rep (hole_at (cpc s)) 0 ?q g" "tb = tailBlock ?q" "full_tail ?q g"
    "rw_received s @ in_hand (cpc s) @ content (length (blocks ?q)) g @ rw_to_push s = xs"
    using g tb by (auto simp: rw_ok_def adv_of_def outside_def)
  note d = ring_repD [OF ok(1)]
  have "next_block (blk ?q tb) = Suc (gTB g) mod length (blocks ?q)"
    using d(9) [OF d(7)] d(5) ok(2) by (simp add: block_at_def mod_simps)
  moreover have "next_block (blk ?q tb) = frontBlock ?q"
    using assms(6) tb by (auto simp: enq_step_def deref_def split: if_splits)
  ultimately have "(length (blocks ?q) - 1) * 511 \<le> length (content (length (blocks ?q)) g)"
    using full_content [OF ok(1,3) _ B(3,2)] by simp
  with B(1) have "n \<le> length (content (length (blocks ?q)) g)" by simp
  moreover have "length xs = length (rw_received s) + length (in_hand (cpc s)) + length (content (length (blocks ?q)) g) + length (rw_to_push s)"
    by (simp flip: ok(4))
  ultimately show ?thesis by simp
qed


text \<open>
  The operations are wait-free: every access brings them nearer to their end.  A producer that runs alone therefore pushes
  everything or reaches a failing \<open>try_enqueue\<close>.
\<close>

fun enq_rank :: "enq_pc \<Rightarrow> nat" where
  "enq_rank PStart = 7"
| "enq_rank (PReadFront _ _ _) = 6"
| "enq_rank (PFull _) = 5"
| "enq_rank (PNext _) = 4"
| "enq_rank (PWriteNext _ _) = 3"
| "enq_rank (PPublishNext _ _) = 2"
| "enq_rank (PAdvance _) = 1"
| "enq_rank (PWrite _ _ _) = 2"
| "enq_rank (PPublish _ _) = 1"
| "enq_rank (PDone _) = 0"

fun deq_rank :: "'a deq_pc \<Rightarrow> nat" where
  "deq_rank CStart = 8"
| "deq_rank (CReadTail _ _) = 7"
| "deq_rank (CTailBlock _) = 6"
| "deq_rank CReread = 5"
| "deq_rank (CNext _) = 4"
| "deq_rank (CMove _ _) = 3"
| "deq_rank (CRead _ _) = 2"
| "deq_rank (CPublish _ _ _) = 1"
| "deq_rank (CDone _) = 0"

lemma enq_rank_step:
  assumes "enq_step x pc q = Inr (pc', q')" "\<forall>r. pc \<noteq> PDone r"
  shows "enq_rank pc' < enq_rank pc"
  using assms by (cases pc) (auto simp: enq_step_def deref_def construct_def Let_def rbind_eq_Inr_iff split: if_splits)

lemma deq_rank_step:
  assumes "deq_step pc q = Inr (pc', q')" "\<forall>r. pc \<noteq> CDone r"
  shows "deq_rank pc' < deq_rank pc"
  using assms by (cases pc) (auto simp: deq_step_def deref_def take_out_def Let_def rbind_eq_Inr_iff split: if_splits option.splits)

definition enq_fails :: "'a rw_sys \<Rightarrow> bool" where
  "enq_fails s \<longleftrightarrow> (\<exists>x ys q. rw_to_push s = x # ys \<and> (\<forall>r. ppc s \<noteq> PDone r) \<and> enq_step x (ppc s) (rwq s) = Inr (PDone False, q))"

lemma rw_reachable_trans: "rw_reachable n xs s \<Longrightarrow> rw_step\<^sup>*\<^sup>* s t \<Longrightarrow> rw_reachable n xs t"
  unfolding rw_reachable_def by (rule rtranclp_trans)

lemma push_run:
  assumes "rw_reachable n xs s" "1 \<le> n" "n < 2 ^ 32" "rw_to_push s = x # ys" "ppc s \<noteq> PDone False"
  shows "\<exists>t. rw_step\<^sup>*\<^sup>* s t \<and> cpc t = cpc s \<and> rw_received t = rw_received s
    \<and> (rw_to_push t = ys \<and> ppc t = PStart \<or> rw_to_push t = rw_to_push s \<and> enq_fails t)"
  using assms(1,4,5)
proof (induction "enq_rank (ppc s)" arbitrary: s rule: less_induct)
  case (less s)
  from rw_reachable_ok [OF less.prems(1) assms(2,3)] obtain g where g: "rw_ok xs s g" by blast
  show ?case
  proof (cases "ppc s = PDone True")
    case True
    from rw_step.pushed [OF less.prems(2) True] show ?thesis by (intro exI [of _ "s\<lparr>ppc := PStart, rw_to_push := ys\<rparr>"]) auto
  next
    case False
    with less.prems(3) have nd: "\<forall>r. ppc s \<noteq> PDone r" by auto
    with rw_enq [OF g less.prems(2)] obtain pc q where st: "enq_step x (ppc s) (rwq s) = Inr (pc, q)" by blast
    let ?u = "s\<lparr>ppc := pc, rwq := q\<rparr>"
    show ?thesis
    proof (cases "pc = PDone False")
      case True
      with st nd less.prems(2) show ?thesis by (intro exI [of _ s]) (auto simp: enq_fails_def)
    next
      case False
      have u: "rw_step s ?u" by (rule rw_step.enq [OF less.prems(2) nd st])
      then have "rw_reachable n xs ?u" using rw_reachable_trans [OF less.prems(1)] by blast
      with less.hyps [of ?u] less.prems(2) enq_rank_step [OF st nd] False obtain t where
        "rw_step\<^sup>*\<^sup>* ?u t" "cpc t = cpc s" "rw_received t = rw_received s"
        "rw_to_push t = ys \<and> ppc t = PStart \<or> rw_to_push t = rw_to_push s \<and> enq_fails t" by auto
      with u show ?thesis by (intro exI [of _ t]) (auto intro: converse_rtranclp_into_rtranclp)
    qed
  qed
qed

lemma producer_alone:
  assumes "rw_reachable n xs s" "1 \<le> n" "n < 2 ^ 32" "cpc s = LDone" "rw_received s = []" "ppc s \<noteq> PDone False"
  shows "\<exists>t. rw_reachable n xs t \<and> cpc t = LDone \<and> rw_received t = [] \<and> (rw_to_push t = [] \<or> enq_fails t)"
  using assms(1,4-)
proof (induction "rw_to_push s" arbitrary: s)
  case (Cons x ys)
  from push_run [OF Cons.prems(1) assms(2,3) Cons.hyps(2) [symmetric] Cons.prems(4)] Cons.prems obtain t where
    t: "rw_reachable n xs t" "cpc t = LDone" "rw_received t = []" "rw_to_push t = ys \<and> ppc t = PStart \<or> enq_fails t"
    by (auto dest: rw_reachable_trans)
  with Cons.hyps(1) [of t] show ?case by (cases "enq_fails t") auto
qed auto

lemma content_le:
  assumes "ring_rep hole adv q g" "\<forall>i < length (blocks q). sizeMask (blk q i) \<le> m"
  shows "length (content (length (blocks q)) g) \<le> length (blocks q) * m"
proof -
  note d = ring_repD [OF assms(1)]
  let ?B = "length (blocks q)"
  have "length (gc g (k mod ?B)) \<le> m" for k
  proof -
    have k: "k mod ?B < ?B" using d(1) by simp
    from block_repD(8-12) [OF block_at_rep [OF assms(1) k]] assms(2) k show ?thesis by fastforce
  qed
  then have "(\<Sum>k\<leftarrow>[gFB g..<Suc (gTB g)]. length (gc g (k mod ?B))) \<le> (\<Sum>k\<leftarrow>[gFB g..<Suc (gTB g)]. m)"
    by (intro sum_list_mono)
  also have "\<dots> = (Suc (gTB g) - gFB g) * m" by (simp only: sum_list_triv length_upt) simp
  also have "\<dots> \<le> ?B * m" using d(3) by (intro mult_le_mono1) simp
  finally show ?thesis by (simp only: content_def length_concat map_map comp_def)
qed


end
