(* ===== verification/RWQueueLive.thy ===== *)
theory RWQueueLive
  imports RWQueue
begin

text \<open>
  Progress of the two threads over the lock-free queue: whatever state they have reached, a schedule leads to the end of both.
  The schedule lets the producer run until \<open>try_enqueue\<close> fails, then the consumer until the queue is empty.
\<close>

section \<open>The consumer alone\<close>

lemma rw_ok_steps: "rw_step\<^sup>*\<^sup>* s t \<Longrightarrow> rw_ok xs s g \<Longrightarrow> \<exists>g'. rw_ok xs t g'"
  by (induction rule: rtranclp_induct) (blast intro: rw_ok_step)+

text \<open>A \<open>try_dequeue\<close> that will deliver an object when nobody interferes.\<close>

fun hopeful :: "'a ReaderWriterQueue \<Rightarrow> 'a ghost \<Rightarrow> 'a deq_pc \<Rightarrow> bool" where
  "hopeful q g CStart \<longleftrightarrow> content (length (blocks q)) g \<noteq> []"
| "hopeful q g (CReadTail _ _) \<longleftrightarrow> content (length (blocks q)) g \<noteq> []"
| "hopeful q g (CTailBlock fb) \<longleftrightarrow> fb \<noteq> tailBlock q"
| "hopeful q g (CDone r) \<longleftrightarrow> r \<noteq> None"
| "hopeful q g _ \<longleftrightarrow> True"

lemma front_empty_content:
  assumes "ring_rep hole adv q g" "frontBlock q = tailBlock q" "front (blk q (frontBlock q)) = tail (blk q (frontBlock q))"
  shows "content (length (blocks q)) g = []"
proof -
  note d = ring_repD [OF assms(1)] and r = block_at_rep [OF assms(1) ring_repD(6) [OF assms(1)]]
  have "gTB g = gFB g" using mod_turn [of "gFB g" "gTB g" "length (blocks q)"] d(2-5) assms(2) by simp
  moreover have "gc g (frontBlock q) = []" using block_rep_tests(4) [OF r] block_repD(12) [OF r] assms(3) by simp
  ultimately show ?thesis using d(4) by (simp add: content_def)
qed

lemma hopeful_step:
  assumes "ring_rep (hole_of pc) adv q g" "cinv q g pc" "hopeful q g pc" "deq_step pc q = Inr (pc', q')"
    and "length (blocks q') = length (blocks q)"
    and "content (length (blocks q)) g = (case pc' of CDone (Some x) \<Rightarrow> [x] | _ \<Rightarrow> []) @ content (length (blocks q)) g'"
  shows "hopeful q' g' pc'"
  using assms
proof (cases pc)
  case (CReadTail fb f)
  then show ?thesis
    using assms front_empty_content [OF assms(1)] by (auto simp: deq_step_def deref_def store_def split: if_splits)
qed (auto simp: deq_step_def deref_def take_out_def Let_def rbind_eq_Inr_iff split: if_splits option.splits)

text \<open>What the consumer leaves alone.\<close>

definition producer_same :: "'a rw_sys \<Rightarrow> 'a rw_sys \<Rightarrow> bool" where
  "producer_same s t \<longleftrightarrow> rw_to_push t = rw_to_push s \<and> ppc t = ppc s \<and> rw_over t = rw_over s \<and> length (rw_received s) \<le> length (rw_received t)"

lemma producer_same_trans: "producer_same s t \<Longrightarrow> producer_same t u \<Longrightarrow> producer_same s u"
  by (auto simp: producer_same_def)

lemma pop_run:
  assumes "rw_ok xs s g" "cpc s = LPop pc"
  shows "\<exists>t. rw_step\<^sup>*\<^sup>* s t \<and> cpc t = LDone \<and> producer_same s t
    \<and> (hopeful (rwq s) g pc \<longrightarrow> length (rw_received s) < length (rw_received t))"
  using assms
proof (induction "deq_rank pc" arbitrary: s g pc rule: less_induct)
  case (less pc s g)
  show ?case
  proof (cases "\<exists>r. pc = CDone r")
    case True
    then consider "pc = CDone None" | x where "pc = CDone (Some x)" by (metis not_None_eq)
    then show ?thesis
    proof cases
      case 1
      with rw_step.pop_fails [of s] less.prems(2) show ?thesis
        by (intro exI [of _ "s\<lparr>cpc := LDone\<rparr>"]) (auto simp: producer_same_def)
    next
      case (2 x)
      with rw_step.popped [of s x] less.prems(2) show ?thesis
        by (intro exI [of _ "s\<lparr>cpc := LDone, rw_received := rw_received s @ [x]\<rparr>"]) (auto simp: producer_same_def)
    qed
  next
    case False
    then have nd: "\<forall>r. pc \<noteq> CDone r" by blast
    have ok: "ring_rep (hole_of pc) (adv_of (ppc s)) (rwq s) g" "cinv (rwq s) g pc"
      using less.prems by (auto simp: rw_ok_def hole_at_def)
    from rw_deq_content [OF less.prems nd] obtain pc' q g' where
      st: "deq_step pc (rwq s) = Inr (pc', q)" "rw_ok xs (s\<lparr>cpc := LPop pc', rwq := q\<rparr>) g'" "length (blocks q) = length (blocks (rwq s))"
      "content (length (blocks (rwq s))) g = (case pc' of CDone (Some x) \<Rightarrow> [x] | _ \<Rightarrow> []) @ content (length (blocks (rwq s))) g'"
      by blast
    let ?u = "s\<lparr>cpc := LPop pc', rwq := q\<rparr>"
    have u: "rw_step s ?u" by (rule rw_step.deq [OF less.prems(2) nd st(1)])
    from less.hyps [OF deq_rank_step [OF st(1) nd] st(2)] obtain t where
      t: "rw_step\<^sup>*\<^sup>* ?u t" "cpc t = LDone" "producer_same ?u t" "hopeful q g' pc' \<longrightarrow> length (rw_received s) < length (rw_received t)" by auto
    moreover have "hopeful (rwq s) g pc \<Longrightarrow> hopeful q g' pc'" using hopeful_step [OF ok _ st(1,3,4)] .
    moreover have "rw_step\<^sup>*\<^sup>* s t" using u t(1) by (rule converse_rtranclp_into_rtranclp)
    ultimately show ?thesis by (intro exI [of _ t]) (auto simp: producer_same_def)
  qed
qed

lemma size_run:
  assumes "ring_rep False 0 (rwq s) g" "j < length (blocks (rwq s))"
    and "cpc s = LSize (frontBlock (rwq s)) ((gFB g + j) mod length (blocks (rwq s))) acc"
  shows "\<exists>k. rw_step\<^sup>*\<^sup>* s (s\<lparr>cpc := LEmpty k\<rparr>)"
  using assms
proof (induction "length (blocks (rwq s)) - j" arbitrary: j acc s rule: less_induct)
  case (less j s acc)
  let ?q = "rwq s" and ?B = "length (blocks (rwq s))"
  note d = ring_repD [OF less.prems(1)]
  let ?p = "(gFB g + j) mod ?B" and ?p' = "(gFB g + Suc j) mod ?B"
  have "?p < ?B" using d(1) by simp
  with d(9) [OF this] have "next_block (blk ?q ?p) = ?p'" by (simp add: block_at_def mod_simps)
  with \<open>?p < ?B\<close> obtain acc' where st: "size_step ?p acc ?q = Inr (?p', acc')" by (auto simp: size_step_def deref_def)
  note u = rw_step.size_step [OF less.prems(3) st]
  show ?case
  proof (cases "?p' = frontBlock ?q")
    case True
    with u show ?thesis by (intro exI [of _ acc']) auto
  next
    case False
    have "(gFB g + ?B) mod ?B = frontBlock ?q" using d(4) by simp
    then have j: "Suc j < ?B" using False less.prems(2) by (metis Suc_lessI)
    then have lt: "?B - Suc j < ?B - j" by simp
    let ?u = "s\<lparr>cpc := LSize (frontBlock ?q) ?p' acc'\<rparr>"
    from less.hyps [of ?u "Suc j" acc'] less.prems(1,2) j lt obtain k where "rw_step\<^sup>*\<^sup>* ?u (s\<lparr>cpc := LEmpty k\<rparr>)" by auto
    with u False show ?thesis by (auto intro: converse_rtranclp_into_rtranclp)
  qed
qed

lemma quiesce:
  assumes "rw_ok xs s g"
  shows "\<exists>t. rw_step\<^sup>*\<^sup>* s t \<and> (cpc t = LDone \<or> cpc t = LExited) \<and> producer_same s t"
proof -
  have pop: "\<exists>t. rw_step\<^sup>*\<^sup>* u t \<and> (cpc t = LDone \<or> cpc t = LExited) \<and> producer_same u t" if "rw_ok xs u g" "cpc u = LPop pc" for u g pc
    using pop_run [OF that] by blast
  have empty: "\<exists>t. rw_step\<^sup>*\<^sup>* u t \<and> (cpc t = LDone \<or> cpc t = LExited) \<and> producer_same u t" if "rw_ok xs u g" "cpc u = LEmpty k" for u g k
  proof (cases "k = 0")
    case True
    with rw_step.leave [of u] that(2) show ?thesis
      by (intro exI [of _ "u\<lparr>cpc := LExited, rw_flag := False\<rparr>"]) (auto simp: producer_same_def)
  next
    case False
    let ?v = "u\<lparr>cpc := LPop CStart\<rparr>"
    have v: "rw_step u ?v" by (rule rw_step.not_empty [OF that(2) False])
    from rw_ok_step [OF this that(1)] obtain g' where "rw_ok xs ?v g'" by blast
    from pop [OF this] obtain t where "rw_step\<^sup>*\<^sup>* ?v t" "cpc t = LDone \<or> cpc t = LExited" "producer_same ?v t" by auto
    with v show ?thesis by (intro exI [of _ t]) (auto simp: producer_same_def intro: converse_rtranclp_into_rtranclp)
  qed
  show ?thesis
  proof (cases "cpc s")
    case (LSize fb p acc)
    then have "ring_rep False 0 (rwq s) g" "fb = frontBlock (rwq s)" "size_inv (rwq s) g p acc"
      using assms by (auto simp: rw_ok_def hole_at_def adv_of_def)
    with size_run [of s g] LSize obtain k where k: "rw_step\<^sup>*\<^sup>* s (s\<lparr>cpc := LEmpty k\<rparr>)" by (auto simp: size_inv_def)
    from rw_ok_steps [OF k assms] obtain g' where "rw_ok xs (s\<lparr>cpc := LEmpty k\<rparr>) g'" by blast
    from empty [OF this] obtain t where "rw_step\<^sup>*\<^sup>* (s\<lparr>cpc := LEmpty k\<rparr>) t" "cpc t = LDone \<or> cpc t = LExited" "producer_same (s\<lparr>cpc := LEmpty k\<rparr>) t" by auto
    with k show ?thesis by (intro exI [of _ t]) (auto simp: producer_same_def)
  qed (use assms pop empty in \<open>auto simp: producer_same_def\<close>)
qed

text \<open>One round of the consumer's loop on a queue that is not empty delivers an object.\<close>

lemma one_pop:
  assumes "rw_ok xs s g" "cpc s = LDone \<and> \<not> rw_flag s \<or> (\<exists>k. cpc s = LEmpty k \<and> k \<noteq> 0)" "content (length (blocks (rwq s))) g \<noteq> []"
  shows "\<exists>t. rw_step\<^sup>*\<^sup>* s t \<and> cpc t = LDone \<and> producer_same s t \<and> length (rw_received s) < length (rw_received t)"
proof -
  let ?u = "s\<lparr>cpc := LPop CStart\<rparr>"
  have u: "rw_step s ?u" using assms(2) by (auto intro: rw_step.not_done rw_step.not_empty)
  have "rw_ok xs ?u g" using assms(1,2) by (auto simp: rw_ok_def hole_at_def hole_of_def in_hand_def outside_def)
  from pop_run [OF this, of CStart] assms(3) obtain t where
    "rw_step\<^sup>*\<^sup>* ?u t" "cpc t = LDone" "producer_same ?u t" "length (rw_received s) < length (rw_received t)" by auto
  with u show ?thesis by (intro exI [of _ t]) (auto simp: producer_same_def intro: converse_rtranclp_into_rtranclp)
qed

lemma received_le: "rw_ok xs s g \<Longrightarrow> length (rw_received s) \<le> length xs"
  by (auto simp: rw_ok_def)

lemma drain:
  assumes "rw_ok xs s g" "cpc s = LDone" "\<not> rw_over s"
  shows "\<exists>t g'. rw_step\<^sup>*\<^sup>* s t \<and> rw_ok xs t g' \<and> cpc t = LDone \<and> producer_same s t \<and> content (length (blocks (rwq t))) g' = []"
  using assms
proof (induction "length xs - length (rw_received s)" arbitrary: s g rule: less_induct)
  case (less s g)
  show ?case
  proof (cases "content (length (blocks (rwq s))) g = []")
    case True
    with less.prems show ?thesis by (intro exI [of _ s] exI [of _ g]) (simp add: producer_same_def)
  next
    case False
    have "\<not> rw_flag s" using less.prems by (simp add: rw_ok_def)
    with one_pop [OF less.prems(1) _ False] less.prems(2) obtain u where
      u: "rw_step\<^sup>*\<^sup>* s u" "cpc u = LDone" "producer_same s u" "length (rw_received s) < length (rw_received u)" by blast
    from rw_ok_steps [OF u(1) less.prems(1)] obtain h where h: "rw_ok xs u h" by blast
    have "length xs - length (rw_received u) < length xs - length (rw_received s)" using received_le [OF h] u(4) by simp
    from less.hyps [OF this h u(2)] u(3) less.prems(3) obtain t g' where
      "rw_step\<^sup>*\<^sup>* u t" "rw_ok xs t g'" "cpc t = LDone" "producer_same u t" "content (length (blocks (rwq t))) g' = []"
      by (auto simp: producer_same_def)
    with u(1,3) show ?thesis by (meson producer_same_trans rtranclp_trans)
  qed
qed

section \<open>Both threads\<close>

text \<open>A failing \<open>try_enqueue\<close> is not the end: the consumer empties the queue, and the next attempt succeeds.\<close>

lemma push_after_failure:
  assumes "rw_reachable n xs s" "1024 \<le> n" "n < 2 ^ 32" "rw_to_push s = x # ys" "ppc s = PDone False"
  shows "\<exists>t. rw_step\<^sup>*\<^sup>* s t \<and> rw_to_push t = ys"
proof -
  have n1: "1 \<le> n" using assms(2) by simp
  from rw_reachable_ok [OF assms(1) n1 assms(3)] obtain g where g: "rw_ok xs s g" by blast
  then have over: "\<not> rw_over s" using assms(4) by (auto simp: rw_ok_def)
  from quiesce [OF g] obtain u where u: "rw_step\<^sup>*\<^sup>* s u" "cpc u = LDone \<or> cpc u = LExited" "producer_same s u" by blast
  from rw_ok_steps [OF u(1) g] obtain h where h: "rw_ok xs u h" by blast
  have nu: "\<not> rw_over u" using u(3) over by (simp add: producer_same_def)
  with h u(2) have "cpc u = LDone" by (auto simp: rw_ok_def)
  from drain [OF h this nu] obtain v k where v: "rw_step\<^sup>*\<^sup>* u v" "rw_ok xs v k" "cpc v = LDone" "producer_same u v"
    "content (length (blocks (rwq v))) k = []" by blast
  have same: "rw_to_push v = x # ys" "ppc v = PDone False" using producer_same_trans [OF u(3) v(4)] assms(4,5) by (simp_all add: producer_same_def)
  have len: "length xs = length (rw_received v) + length (rw_to_push v)"
    using v(2,3,5) same by (auto simp: rw_ok_def in_hand_def outside_def)
  let ?w = "v\<lparr>ppc := PStart\<rparr>"
  have w: "rw_step v ?w" by (rule rw_step.retry [OF same(2)])
  have sw: "rw_step\<^sup>*\<^sup>* s ?w" using u(1) v(1) w by (meson rtranclp.rtrancl_into_rtrancl rtranclp_trans)
  note r = rw_reachable_trans [OF assms(1) sw]
  from push_run [OF r n1 assms(3)] same(1) obtain t where
    t: "rw_step\<^sup>*\<^sup>* ?w t" "rw_received t = rw_received v" "rw_to_push t = ys \<or> rw_to_push t = x # ys \<and> enq_fails t" by auto
  have "\<not> (rw_to_push t = x # ys \<and> enq_fails t)"
    using enq_fails_full [OF rw_reachable_trans [OF r t(1)] assms(2,3)] len t(2) same(1) assms(2) unfolding enq_fails_def by fastforce
  with t(3) rtranclp_trans [OF sw t(1)] show ?thesis by blast
qed

lemma push_one:
  assumes "rw_reachable n xs s" "1024 \<le> n" "n < 2 ^ 32" "rw_to_push s = x # ys"
  shows "\<exists>t. rw_step\<^sup>*\<^sup>* s t \<and> rw_to_push t = ys"
proof (cases "ppc s = PDone False")
  case True
  from push_after_failure [OF assms True] show ?thesis .
next
  case False
  have "1 \<le> n" using assms(2) by simp
  from push_run [OF assms(1) this assms(3,4) False] obtain t where
    t: "rw_step\<^sup>*\<^sup>* s t" "rw_to_push t = ys \<or> rw_to_push t = x # ys \<and> enq_fails t" using assms(4) by auto
  show ?thesis
  proof (cases "rw_to_push t = ys")
    case False
    with t(2) obtain q where f: "rw_to_push t = x # ys" "\<forall>r. ppc t \<noteq> PDone r" "enq_step x (ppc t) (rwq t) = Inr (PDone False, q)"
      by (auto simp: enq_fails_def)
    let ?u = "t\<lparr>ppc := PDone False, rwq := q\<rparr>"
    have su: "rw_step\<^sup>*\<^sup>* s ?u" using t(1) rw_step.enq [OF f] by (rule rtranclp.rtrancl_into_rtrancl)
    from push_after_failure [OF rw_reachable_trans [OF assms(1) su] assms(2,3)] f(1) obtain v where
      v: "rw_step\<^sup>*\<^sup>* ?u v" "rw_to_push v = ys" by auto
    from rtranclp_trans [OF su v(1)] v(2) show ?thesis by blast
  qed (use t in blast)
qed

text \<open>When everything has been pushed and \<open>done_\<close> is set, the consumer empties the queue and leaves.\<close>

lemma consumer_exits:
  assumes "rw_ok xs s g" "rw_over s"
  shows "\<exists>t. rw_step\<^sup>*\<^sup>* s t \<and> cpc t = LExited \<and> rw_to_push t = []"
  using assms
proof (induction "length xs - length (rw_received s)" arbitrary: s g rule: less_induct)
  case (less s g)
  from quiesce [OF less.prems(1)] obtain u where u: "rw_step\<^sup>*\<^sup>* s u" "cpc u = LDone \<or> cpc u = LExited" "producer_same s u" by blast
  from rw_ok_steps [OF u(1) less.prems(1)] obtain h where h: "rw_ok xs u h" by blast
  have o: "rw_over u" "rw_to_push u = []" using h less.prems(2) u(3) by (auto simp: rw_ok_def producer_same_def)
  show ?case
  proof (cases "cpc u = LExited")
    case True
    with u(1) o(2) show ?thesis by blast
  next
    case False
    with u(2) have ld: "cpc u = LDone" by simp
    have ring: "ring_rep False 0 (rwq u) h" "rw_flag u" using h ld o by (auto simp: rw_ok_def hole_at_def adv_of_def)
    let ?v = "u\<lparr>cpc := LSize (frontBlock (rwq u)) (frontBlock (rwq u)) 0\<rparr>"
    have v: "rw_step u ?v" by (rule rw_step.seen_done [OF ld ring(2)])
    obtain k where k: "rw_step\<^sup>*\<^sup>* ?v (?v\<lparr>cpc := LEmpty k\<rparr>)"
      using size_run [of ?v h 0 0] ring(1) ring_repD(1,4) [OF ring(1)] by auto
    let ?w = "u\<lparr>cpc := LEmpty k\<rparr>"
    have sw: "rw_step\<^sup>*\<^sup>* s ?w" using rtranclp_trans [OF rtranclp.rtrancl_into_rtrancl [OF u(1) v] k] by simp
    from rw_ok_steps [OF sw less.prems(1)] obtain h' where h': "rw_ok xs ?w h'" by blast
    then have len: "k = length (content (length (blocks (rwq ?w))) h')" by (auto simp: rw_ok_def)
    show ?thesis
    proof (cases "k = 0")
      case True
      have "rw_step ?w (?w\<lparr>cpc := LExited, rw_flag := False\<rparr>)" by (rule rw_step.leave) (simp add: True)
      with sw o(2) show ?thesis by (intro exI [of _ "?w\<lparr>cpc := LExited, rw_flag := False\<rparr>"]) (auto intro: rtranclp.rtrancl_into_rtrancl)
    next
      case False
      with one_pop [OF h'] len obtain z where
        z: "rw_step\<^sup>*\<^sup>* ?w z" "producer_same ?w z" "length (rw_received u) < length (rw_received z)" by auto
      have sz: "rw_step\<^sup>*\<^sup>* s z" using sw z(1) by (rule rtranclp_trans)
      from rw_ok_steps [OF sz less.prems(1)] obtain hz where hz: "rw_ok xs z hz" by blast
      have "length xs - length (rw_received z) < length xs - length (rw_received s)"
        using received_le [OF hz] z(3) u(3) unfolding producer_same_def by linarith
      from less.hyps [OF this hz] o(1) z(2) obtain t where t: "rw_step\<^sup>*\<^sup>* z t" "cpc t = LExited" "rw_to_push t = []"
        by (auto simp: producer_same_def)
      from rtranclp_trans [OF sz t(1)] t(2,3) show ?thesis by blast
    qed
  qed
qed

lemma pushes_all:
  assumes "rw_reachable n xs s" "1024 \<le> n" "n < 2 ^ 32"
  shows "\<exists>t. rw_step\<^sup>*\<^sup>* s t \<and> rw_to_push t = []"
  using assms(1)
proof (induction "rw_to_push s" arbitrary: s)
  case (Cons x ys)
  from push_one [OF Cons.prems assms(2,3) Cons.hyps(2) [symmetric]] obtain u where u: "rw_step\<^sup>*\<^sup>* s u" "rw_to_push u = ys" by blast
  from Cons.hyps(1) [OF u(2) [symmetric] rw_reachable_trans [OF Cons.prems u(1)]] obtain t where t: "rw_step\<^sup>*\<^sup>* u t" "rw_to_push t = []" by blast
  from rtranclp_trans [OF u(1) t(1)] t(2) show ?case by blast
qed auto

lemma can_finish:
  assumes "rw_reachable n xs s" "1024 \<le> n" "n < 2 ^ 32"
  shows "\<exists>t. rw_step\<^sup>*\<^sup>* s t \<and> cpc t = LExited \<and> rw_to_push t = [] \<and> rw_received t = xs"
proof -
  have n1: "1 \<le> n" using assms(2) by simp
  from pushes_all [OF assms] obtain u where u: "rw_step\<^sup>*\<^sup>* s u" "rw_to_push u = []" by blast
  have "\<exists>v. rw_step\<^sup>*\<^sup>* u v \<and> rw_over v"
  proof (cases "rw_over u")
    case False
    with rw_step.finish [OF u(2)] show ?thesis by (intro exI [of _ "u\<lparr>rw_over := True, rw_flag := True\<rparr>"]) auto
  qed blast
  then obtain v where v: "rw_step\<^sup>*\<^sup>* u v" "rw_over v" by blast
  have sv: "rw_step\<^sup>*\<^sup>* s v" by (rule rtranclp_trans [OF u(1) v(1)])
  from rw_reachable_ok [OF rw_reachable_trans [OF assms(1) sv] n1 assms(3)] obtain g where "rw_ok xs v g" by blast
  from consumer_exits [OF this v(2)] obtain t where t: "rw_step\<^sup>*\<^sup>* v t" "cpc t = LExited" "rw_to_push t = []" by blast
  have st: "rw_step\<^sup>*\<^sup>* s t" by (rule rtranclp_trans [OF sv t(1)])
  from rw_reachable_ok [OF rw_reachable_trans [OF assms(1) st] n1 assms(3)] obtain h where "rw_ok xs t h" by blast
  with t(2,3) have "rw_received t = xs" by (auto simp: rw_ok_def in_hand_def outside_def)
  with st t(2,3) show ?thesis by blast
qed

text \<open>
  C12: The two threads never get stuck, in no interleaving: from every state they can reach over the lock-free queue there is
  a schedule in which the producer pushes the rest and the consumer receives everything and leaves its loop.
\<close>

theorem RWQueue_can_finish:
  assumes "rw_reachable n xs s" "1024 \<le> n" "n < 2 ^ 32"
  shows "\<exists>t. rw_step\<^sup>*\<^sup>* s t \<and> cpc t = LExited \<and> rw_to_push t = [] \<and> rw_received t = xs"
  using assms by (rule can_finish)

theorem RWQueue_can_finish_witness:
  "\<exists>t. rw_step\<^sup>*\<^sup>* (rw_init 8192 [1, 2 :: nat]) t \<and> cpc t = LExited \<and> rw_received t = [1, 2]"
  using RWQueue_can_finish [of 8192 "[1, 2 :: nat]" "rw_init 8192 [1, 2]"] by (auto simp: rw_reachable_def simp del: One_nat_def)

end
