(* ===== verification/Definitions.thy ===== *)
theory Definitions
  imports Prelude
begin

text \<open>
  The constants, enumerations, tables and structs of \<open>include/define.h\<close>, \<open>include/struct.h\<close>,
  \<open>include/tarType.h\<close> and \<open>include/gear_matrix.h\<close>, with the arithmetic helpers of namespace \<open>tool\<close>.

  A \<open>Chunk_t\<close> is modelled by value: \<open>chunkPtr\<close> holds the bytes readable through the pointer, and the
  null pointer is the empty list.  The fields the source leaves without an initialiser are 0 in a new
  chunk; every operation that reads one of them writes it first.  Sizes and offsets are bounded by the
  buffers they index (at most 192 MiB) and are naturals; \<open>basechunkID\<close> is a C \<open>int\<close>.
\<close>

subsection \<open>Constants\<close>

definition FINESSE_SF_NUM :: nat where "FINESSE_SF_NUM = 3"
definition ODESS_SF_NUM :: nat where "ODESS_SF_NUM = 3"
definition CHUNK_HASH_SIZE :: nat where "CHUNK_HASH_SIZE = 32"
definition READ_FILE_SIZE :: nat where "READ_FILE_SIZE = 192 * 1024 * 1024"
definition CONTAINER_MAX_SIZE :: nat where "CONTAINER_MAX_SIZE = 4194304"
definition CONTAINER_CACHE_SIZE :: nat where "CONTAINER_CACHE_SIZE = 64"
definition MASK_GEAR :: u32 where "MASK_GEAR = 0x1fff"
definition MultiHeaderSize :: nat where "MultiHeaderSize = 8192"
definition HeaderSize :: nat where "HeaderSize = 512"
definition CHUNK_QUEUE_SIZE :: nat where "CHUNK_QUEUE_SIZE = 8192"
definition MAX_CHUNK_SIZE :: nat where "MAX_CHUNK_SIZE = 16384"

lemmas size_consts = READ_FILE_SIZE_def CONTAINER_MAX_SIZE_def CONTAINER_CACHE_SIZE_def
  MultiHeaderSize_def HeaderSize_def MAX_CHUNK_SIZE_def CHUNK_HASH_SIZE_def

subsection \<open>Enumerations\<close>

datatype DELTA_TYPE = NO_DELTA | NO_LZ4 | DELTA | FINESSE_TO_BASE | FINESSE_DELTA | LOCAL_DELTA

datatype FILE_TYPE_OPTION = FILE_CHUNK | FILE_HEADER | BIG_CHUNK

datatype METHOD_TYPE = DEDUP | NTRANSFORM | FINESSE | ODESS | PALANTIR | BiSEARCH | LOCALITY

datatype ChunkTypeNum = FIXED_SIZE | FASTCDC | GEARCDC | TAR | TAR_MultiHeader | MTAR

text \<open>The type flags of \<open>tarType.h\<close> that the chunker inspects.\<close>

definition REGTYPE :: byte where "REGTYPE = 0x30"
definition AREGTYPE :: byte where "AREGTYPE = 0"
definition XHDTYPE :: byte where "XHDTYPE = 0x78"
definition GNUTYPE_LONGNAME :: byte where "GNUTYPE_LONGNAME = 0x4C"

lemmas tar_flags = REGTYPE_def AREGTYPE_def XHDTYPE_def GNUTYPE_LONGNAME_def

subsection \<open>Structs\<close>

record Chunk_t =
  chunkID :: nat
  chunkSize :: nat
  saveSize :: nat
  chunkPtr :: "byte list"
  basechunkID :: int
  deltaFlag :: DELTA_TYPE
  loadFromDisk :: bool
  HeaderFlag :: bool
  offset :: nat
  containerID :: nat

definition new_Chunk :: "byte list \<Rightarrow> nat \<Rightarrow> bool \<Rightarrow> Chunk_t" where
  "new_Chunk ptr n hdr = \<lparr>chunkID = 0, chunkSize = n, saveSize = 0, chunkPtr = ptr, basechunkID = 0,
     deltaFlag = NO_DELTA, loadFromDisk = False, HeaderFlag = hdr, offset = 0, containerID = 0\<rparr>"

lemma new_Chunk_sel [simp]:
  "chunkSize (new_Chunk p n h) = n" "chunkPtr (new_Chunk p n h) = p"
  "HeaderFlag (new_Chunk p n h) = h" "deltaFlag (new_Chunk p n h) = NO_DELTA"
  "loadFromDisk (new_Chunk p n h) = False"
  by (simp_all add: new_Chunk_def)

text \<open>
  \<open>Container_t\<close>: \<open>c_data\<close> is the part of the 4 MiB array that has been written so far; the rest of the
  static array is zero and is never read.
\<close>

record Container_t =
  c_size :: nat
  c_chunkNum :: nat
  c_containerID :: nat
  c_data :: "byte list"

text \<open>\<open>PLChunk\<close> of the locality method; \<open>chunkId\<close> is an unsigned 64-bit value that starts at \<open>-1\<close>.\<close>

datatype PLCHUNKTYPE = FI | DUP

record PLChunk =
  pl_chunkId :: u64
  pl_chunkType :: PLCHUNKTYPE

subsection \<open>Arithmetic helpers of namespace \<open>tool\<close>\<close>

definition CompareLimit :: "u32 \<Rightarrow> u32 \<Rightarrow> u32 \<Rightarrow> u32" where
  "CompareLimit input lower upper =
     (if input \<le> lower then lower else if input \<ge> upper then upper else input)"

definition DivCeil :: "u32 \<Rightarrow> u32 \<Rightarrow> u32" where
  "DivCeil a b = (let tmp = a div b in if a mod b = 0 then tmp else tmp + 1)"

text \<open>
  \<open>(uint32_t)round(log2((double)n))\<close>, in exact arithmetic: \<open>round (log2 n) = k\<close> means
  \<open>2 ^ (2 * k - 1) \<le> n\<^sup>2 < 2 ^ (2 * k + 1)\<close>, and the bounds are never met with equality.
\<close>

fun ilog2 :: "nat \<Rightarrow> nat" where
  "ilog2 n = (if n < 2 then 0 else Suc (ilog2 (n div 2)))"

declare ilog2.simps [simp del]

definition round_log2 :: "nat \<Rightarrow> nat" where
  "round_log2 n = ilog2 (2 * n * n) div 2"

lemma CompareLimit_clamp:
  assumes "lower \<le> upper"
  shows "CompareLimit x lower upper = max lower (min x upper)"
  using assms by (auto simp: CompareLimit_def max_def min_def)

lemma CompareLimit_range: "lower \<le> upper \<Longrightarrow> lower \<le> CompareLimit x lower upper \<and> CompareLimit x lower upper \<le> upper"
  by (auto simp: CompareLimit_def)

lemma ilog2_bounds: "0 < n \<Longrightarrow> 2 ^ ilog2 n \<le> n \<and> n < 2 ^ Suc (ilog2 n)"
proof (induction n rule: ilog2.induct)
  case (1 n)
  show ?case
  proof (cases "n < 2")
    case True
    then show ?thesis using "1.prems" by (simp add: ilog2.simps [of n])
  next
    case False
    with "1.IH" have "2 ^ ilog2 (n div 2) \<le> n div 2 \<and> n div 2 < 2 ^ Suc (ilog2 (n div 2))"
      by simp
    with False show ?thesis by (simp add: ilog2.simps [of n]) linarith
  qed
qed

subsection \<open>The Gear tables\<close>

definition GEAR :: "u32 list" where
  "GEAR = [
    0x5C95C078, 0x22408989, 0x2D48A214, 0x12842087, 0x530F8AFB, 0x474536B9, 0x2963B4F1, 0x44CB738B,
    0x4EA7403D, 0x4D606B6E, 0x074EC5D3, 0x3AF39D18, 0x726003CA, 0x37A62A74, 0x51A2F58E, 0x7506358E,
    0x5D4AB128, 0x4D4AE17B, 0x41E85924, 0x470C36F7, 0x4741CBE1, 0x01BB7F30, 0x617C1DE3, 0x2B0C3A1F,
    0x50C48F73, 0x21A82D37, 0x6095ACE0, 0x419167A0, 0x3CAF49B0, 0x40CEA62D, 0x66BC1C66, 0x545E1DAD,
    0x2BFA77CD, 0x6E85DA24, 0x5FB0BDC5, 0x652CFC29, 0x3A0AE1AB, 0x2837E0F3, 0x6387B70E, 0x13176012,
    0x4362C2BB, 0x66D8F4B1, 0x37FCE834, 0x2C9CD386, 0x21144296, 0x627268A8, 0x650DF537, 0x2805D579,
    0x3B21EBBD, 0x7357ED34, 0x3F58B583, 0x7150DDCA, 0x7362225E, 0x620A6070, 0x2C5EF529, 0x7B522466,
    0x768B78C0, 0x4B54E51E, 0x75FA07E5, 0x06A35FC6, 0x30B71024, 0x1C8626E1, 0x296AD578, 0x28D7BE2E,
    0x1490A05A, 0x7CEE43BD, 0x698B56E3, 0x09DC0126, 0x4ED6DF6E, 0x02C1BFC7, 0x2A59AD53, 0x29C0E434,
    0x7D6C5278, 0x507940A7, 0x5EF6BA93, 0x68B6AF1E, 0x46537276, 0x611BC766, 0x155C587D, 0x301BA847,
    0x2CC9DDA7, 0x0A438E2C, 0x0A69D514, 0x744C72D3, 0x4F326B9B, 0x7EF34286, 0x4A0EF8A7, 0x6AE06EBE,
    0x669C5372, 0x12402DCB, 0x5FEAE99D, 0x76C7F4A7, 0x6ABDB79C, 0x0DFAA038, 0x20E2282C, 0x730ED48B,
    0x069DAC2F, 0x168ECF3E, 0x2610E61F, 0x2C512C8E, 0x15FB8C06, 0x5E62BC76, 0x69555135, 0x0ADB864C,
    0x4268F914, 0x349AB3AA, 0x20EDFDB2, 0x51727981, 0x37B4B3D8, 0x5DD17522, 0x6B2CBFE4, 0x5C47CF9F,
    0x30FA1CCD, 0x23DEDB56, 0x13D1F50A, 0x64EDDEE7, 0x0820B0F7, 0x46E07308, 0x1E2D1DFD, 0x17B06C32,
    0x250036D8, 0x284DBF34, 0x68292EE0, 0x362EC87C, 0x087CB1EB, 0x76B46720, 0x104130DB, 0x71966387,
    0x482DC43F, 0x2388EF25, 0x524144E1, 0x44BD834E, 0x448E7DA3, 0x3FA6EAF9, 0x3CDA215C, 0x3A500CF3,
    0x395CB432, 0x5195129F, 0x43945F87, 0x51862CA4, 0x56EA8FF1, 0x201034DC, 0x4D328FF5, 0x7D73A909,
    0x6234D379, 0x64CFBF9C, 0x36F6589A, 0x0A2CE98A, 0x5FE4D971, 0x03BC15C5, 0x44021D33, 0x16C1932B,
    0x37503614, 0x1ACAF69D, 0x3F03B779, 0x49E61A03, 0x1F52D7EA, 0x1C6DDD5C, 0x062218CE, 0x07E7A11A,
    0x1905757A, 0x7CE00A53, 0x49F44F29, 0x4BCC70B5, 0x39FEEA55, 0x5242CEE8, 0x3CE56B85, 0x00B81672,
    0x46BEECCC, 0x3CA0AD56, 0x2396CEE8, 0x78547F40, 0x6B08089B, 0x66A56751, 0x781E7E46, 0x1E2CF856,
    0x3BC13591, 0x494A4202, 0x520494D7, 0x2D87459A, 0x757555B6, 0x42284CC1, 0x1F478507, 0x75C95DFF,
    0x35FF8DD7, 0x4E4757ED, 0x2E11F88C, 0x5E1B5048, 0x420E6699, 0x226B0695, 0x4D1679B4, 0x5A22646F,
    0x161D1131, 0x125C68D9, 0x1313E32E, 0x4AA85724, 0x21DC7EC1, 0x4FFA29FE, 0x72968382, 0x1CA8EEF3,
    0x3F3B1C28, 0x39C2FB6C, 0x6D76493F, 0x7A22A62E, 0x789B1C2A, 0x16E0CB53, 0x7DECEEEB, 0x0DC7E1C6,
    0x5C75BF3D, 0x52218333, 0x106DE4D6, 0x7DC64422, 0x65590FF4, 0x2C02EC30, 0x64A9AC67, 0x59CAB2E9,
    0x4A21D2F3, 0x0F616E57, 0x23B54EE8, 0x02730AAA, 0x2F3C634D, 0x7117FC6C, 0x01AC6F05, 0x5A9ED20C,
    0x158C4E2A, 0x42B699F0, 0x0C7C14B3, 0x02BD9641, 0x15AD56FC, 0x1C722F60, 0x7DA1AF91, 0x23E0DBCB,
    0x0E93E12B, 0x64B2791D, 0x440D2476, 0x588EA8DD, 0x4665A658, 0x7446C418, 0x1877A774, 0x5626407E,
    0x7F63BD46, 0x32D2DBD8, 0x3C790F4A, 0x772B7239, 0x6F8B2826, 0x677FF609, 0x0DC82C11, 0x23FFE354,
    0x2EAC53A6, 0x16139E09, 0x0AFD0DBC, 0x2A4D4237, 0x56A368C7, 0x234325E4, 0x2DCE9187, 0x32E8EA7E]"

definition GEARmx :: "u64 list" where
  "GEARmx = [
    0xb088d3a9e840f559, 0x5652c7f739ed20d6, 0x45b28969898972ab, 0x6b0a89d5b68ec777, 0x368f573e8b7a31b7,
    0x1dc636dce936d94b, 0x207a4c4e5554d5b6, 0xa474b34628239acb, 0x3b06a83e1ca3b912, 0x90e78d6c2f02baf7,
    0xe1c92df7150d9a8a, 0x8e95053a1086d3ad, 0x5a2ef4f1b83a0722, 0xa50fac949f807fae, 0x0e7303eb80d8d681,
    0x99b07edc1570ad0f, 0x689d2fb555fd3076, 0x00005082119ea468, 0xc4b08306a88fcc28, 0x3eb0678af6374afd,
    0xf19f87ab86ad7436, 0xf2129fbfbe6bc736, 0x481149575c98a4ed, 0x0000010695477bc5, 0x1fba37801a9ceacc,
    0x3bf06fd663a49b6d, 0x99687e9782e3874b, 0x79a10673aa50d8e3, 0xe4accf9e6211f420, 0x2520e71f87579071,
    0x2bd5d3fd781a8a9b, 0x00de4dcddd11c873, 0xeaa9311c5a87392f, 0xdb748eb617bc40ff, 0xaf579a8df620bf6f,
    0x86a6e5da1b09c2b1, 0xcc2fc30ac322a12e, 0x355e2afec1f74267, 0x2d99c8f4c021a47b, 0xbade4b4a9404cfc3,
    0xf7b518721d707d69, 0x3286b6587bf32c20, 0x0000b68886af270c, 0xa115d6e4db8a9079, 0x484f7e9c97b2e199,
    0xccca7bb75713e301, 0xbf2584a62bb0f160, 0xade7e813625dbcc8, 0x000070940d87955a, 0x8ae69108139e626f,
    0xbd776ad72fde38a2, 0xfb6b001fc2fcc0cf, 0xc7a474b8e67bc427, 0xbaf6f11610eb5d58, 0x09cb1f5b6de770d1,
    0xb0b219e6977d4c47, 0x00ccbc386ea7ad4a, 0xcc849d0adf973f01, 0x73a3ef7d016af770, 0xc807d2d386bdbdfe,
    0x7f2ac9966c791730, 0xd037a86bc6c504da, 0xf3f17c661eaa609d, 0xaca626b04daae687, 0x755a99374f4a5b07,
    0x90837ee65b2caede, 0x6ee8ad93fd560785, 0x0000d9e11053edd8, 0x9e063bb2d21cdbd7, 0x07ab77f12a01d2b2,
    0xec550255e6641b44, 0x78fb94a8449c14c6, 0xc7510e1bc6c0f5f5, 0x0000320b36e4cae3, 0x827c33262c8b1a2d,
    0x14675f0b48ea4144, 0x267bd3a6498deceb, 0xf1916ff982f5035e, 0x86221b7ff434fb88, 0x9dbecee7386f49d8,
    0xea58f8cac80f8f4a, 0x008d198692fc64d8, 0x6d38704fbabf9a36, 0xe032cb07d1e7be4c, 0x228d21f6ad450890,
    0x635cb1bfc02589a5, 0x4620a1739ca2ce71, 0xa7e7dfe3aae5fb58, 0x0c10ca932b3c0deb, 0x2727fee884afed7b,
    0xa2df1c6df9e2ab1f, 0x4dcdd1ac0774f523, 0x000070ffad33e24e, 0xa2ace87bc5977816, 0x9892275ab4286049,
    0xc2861181ddf18959, 0xbb9972a042483e19, 0xef70cd3766513078, 0x00000513abfc9864, 0xc058b61858c94083,
    0x09e850859725e0de, 0x9197fb3bf83e7d94, 0x7e1e626d12b64bce, 0x520c54507f7b57d1, 0xbee1797174e22416,
    0x6fd9ac3222e95587, 0x0023957c9adfbf3e, 0xa01c7d7e234bbe15, 0xaba2c758b8a38cbb, 0x0d1fa0ceec3e2b30,
    0x0bb6a58b7e60b991, 0x4333dd5b9fa26635, 0xc2fd3b7d4001c1a3, 0xfb41802454731127, 0x65a56185a50d18cb,
    0xf67a02bd8784b54f, 0x696f11dd67e65063, 0x00002022fca814ab, 0x8cd6be912db9d852, 0x695189b6e9ae8a57,
    0xee9453b50ada0c28, 0xd8fc5ea91a78845e, 0xab86bf191a4aa767, 0x0000c6b5c86415e5, 0x267310178e08a22e,
    0xed2d101b078bca25, 0x3b41ed84b226a8fb, 0x13e622120f28dc06, 0xa315f5ebfb706d26, 0x8816c34e3301bace,
    0xe9395b9cbb71fdae, 0x002ce9202e721648, 0x4283db1d2bb3c91c, 0xd77d461ad2b1a6a5, 0xe2ec17e46eeb866b,
    0xb8e0be4039fbc47c, 0xdea160c4d5299d04, 0x7eec86c8d28c3634, 0x2119ad129f98a399, 0xa6ccf46b61a283ef,
    0x2c52cedef658c617, 0x2db4871169acdd83, 0x0000f0d6f39ecbe9, 0x3dd5d8c98d2f9489, 0x8a1872a22b01f584,
    0xf282a4c40e7b3cf2, 0x8020ec2ccb1ba196, 0x6693b6e09e59e313, 0x0000ce19cc7c83eb, 0x20cb5735f6479c3b,
    0x762ebf3759d75a5b, 0x207bfe823d693975, 0xd77dc112339cd9d5, 0x9ba7834284627d03, 0x217dc513e95f51e9,
    0xb27b1a29fc5e7816, 0x00d5cd9831bb662d, 0x71e39b806d75734c, 0x7e572af006fb1a23, 0xa2734f2f6ae91f85,
    0xbf82c6b5022cddf2, 0x5c3beac60761a0de, 0xcdc893bb47416998, 0x6d1085615c187e01, 0x77f8ae30ac277c5d,
    0x917c6b81122a2c91, 0x5b75b699add16967, 0x0000cf6ae79a069b, 0xf3c40afa60de1104, 0x2063127aa59167c3,
    0x621de62269d1894d, 0xd188ac1de62b4726, 0x107036e2154b673c, 0x0000b85f28553a1d, 0xf2ef4e4c18236f3d,
    0xd9d6de6611b9f602, 0xa1fc7955fb47911c, 0xeb85fd032f298dbd, 0xbe27502fb3befae1, 0xe3034251c4cd661e,
    0x441364d354071836, 0x0082b36c75f2983e, 0xb145910316fa66f0, 0x021c069c9847caf7, 0x2910dfc75a4b5221,
    0x735b353e1c57a8b5, 0xce44312ce98ed96c, 0xbc942e4506bdfa65, 0xf05086a71257941b, 0xfec3b215d351cead,
    0x00ae1055e0144202, 0xf54b40846f42e454, 0x00007fd9c8bcbcc8, 0xbfbd9ef317de9bfe, 0xa804302ff2854e12,
    0x39ce4957a5e5d8d4, 0xffb9e2a45637ba84, 0x55b9ad1d9ea0818b, 0x00008acbf319178a, 0x48e2bfc8d0fbfb38,
    0x8be39841e848b5e8, 0x0e2712160696a08b, 0xd51096e84b44242a, 0x1101ba176792e13a, 0xc22e770f4531689d,
    0x1689eff272bbc56c, 0x00a92a197f5650ec, 0xbc765990bda1784e, 0xc61441e392fcb8ae, 0x07e13a2ced31e4a0,
    0x92cbe984234e9d4d, 0x8f4ff572bb7d8ac5, 0x0b9670c00b963bd0, 0x62955a581a03eb01, 0x645f83e5ea000254,
    0x41fce516cd88f299, 0xbbda9748da7a98cf, 0x0000aab2fe4845fa, 0x19761b069bf56555, 0x8b8f5e8343b6ad56,
    0x3e5d1cfd144821d9, 0xec5c1e2ca2b0cd8f, 0xfaf7e0fea7fbb57f, 0x000000d3ba12961b, 0xda3f90178401b18e,
    0x70ff906de33a5feb, 0x0527d5a7c06970e7, 0x22d8e773607c13e9, 0xc9ab70df643c3bac, 0xeda4c6dc8abe12e3,
    0xecef1f410033e78a, 0x0024c2b274ac72cb, 0x06740d954fa900b4, 0x1d7a299b323d6304, 0xb3c37cb298cbead5,
    0xc986e3c76178739b, 0x9fabea364b46f58a, 0x6da214c5af85cc56, 0x17a43ed8b7a38f84, 0x6eccec511d9adbeb,
    0xf9cab30913335afb, 0x4a5e60c5f415eed2, 0x00006967503672b4, 0x9da51d121454bb87, 0x84321e13b9bbc816,
    0xfb3d6fb6ab2fdd8d, 0x60305eed8e160a8d, 0xcbbf4b14e9946ce8, 0x00004f63381b10c3, 0x07d5b7816fcc4e10,
    0xe5a536726a6a8155, 0x57afb23447a07fdd, 0x18f346f7abc9d394, 0x636dc655d61ad33d, 0xcc8bab4939f7f3f6,
    0x63c7a906c1dd187b]"

lemma length_GEAR: "length GEAR = 256"
  by (simp add: GEAR_def)

lemma length_GEARmx: "length GEARmx = 256"
  by (simp add: GEARmx_def)

end
