(* ===== verification/Chunker.thy ===== *)
theory Chunker
  imports Definitions
begin

text \<open>
  The chunker, \<open>src/chunking/chunker.cc\<close> with its class \<open>include/chunker.h\<close>: the cut-point functions
  (fixed size, FastCDC, Gear, tar), the loop \<open>Chunking\<close> that reads a file through the 192 MiB buffer and
  pushes chunks to the message queue, and the tar rewriter \<open>MTar\<close>.

  The member variables are the record \<open>Chunker\<close>.  \<open>outputMQ\<close> is the list of the chunks pushed so far
  (oldest first).  \<open>cdcReady\<close> is a ghost flag: it records whether \<open>ChunkerInit\<close> has assigned
  \<open>normalSize\<close>, \<open>maskS\<close> and \<open>maskL\<close>, which have no initialiser.  \<open>headerBuffer\<close> is the part of the
  16 KiB buffer written so far.  \<open>outFile\<close> is what \<open>MTar\<close> has written to its local output stream.
\<close>

record Chunker =
  chunkType :: ChunkTypeNum
  minChunkSize :: nat
  avgChunkSize :: nat
  maxChunkSize :: nat
  normalSize :: nat
  maskS :: u32
  maskL :: u32
  cdcReady :: bool
  HeaderCp :: nat
  headerBuffer :: "byte list"
  Next_Chunk_Type :: FILE_TYPE_OPTION
  localType :: FILE_TYPE_OPTION
  localOffset :: nat
  Next_Chunk_Size :: u64
  Big_Chunk_Size :: u64
  Big_Chunk_Offset :: u64
  outputMQ :: "Chunk_t list"
  mq_done :: bool
  outFile :: "byte list"

subsection \<open>Parameters\<close>

definition Chunker_CompareLimit :: "u32 \<Rightarrow> u32 \<Rightarrow> u32 \<Rightarrow> u32" where
  "Chunker_CompareLimit input lower upper =
     (if input \<le> lower then lower else if input \<ge> upper then upper else input)"

definition Chunker_DivCeil :: "u32 \<Rightarrow> u32 \<Rightarrow> u32" where
  "Chunker_DivCeil a b = (let tmp = a div b in if a mod b = 0 then tmp else tmp + 1)"

definition CalNormalSize :: "u32 \<Rightarrow> u32 \<Rightarrow> u32 \<Rightarrow> u32" where
  "CalNormalSize mn av mx =
     (let off = mn + Chunker_DivCeil mn 2;
          off = (if off > av then av else off);
          diff = av - off
      in if diff > mx then mx else diff)"

definition GenerateFastCDCMask :: "u32 \<Rightarrow> u32" where
  "GenerateFastCDCMask b = push_bit (unat (Chunker_CompareLimit b 1 31)) 1 - 1"

definition cdc_setup :: "Chunker \<Rightarrow> Chunker" where
  "cdc_setup c =
     (let bits = round_log2 (avgChunkSize c) in
      c\<lparr>normalSize := unat (CalNormalSize (of_nat (minChunkSize c)) (of_nat (avgChunkSize c))
                            (of_nat (maxChunkSize c))),
        maskS := GenerateFastCDCMask (of_nat bits + 1),
        maskL := GenerateFastCDCMask (of_nat bits - 1),
        cdcReady := True\<rparr>)"

definition ChunkerInit :: "Chunker \<Rightarrow> Chunker" where
  "ChunkerInit c =
     (case chunkType c of
        MTAR \<Rightarrow> c
      | FIXED_SIZE \<Rightarrow> c
      | FASTCDC \<Rightarrow> cdc_setup c
      | GEARCDC \<Rightarrow> c
      | TAR \<Rightarrow> cdc_setup c
      | TAR_MultiHeader \<Rightarrow> (cdc_setup c)\<lparr>headerBuffer := []\<rparr>)"

definition ChunkTypeNum_of_int :: "int \<Rightarrow> ChunkTypeNum option" where
  "ChunkTypeNum_of_int i =
     (if i = 0 then Some FIXED_SIZE else if i = 1 then Some FASTCDC else if i = 2 then Some GEARCDC
      else if i = 3 then Some TAR else if i = 4 then Some TAR_MultiHeader
      else if i = 5 then Some MTAR else None)"

definition Chunker_fields :: "ChunkTypeNum \<Rightarrow> Chunker" where
  "Chunker_fields t = \<lparr>chunkType = t, minChunkSize = 4096, avgChunkSize = 8192, maxChunkSize = 16384,
     normalSize = 0, maskS = 0, maskL = 0, cdcReady = False, HeaderCp = 0, headerBuffer = [],
     Next_Chunk_Type = FILE_HEADER, localType = FILE_HEADER, localOffset = 0, Next_Chunk_Size = 0,
     Big_Chunk_Size = 0, Big_Chunk_Offset = 0, outputMQ = [], mq_done = False, outFile = []\<rparr>"

definition Chunker_new :: "int \<Rightarrow> Chunker result" where
  "Chunker_new t =
     (case ChunkTypeNum_of_int t of None \<Rightarrow> Inl ExitFailure
      | Some k \<Rightarrow> Inr (ChunkerInit (Chunker_fields k)))"

definition changeChunkSize :: "nat \<Rightarrow> Chunker \<Rightarrow> Chunker" where
  "changeChunkSize n c = c\<lparr>minChunkSize := n div 2, avgChunkSize := n, maxChunkSize := n * 2\<rparr>"

subsection \<open>Cut points\<close>

text \<open>
  One scanning loop of the cut-point functions: from index \<open>i\<close> to \<open>n\<close> with the running fingerprint
  \<open>fp\<close>.  The result is the value returned or the index after the loop, the fingerprint, and whether
  the loop returned from inside.
\<close>

definition gear_next :: "u32 \<Rightarrow> byte \<Rightarrow> u32" where
  "gear_next fp b = drop_bit 1 fp + GEAR ! unat b"

unbundle bit_operations_syntax

function cdc_scan :: "(nat \<Rightarrow> byte) \<Rightarrow> u32 \<Rightarrow> nat \<Rightarrow> nat \<Rightarrow> u32 \<Rightarrow> nat \<times> u32 \<times> bool" where
  "cdc_scan src msk i n fp =
     (if i < n then
        let fp' = gear_next fp (src i) in
        if fp' AND msk = 0 then (i + 1, fp', True) else cdc_scan src msk (i + 1) n fp'
      else (i, fp, False))"
  by pat_completeness auto
termination
  by (relation "measure (\<lambda>(src, msk, i, n, fp). n - i)") auto

declare cdc_scan.simps [simp del]

definition CutPointFastCDC :: "Chunker \<Rightarrow> (nat \<Rightarrow> byte) \<Rightarrow> nat \<Rightarrow> nat" where
  "CutPointFastCDC c src len =
     (let i = min len (minChunkSize c);
          n = min (normalSize c) len;
          (i, fp, ret) = cdc_scan src (maskS c) i n 0
      in if ret then i
         else let n = min (maxChunkSize c) len;
                  (i, fp, ret) = cdc_scan src (maskL c) i n fp
              in i)"

definition CutPointGear :: "(nat \<Rightarrow> byte) \<Rightarrow> nat \<Rightarrow> nat" where
  "CutPointGear src len = fst (cdc_scan src MASK_GEAR 0 len 0)"

text \<open>The octal size field of a tar header: eleven digits, in wrapping 64-bit arithmetic.\<close>

definition tar_size :: "(nat \<Rightarrow> byte) \<Rightarrow> u64" where
  "tar_size src = fold (\<lambda>i n. n * 8 + ucast (src (124 + i)) - 48) [0..<11] 0"

definition round512 :: "u64 \<Rightarrow> u64" where
  "round512 n = (n + 511) div 512 * 512"

text \<open>
  \<open>case FILE_HEADER\<close> of \<open>CutPointTarFast\<close>.  The branch for \<open>AREGTYPE\<close> sets the size to 0 before it
  compares it with \<open>CONTAINER_MAX_SIZE\<close>, so its \<open>else\<close> branch is unreachable.
\<close>

definition tar_header :: "(nat \<Rightarrow> byte) \<Rightarrow> Chunker \<Rightarrow> Chunker" where
  "tar_header src c =
     (let flag = src 156;
          c = c\<lparr>Next_Chunk_Size := tar_size src\<rparr>;
          c = (if flag = REGTYPE then
                 if Next_Chunk_Size c \<le> of_nat CONTAINER_MAX_SIZE then c\<lparr>Next_Chunk_Type := FILE_CHUNK\<rparr>
                 else c\<lparr>Next_Chunk_Type := BIG_CHUNK,
                        Big_Chunk_Size := round512 (Next_Chunk_Size c), Big_Chunk_Offset := 0\<rparr>
               else c);
          c = (if flag = AREGTYPE then c\<lparr>Next_Chunk_Size := 0, Next_Chunk_Type := FILE_CHUNK\<rparr> else c)
      in if flag = XHDTYPE \<or> flag = GNUTYPE_LONGNAME then c\<lparr>Next_Chunk_Type := FILE_CHUNK\<rparr> else c)"

definition CutPointTarFast :: "Chunker \<Rightarrow> (nat \<Rightarrow> byte) \<Rightarrow> nat \<Rightarrow> nat \<times> Chunker" where
  "CutPointTarFast c src len =
     (case Next_Chunk_Type c of
        FILE_HEADER \<Rightarrow> (if len \<ge> 512 then 512 else len, tar_header src c)
      | FILE_CHUNK \<Rightarrow>
          (let roundedUp = unat (round512 (Next_Chunk_Size c))
           in (if roundedUp < len then roundedUp else len,
               c\<lparr>Next_Chunk_Type := FILE_HEADER, Next_Chunk_Size := 512\<rparr>))
      | BIG_CHUNK \<Rightarrow>
          (let rest = Big_Chunk_Size c - Big_Chunk_Offset c in
           if rest > of_nat (maxChunkSize c) then
             let cp = CutPointFastCDC c src (unat rest)
             in (cp, c\<lparr>Big_Chunk_Offset := Big_Chunk_Offset c + of_nat cp\<rparr>)
           else (unat rest, c\<lparr>Next_Chunk_Type := FILE_HEADER\<rparr>)))"

subsection \<open>Pushing chunks\<close>

text \<open>\<open>malloc\<close>, \<open>memcpy\<close> from the read buffer and \<open>Push\<close>; reading past the 192 MiB buffer is an error.\<close>

definition push_data :: "bool \<Rightarrow> byte list \<Rightarrow> nat \<Rightarrow> nat \<Rightarrow> Chunker \<Rightarrow> Chunker result" where
  "push_data hdr buf off cp c =
     (if off + cp \<le> READ_FILE_SIZE
      then Inr (c\<lparr>outputMQ := outputMQ c @ [new_Chunk (zslice off cp buf) cp hdr]\<rparr>)
      else Inl OutOfBounds)"

subsection \<open>Segments of headers: \<open>CutPointTarHeader\<close>\<close>

text \<open>
  The two loops of \<open>CutPointTarHeader\<close> work on the pointer \<open>src = buf + off\<close>; \<open>cpSum\<close> is the number
  of bytes consumed.  A body step returns the new state, the new \<open>cpSum\<close> and whether it hit \<open>break\<close>.
  The variables \<open>blockTypeMask\<close> and \<open>loopTime\<close> feed only the disabled recipe queue and are left out.
\<close>

definition hdr_guard :: "Chunker \<Rightarrow> bool" where
  "hdr_guard c \<longleftrightarrow>
     (HeaderCp c < MultiHeaderSize \<or> (localType c = FILE_HEADER \<and> Next_Chunk_Type c = FILE_CHUNK))
     \<and> Next_Chunk_Type c \<noteq> BIG_CHUNK"

definition hdr_body :: "byte list \<Rightarrow> nat \<Rightarrow> nat \<Rightarrow> Chunker \<Rightarrow> nat \<Rightarrow> (Chunker \<times> nat \<times> bool) result" where
  "hdr_body buf off len c cpSum =
     (let lt = Next_Chunk_Type c;
          (cp0, c) = CutPointTarFast (c\<lparr>localType := lt\<rparr>) (mem_at buf (off + cpSum)) (usub64 len cpSum);
          cp = cp0 mod 2 ^ 32;
          finish = (\<lambda>c. let s = cpSum + cp in
                     if s = len then (c\<lparr>Next_Chunk_Type := FILE_HEADER\<rparr>, s, True) else (c, s, False))
      in if lt = FILE_HEADER then
           if HeaderCp c + cp \<le> 512 * 32 \<and> off + cpSum + cp \<le> READ_FILE_SIZE
           then Inr (finish (c\<lparr>headerBuffer :=
                              overwrite (HeaderCp c) (zslice (off + cpSum) cp buf) (headerBuffer c),
                              HeaderCp := HeaderCp c + cp\<rparr>))
           else Inl OutOfBounds
         else if cp = 0 then Inr (c, cpSum, False)
         else rbind (push_data False buf (off + cpSum) cp c) (\<lambda>c. Inr (finish c)))"

definition big_guard :: "Chunker \<Rightarrow> nat \<Rightarrow> bool" where
  "big_guard c cpSum \<longleftrightarrow>
     Next_Chunk_Type c \<noteq> FILE_HEADER \<and> cpSum < CONTAINER_MAX_SIZE - MAX_CHUNK_SIZE"

definition big_body :: "byte list \<Rightarrow> nat \<Rightarrow> nat \<Rightarrow> Chunker \<Rightarrow> nat \<Rightarrow> (Chunker \<times> nat \<times> bool) result" where
  "big_body buf off len c cpSum =
     (let lt = Next_Chunk_Type c;
          (cp0, c) = CutPointTarFast (c\<lparr>localType := lt\<rparr>) (mem_at buf (off + cpSum)) (usub64 len cpSum);
          cp = cp0 mod 2 ^ 32
      in rbind (if lt = FILE_HEADER then Inr c else push_data False buf (off + cpSum) cp c)
           (\<lambda>c. Inr (c, cpSum + cp, cpSum + cp = len)))"

definition CutPointTarHeader ::
  "byte list \<Rightarrow> nat \<Rightarrow> nat \<Rightarrow> Chunker \<Rightarrow> (nat \<times> Chunker) result option" where
  "CutPointTarHeader buf off len c =
     (if Next_Chunk_Type c = FILE_HEADER then
        map_option (\<lambda>r. rbind r (\<lambda>(c, cpSum, _).
            Inr (cpSum, c\<lparr>outputMQ := outputMQ c @
                           [new_Chunk (take (HeaderCp c) (headerBuffer c)) (HeaderCp c) True],
                          HeaderCp := 0\<rparr>)))
          (rwhile (\<lambda>(c, k, stop). \<not> stop \<and> hdr_guard c)
             (\<lambda>(c, k, stop). Some (hdr_body buf off len c k)) (c, 0, False))
      else
        map_option (\<lambda>r. rbind r (\<lambda>(c, cpSum, _). Inr (cpSum, c)))
          (rwhile (\<lambda>(c, k, stop). \<not> stop \<and> big_guard c k)
             (\<lambda>(c, k, stop). Some (big_body buf off len c k)) (c, 0, False)))"

subsection \<open>The main loop\<close>

text \<open>
  \<open>Chunking_cut\<close> is the switch over \<open>chunkType\<close>, \<open>Chunking_body\<close> one iteration of the inner loop.
  Reading \<open>normalSize\<close>, \<open>maskS\<close> and \<open>maskL\<close> before \<open>ChunkerInit\<close> has set them is an error.  An
  \<open>MTAR\<close> chunker falls into the default branch with \<open>cp = 0\<close>.
\<close>

definition Chunking_cut :: "byte list \<Rightarrow> nat \<Rightarrow> Chunker \<Rightarrow> (nat \<times> Chunker) result" where
  "Chunking_cut buf len c =
     (let src = mem_at buf (localOffset c); rest = usub64 len (localOffset c) in
      case chunkType c of
        FIXED_SIZE \<Rightarrow> Inr (min (avgChunkSize c) rest, c)
      | FASTCDC \<Rightarrow> (if cdcReady c then Inr (CutPointFastCDC c src rest, c) else Inl Indeterminate)
      | GEARCDC \<Rightarrow> Inr (CutPointGear src rest mod 2 ^ 32, c)
      | TAR \<Rightarrow> (if cdcReady c then Inr (CutPointTarFast c src rest) else Inl Indeterminate)
      | _ \<Rightarrow> Inr (0, c))"

definition Chunking_body :: "byte list \<Rightarrow> nat \<Rightarrow> Chunker \<Rightarrow> Chunker result option" where
  "Chunking_body buf len c =
     (if chunkType c = TAR_MultiHeader then
        map_option (\<lambda>r. rbind r (\<lambda>(cp, c). Inr (c\<lparr>localOffset := localOffset c + cp\<rparr>)))
          (CutPointTarHeader buf (localOffset c) (usub64 len (localOffset c)) c)
      else
        Some (rbind (Chunking_cut buf len c) (\<lambda>(cp, c).
          if cp = 0 then Inr c
          else rbind (push_data False buf (localOffset c) cp c)
                 (\<lambda>c. Inr (c\<lparr>localOffset := localOffset c + cp\<rparr>)))))"

text \<open>
  The loop that reads a file \<open>f\<close> through the buffer, with the body as a parameter: \<open>Chunking\<close> and the
  two passes of \<open>MTar\<close> have the same one.  Each pass clears the buffer, reads up to \<open>READ_FILE_SIZE\<close>
  bytes at \<open>totalOffset\<close> and sets \<open>end\<close> when the read met the end of the file (fewer bytes than asked
  for); the inner loop leaves at least the last \<open>K\<close> bytes but one to the next pass unless the file
  ended.  The state of the outer loop is the chunker, \<open>totalOffset\<close> and whether the loop is over.
\<close>

definition read_guard :: "nat \<Rightarrow> nat \<Rightarrow> bool \<Rightarrow> Chunker \<Rightarrow> bool" where
  "read_guard K len fin c \<longleftrightarrow> usub64 len (localOffset c) \<ge> K \<or> (fin \<and> localOffset c < len)"

definition read_inner ::
  "nat \<Rightarrow> (byte list \<Rightarrow> nat \<Rightarrow> Chunker \<Rightarrow> Chunker result option) \<Rightarrow> byte list \<Rightarrow> bool \<Rightarrow> Chunker
    \<Rightarrow> Chunker result option" where
  "read_inner K body buf fin c =
     rwhile (read_guard K (length buf) fin) (body buf (length buf)) (c\<lparr>localOffset := 0\<rparr>)"

definition read_pass ::
  "nat \<Rightarrow> (byte list \<Rightarrow> nat \<Rightarrow> Chunker \<Rightarrow> Chunker result option) \<Rightarrow> byte list \<Rightarrow> Chunker \<times> nat \<times> bool
    \<Rightarrow> (Chunker \<times> nat \<times> bool) result option" where
  "read_pass K body f = (\<lambda>(c, tot, _).
     let buf = slice tot READ_FILE_SIZE f;
         fin = (length (drop tot f) < READ_FILE_SIZE)
     in if length buf = 0 then Some (Inr (c, tot, True))
        else map_option (\<lambda>r. rbind r (\<lambda>c. Inr (c, tot + localOffset c, fin)))
               (read_inner K body buf fin c))"

definition read_loop ::
  "nat \<Rightarrow> (byte list \<Rightarrow> nat \<Rightarrow> Chunker \<Rightarrow> Chunker result option) \<Rightarrow> byte list \<Rightarrow> Chunker
    \<Rightarrow> Chunker result option" where
  "read_loop K body f c =
     map_option (\<lambda>r. rbind r (\<lambda>(c, _, _). Inr c))
       (rwhile (\<lambda>(c, tot, fin). \<not> fin) (read_pass K body f) (c, 0, False))"

definition Chunking :: "byte list \<Rightarrow> Chunker \<Rightarrow> Chunker result option" where
  "Chunking f c = map_option (\<lambda>r. rbind r (\<lambda>c. Inr (c\<lparr>mq_done := True\<rparr>)))
     (read_loop (CONTAINER_MAX_SIZE * 16) Chunking_body f c)"

section \<open>Lemmas\<close>

subsection \<open>Parameters\<close>

lemma Chunker_CompareLimit_eq: "Chunker_CompareLimit = CompareLimit"
  by (intro ext) (simp add: Chunker_CompareLimit_def CompareLimit_def)

lemma Chunker_DivCeil_2: "unat (Chunker_DivCeil a 2) = (unat a + 1) div 2"
proof -
  have b: "unat a < 2 ^ 32" using unsigned_less [of a] by simp
  have d: "unat (a div 2) = unat a div 2" by (simp add: unat_div)
  have m: "a mod 2 = 0 \<longleftrightarrow> unat a mod 2 = 0"
    by (simp add: unat_mod unat_eq_0 [symmetric, of "a mod 2"])
  show ?thesis
  proof (cases "a mod 2 = 0")
    case True
    with m d show ?thesis by (simp add: Chunker_DivCeil_def Let_def) presburger
  next
    case False
    with m have "unat a mod 2 = 1" by presburger
    moreover have "unat (a div 2 + 1) = unat a div 2 + 1"
      using b d by (simp add: unat_word_ariths)
    ultimately show ?thesis using False by (simp add: Chunker_DivCeil_def Let_def) presburger
  qed
qed

lemma GenerateFastCDCMask_mask: "GenerateFastCDCMask b = mask (unat (CompareLimit b 1 31))"
  by (simp add: GenerateFastCDCMask_def Chunker_CompareLimit_eq mask_eq_exp_minus_1)

lemma CalNormalSize_le:
  assumes "unat mn + (unat mn + 1) div 2 < 2 ^ 32"
  shows "unat (CalNormalSize mn av mx) = min (unat mx) (unat av - (unat mn + (unat mn + 1) div 2))"
proof -
  have o: "unat (mn + Chunker_DivCeil mn 2) = unat mn + (unat mn + 1) div 2"
    using assms by (simp add: unat_word_ariths Chunker_DivCeil_2)
  show ?thesis
    unfolding CalNormalSize_def Let_def
    using o by (auto simp: word_less_nat_alt unat_sub word_le_nat_alt not_less min_def)
qed

text \<open>
  Whatever size \<open>changeChunkSize\<close> is given, the normal size that \<open>ChunkerInit\<close> computes from it is not
  above the minimal chunk size: the first of the two FastCDC loops never runs.
\<close>

lemma normalSize_le_min:
  assumes "n < 2 ^ 30" "2 \<le> n" "chunkType c = FASTCDC"
  shows "normalSize (ChunkerInit (changeChunkSize n c)) \<le> n div 2"
proof -
  have n: "n < 2 ^ 32" "n div 2 < 2 ^ 32" using assms(1) by auto
  then have u: "unat (of_nat (n div 2) :: u32) = n div 2" "unat (of_nat n :: u32) = n"
    by (simp_all only: unat_of_nat len_num1 take_bit_nat_eq_self_iff) (simp_all add: take_bit_nat_eq_self)
  have p: "n div 2 + (n div 2 + 1) div 2 < 2 ^ 32" using assms(1) by simp
  have "normalSize (ChunkerInit (changeChunkSize n c))
      = unat (CalNormalSize (of_nat (n div 2)) (of_nat n) (of_nat (n * 2)))"
    using assms(3) by (simp add: ChunkerInit_def cdc_setup_def changeChunkSize_def Let_def del: of_nat_mult)
  also have "\<dots> \<le> n - (n div 2 + (n div 2 + 1) div 2)"
    unfolding CalNormalSize_le [of "of_nat (n div 2)" "of_nat n" "of_nat (n * 2)", unfolded u, OF p]
    by (rule min.cobounded2)
  also have "\<dots> \<le> n div 2"
  proof -
    have "1 \<le> n div 2" "n \<le> 2 * (n div 2) + 1" using assms(2) by auto
    then show ?thesis by linarith
  qed
  finally show ?thesis .
qed

subsection \<open>The scanning loop\<close>

lemma cdc_scan_stop [simp]: "n \<le> i \<Longrightarrow> cdc_scan src msk i n fp = (i, fp, False)"
  by (simp add: cdc_scan.simps)

lemma cdc_scan_bounds:
  assumes "cdc_scan src msk i n fp = (k, fp', ret)"
  shows "i \<le> k \<and> (i \<le> n \<longrightarrow> k \<le> n) \<and> (ret \<longrightarrow> i < k \<and> k \<le> n) \<and> (\<not> ret \<longrightarrow> k = max i n)"
  using assms
proof (induction src msk i n fp rule: cdc_scan.induct)
  case (1 src msk i n fp)
  show ?case
  proof (cases "i < n")
    case False
    with "1.prems" show ?thesis by (auto simp: max_def)
  next
    case True
    let ?fp = "gear_next fp (src i)"
    show ?thesis
    proof (cases "?fp AND msk = 0")
      case True
      with \<open>i < n\<close> "1.prems" show ?thesis by (auto simp: cdc_scan.simps [of src msk i n fp])
    next
      case False
      with \<open>i < n\<close> "1.prems" have "cdc_scan src msk (i + 1) n ?fp = (k, fp', ret)"
        by (simp add: cdc_scan.simps [of src msk i n fp] Let_def)
      with "1.IH" [OF \<open>i < n\<close> refl False] \<open>i < n\<close> show ?thesis by (auto simp: max_def)
    qed
  qed
qed

text \<open>The scan is determined by the bytes it reads, and a hit does not depend on the upper limit.\<close>

lemma cdc_scan_prefix:
  assumes "cdc_scan src msk i n fp = (k, fp', True)"
    and "\<forall>j<k. i \<le> j \<longrightarrow> src' j = src j" and "k \<le> n'"
  shows "cdc_scan src' msk i n' fp = (k, fp', True)"
  using assms
proof (induction src msk i n fp rule: cdc_scan.induct)
  case (1 src msk i n fp)
  from "1.prems"(1) have lt: "i < n" by (rule contrapos_pp) simp
  have ik: "i < k" using cdc_scan_bounds [OF "1.prems"(1)] by simp
  with "1.prems"(2,3) have eq: "src' i = src i" and lt': "i < n'" by auto
  let ?fp = "gear_next fp (src i)"
  show ?case
  proof (cases "?fp AND msk = 0")
    case True
    with lt lt' eq "1.prems"(1) show ?thesis by (simp add: cdc_scan.simps [of _ msk i] Let_def)
  next
    case False
    with lt "1.prems"(1) have s: "cdc_scan src msk (i + 1) n ?fp = (k, fp', True)"
      by (simp add: cdc_scan.simps [of src msk i n fp] Let_def)
    from "1.IH" [OF lt refl False s] "1.prems"(2,3)
    have "cdc_scan src' msk (i + 1) n' ?fp = (k, fp', True)" by simp
    with False lt' eq show ?thesis by (simp add: cdc_scan.simps [of src' msk i] Let_def)
  qed
qed

lemma cdc_scan_miss_prefix:
  assumes "cdc_scan src msk i n fp = (k, fp', False)" and "\<forall>j<n. i \<le> j \<longrightarrow> src' j = src j"
  shows "cdc_scan src' msk i n fp = (k, fp', False)"
  using assms
proof (induction src msk i n fp rule: cdc_scan.induct)
  case (1 src msk i n fp)
  show ?case
  proof (cases "i < n")
    case False
    with "1.prems"(1) show ?thesis by simp
  next
    case True
    let ?fp = "gear_next fp (src i)"
    from True "1.prems"(1) have nz: "?fp AND msk \<noteq> 0"
      by (auto simp: cdc_scan.simps [of src msk i n fp])
    with True "1.prems"(1) have s: "cdc_scan src msk (i + 1) n ?fp = (k, fp', False)"
      by (simp add: cdc_scan.simps [of src msk i n fp] Let_def)
    from "1.IH" [OF True refl nz s] "1.prems"(2)
    have "cdc_scan src' msk (i + 1) n ?fp = (k, fp', False)" by simp
    moreover have "src' i = src i" using True "1.prems"(2) by simp
    ultimately show ?thesis using nz True by (simp add: cdc_scan.simps [of src' msk i] Let_def)
  qed
qed

text \<open>
  The reference the scan is compared with: \<open>gear_fp src i k\<close> is the fingerprint after the bytes
  \<open>i\<close> to \<open>k - 1\<close>.  The scan returns the first position whose fingerprint vanishes under the mask.
\<close>

definition gear_fp :: "(nat \<Rightarrow> byte) \<Rightarrow> u32 \<Rightarrow> nat \<Rightarrow> nat \<Rightarrow> u32" where
  "gear_fp src fp i k = fold (\<lambda>j fp. gear_next fp (src j)) [i..<k] fp"

definition is_cut :: "(nat \<Rightarrow> byte) \<Rightarrow> u32 \<Rightarrow> u32 \<Rightarrow> nat \<Rightarrow> nat \<Rightarrow> bool" where
  "is_cut src msk fp i k \<longleftrightarrow> i < k \<and> gear_fp src fp i k AND msk = 0"

lemma gear_fp_step:
  "i < k \<Longrightarrow> gear_fp src fp i k = gear_fp src (gear_next fp (src i)) (i + 1) k"
  by (simp add: gear_fp_def upt_conv_Cons)

lemma is_cut_step:
  "i + 1 < k \<Longrightarrow> is_cut src msk fp i k = is_cut src msk (gear_next fp (src i)) (i + 1) k"
  by (simp add: is_cut_def gear_fp_step)

lemma is_cut_first: "is_cut src msk fp i (Suc i) \<longleftrightarrow> gear_next fp (src i) AND msk = 0"
  by (simp add: is_cut_def gear_fp_def)

lemma cdc_scan_first:
  assumes "cdc_scan src msk i n fp = (k, fp', ret)"
  shows "(\<forall>j. i < j \<and> j < k \<longrightarrow> \<not> is_cut src msk fp i j) \<and> (ret \<longleftrightarrow> i < n \<and> is_cut src msk fp i k)
     \<and> fp' = gear_fp src fp i k"
  using assms
proof (induction src msk i n fp rule: cdc_scan.induct)
  case (1 src msk i n fp)
  show ?case
  proof (cases "i < n")
    case False
    with "1.prems" show ?thesis by (auto simp: gear_fp_def)
  next
    case True
    let ?fp = "gear_next fp (src i)"
    show ?thesis
    proof (cases "?fp AND msk = 0")
      case hit: True
      with True "1.prems" have "k = i + 1" "fp' = ?fp" "ret"
        by (auto simp: cdc_scan.simps [of src msk i n fp] Let_def)
      with hit True show ?thesis by (auto simp: is_cut_def gear_fp_def)
    next
      case miss: False
      with True "1.prems" have s: "cdc_scan src msk (i + 1) n ?fp = (k, fp', ret)"
        by (simp add: cdc_scan.simps [of src msk i n fp] Let_def)
      note IH = "1.IH" [OF True refl miss s]
      have ik: "i < k" using cdc_scan_bounds [OF s] by simp
      have no_cut: "\<not> is_cut src msk fp i j" if "i < j" "j < k" for j
        using IH that miss by (cases "j = i + 1") (auto simp: is_cut_step is_cut_first)
      have "ret \<longleftrightarrow> is_cut src msk fp i k"
      proof (cases "k = i + 1")
        case True
        then have "\<not> ret" using cdc_scan_bounds [OF s] by auto
        with True miss show ?thesis by (simp add: is_cut_first)
      next
        case False
        with ik have k: "i + 1 < k" by simp
        with cdc_scan_bounds [OF s] have "ret \<or> i + 1 < n" by (auto simp: max_def)
        with IH k show ?thesis by (auto simp: is_cut_step)
      qed
      with IH ik no_cut True show ?thesis by (auto simp: gear_fp_step)
    qed
  qed
qed

subsection \<open>Cut points stay within bounds\<close>

text \<open>
  The sizes \<open>ChunkerInit\<close> leaves behind for a chunker that uses FastCDC.  Every chunker made by
  \<open>Chunker_new\<close> or reconfigured by \<open>changeChunkSize\<close> satisfies it once it is initialised.
\<close>

definition cdc_ok :: "Chunker \<Rightarrow> bool" where
  "cdc_ok c \<longleftrightarrow> 0 < minChunkSize c \<and> minChunkSize c \<le> maxChunkSize c
     \<and> normalSize c \<le> maxChunkSize c \<and> cdcReady c"

lemma CutPointFastCDC_bounds:
  assumes "cdc_ok c"
  shows "min len (minChunkSize c) \<le> CutPointFastCDC c src len
     \<and> CutPointFastCDC c src len \<le> min len (maxChunkSize c)"
proof -
  let ?i = "min len (minChunkSize c)"
  obtain k fp ret where s1: "cdc_scan src (maskS c) ?i (min (normalSize c) len) 0 = (k, fp, ret)"
    by (cases "cdc_scan src (maskS c) ?i (min (normalSize c) len) 0") auto
  have k: "?i \<le> k" "k \<le> min len (maxChunkSize c)"
    using cdc_scan_bounds [OF s1] assms unfolding cdc_ok_def by (cases ret; force)+
  obtain k' fp' ret' where s2: "cdc_scan src (maskL c) k (min (maxChunkSize c) len) fp = (k', fp', ret')"
    by (cases "cdc_scan src (maskL c) k (min (maxChunkSize c) len) fp") auto
  have "k \<le> k'" "k' \<le> min len (maxChunkSize c)"
    using cdc_scan_bounds [OF s2] k by (auto simp: min.commute)
  with k s1 s2 show ?thesis by (auto simp: CutPointFastCDC_def Let_def)
qed

text \<open>With the normal size below the minimum only the large mask decides.\<close>

lemma CutPointFastCDC_single_mask:
  assumes "normalSize c \<le> minChunkSize c"
  shows "CutPointFastCDC c src len
    = fst (cdc_scan src (maskL c) (min len (minChunkSize c)) (min (maxChunkSize c) len) 0)"
proof -
  have "min (normalSize c) len \<le> min len (minChunkSize c)" using assms by auto
  then show ?thesis by (simp add: CutPointFastCDC_def Let_def split: prod.splits)
qed

lemma CutPointGear_bounds: "min len 1 \<le> CutPointGear src len \<and> CutPointGear src len \<le> len"
proof -
  obtain k fp ret where s: "cdc_scan src MASK_GEAR 0 len 0 = (k, fp, ret)"
    by (cases "cdc_scan src MASK_GEAR 0 len 0") auto
  with cdc_scan_bounds [OF s] show ?thesis by (cases ret) (auto simp: CutPointGear_def)
qed

subsection \<open>The read loop\<close>

text \<open>
  What a loop body has to promise: \<open>I f p c\<close> relates the file, the position reached in it and the
  chunker; a step keeps it, stays inside the buffer and advances, except for a step without progress
  that clears the flag \<open>pend\<close>.  The loop then returns with the invariant at the end of the file.
\<close>

locale reader =
  fixes K :: nat and body :: "byte list \<Rightarrow> nat \<Rightarrow> Chunker \<Rightarrow> Chunker result option"
    and I :: "byte list \<Rightarrow> nat \<Rightarrow> Chunker \<Rightarrow> bool" and pend :: "Chunker \<Rightarrow> bool"
  assumes K_pos: "0 < K" and K_le: "K \<le> READ_FILE_SIZE"
    and I_off: "I f p c \<Longrightarrow> I f p (c\<lparr>localOffset := off\<rparr>)"
    and step: "buf = slice tot READ_FILE_SIZE f \<Longrightarrow> I f (tot + localOffset c) c \<Longrightarrow>
      localOffset c < length buf \<Longrightarrow> K \<le> length buf - localOffset c \<or> tot + length buf = length f \<Longrightarrow>
      \<exists>c'. body buf (length buf) c = Some (Inr c') \<and> I f (tot + localOffset c') c'
        \<and> localOffset c \<le> localOffset c' \<and> localOffset c' \<le> length buf
        \<and> (localOffset c' = localOffset c \<longrightarrow> pend c \<and> \<not> pend c')"

context reader
begin

lemma guard_iff:
  "localOffset c \<le> len \<Longrightarrow> len \<le> READ_FILE_SIZE \<Longrightarrow>
   read_guard K len fin c \<longleftrightarrow> K \<le> len - localOffset c \<or> fin \<and> localOffset c < len"
  by (simp add: read_guard_def size_consts)

lemma inner_ok:
  assumes buf: "buf = slice tot READ_FILE_SIZE f" and I: "I f tot c"
    and fin: "fin \<Longrightarrow> tot + length buf = length f"
  shows "\<exists>c'. read_inner K body buf fin c = Some (Inr c') \<and> I f (tot + localOffset c') c'
    \<and> localOffset c' \<le> length buf \<and> length buf - localOffset c' < K \<and> (fin \<longrightarrow> localOffset c' = length buf)"
proof -
  let ?P = "\<lambda>c. I f (tot + localOffset c) c \<and> localOffset c \<le> length buf"
  let ?m = "\<lambda>c. 2 * (length buf - localOffset c) + (if pend c then 1 else 0)"
  have len: "length buf \<le> READ_FILE_SIZE" by (simp add: buf slice_length)
  have "\<exists>t. rwhile (read_guard K (length buf) fin) (body buf (length buf)) (c\<lparr>localOffset := 0\<rparr>)
      = Some (Inr t) \<and> ?P t \<and> \<not> read_guard K (length buf) fin t"
  proof (rule rwhile_ok [where m = ?m])
    show "?P (c\<lparr>localOffset := 0\<rparr>)" using I by (simp add: I_off)
  next
    fix c assume P: "?P c" and g: "read_guard K (length buf) fin c"
    with len have g': "K \<le> length buf - localOffset c \<or> fin \<and> localOffset c < length buf"
      by (simp add: guard_iff)
    with K_pos have "localOffset c < length buf" by auto
    moreover from g' fin have "K \<le> length buf - localOffset c \<or> tot + length buf = length f" by auto
    ultimately obtain c' where "body buf (length buf) c = Some (Inr c')" "?P c'" "localOffset c \<le> localOffset c'"
      "localOffset c' = localOffset c \<longrightarrow> pend c \<and> \<not> pend c'"
      using step [OF buf] P by blast
    moreover from this have "?m c' < ?m c" by (cases "localOffset c' = localOffset c") auto
    ultimately show "\<exists>s'. body buf (length buf) c = Some (Inr s') \<and> ?P s' \<and> ?m s' < ?m c" by blast
  qed
  then show ?thesis
    unfolding read_inner_def using len by (auto simp: guard_iff not_le)
qed

lemma pass_ok:
  assumes "tot \<le> length f" "I f tot c"
  shows "\<exists>c' tot' fin. read_pass K body f (c, tot, e) = Some (Inr (c', tot', fin))
    \<and> tot' \<le> length f \<and> I f tot' c' \<and> (fin \<longrightarrow> tot' = length f) \<and> (\<not> fin \<longrightarrow> tot < tot')"
proof (cases "tot = length f")
  case True
  with assms show ?thesis by (auto simp: read_pass_def slice_def)
next
  case False
  let ?buf = "slice tot READ_FILE_SIZE f"
  let ?fin = "length (drop tot f) < READ_FILE_SIZE"
  have fin: "?fin \<Longrightarrow> tot + length ?buf = length f" using assms by (simp add: slice_length)
  obtain c' where c': "read_inner K body ?buf ?fin c = Some (Inr c')" "I f (tot + localOffset c') c'"
    "localOffset c' \<le> length ?buf" "length ?buf - localOffset c' < K"
    "?fin \<longrightarrow> localOffset c' = length ?buf"
    using inner_ok [OF refl assms(2) fin] by blast
  have ne: "length ?buf \<noteq> 0" "tot + length ?buf \<le> length f"
    using False assms by (auto simp: slice_length size_consts)
  have "\<not> ?fin \<longrightarrow> 0 < localOffset c'" using c'(4) K_le by (auto simp: slice_length)
  with c' ne fin show ?thesis
    by (intro exI [of _ c'] exI [of _ "tot + localOffset c'"] exI [of _ ?fin])
      (auto simp: read_pass_def Let_def)
qed

theorem read_loop_ok:
  assumes "I f 0 c"
  shows "\<exists>c'. read_loop K body f c = Some (Inr c') \<and> I f (length f) c'"
proof -
  let ?P = "\<lambda>(c, tot, fin). I f tot c \<and> tot \<le> length f \<and> (fin \<longrightarrow> tot = length f)"
  let ?m = "\<lambda>(c :: Chunker, tot, fin). 2 * (length f - tot) + (if fin then 0 else 1)"
  have "\<exists>t. rwhile (\<lambda>(c, tot, fin). \<not> fin) (read_pass K body f) (c, 0, False) = Some (Inr t)
      \<and> ?P t \<and> \<not> (case t of (c, tot, fin) \<Rightarrow> \<not> fin)"
  proof (rule rwhile_ok [where m = ?m])
    show "?P (c, 0, False)" using assms by simp
  next
    fix s assume P: "?P s" and "case s of (c, tot, fin) \<Rightarrow> \<not> fin"
    then obtain c tot where s: "s = (c, tot, False)" "I f tot c" "tot \<le> length f" by auto
    with pass_ok [OF s(3,2), of False]
    show "\<exists>s'. read_pass K body f s = Some (Inr s') \<and> ?P s' \<and> ?m s' < ?m s" by fastforce
  qed
  then show ?thesis by (fastforce simp: read_loop_def)
qed

end

text \<open>A property of the chunker that the body keeps is kept by the whole loop, when it returns.\<close>

lemma read_loop_keeps:
  assumes loop: "read_loop K body f c = Some (Inr c')" and "P c"
    and body: "\<And>buf len c c'. body buf len c = Some (Inr c') \<Longrightarrow> P c \<Longrightarrow> P c'"
    and off: "\<And>c off. P c \<Longrightarrow> P (c\<lparr>localOffset := off\<rparr>)"
  shows "P c'"
proof -
  have inner: "P c'" if "read_inner K body buf fin c = Some (Inr c')" "P c" for buf fin c c'
    using rwhile_rule [of "read_guard K (length buf) fin" "body buf (length buf)" "c\<lparr>localOffset := 0\<rparr>" c' P]
      that off body unfolding read_inner_def by blast
  from loop obtain tot fin where
    "rwhile (\<lambda>(c, tot, fin). \<not> fin) (read_pass K body f) (c, 0, False) = Some (Inr (c', tot, fin))"
    by (auto simp: read_loop_def rbind_eq_Inr_iff)
  then have "case (c', tot, fin) of (c, tot, fin) \<Rightarrow> P c"
    by (rule rwhile_rule [THEN conjunct1])
      (use assms(2) inner in \<open>auto simp: read_pass_def Let_def rbind_eq_Inr_iff split: if_splits\<close>)
  then show ?thesis by simp
qed

subsection \<open>The read loop over an abstract cut function\<close>

text \<open>
  \<open>cutter\<close> is what \<open>Chunking\<close> relies on in a stateless cut-point function: it never returns more than
  the bytes that are left and never less than the minimal size \<open>lo\<close> unless fewer are left.  A
  \<open>chunk_loop\<close> is a chunker whose switch dispatches to such a function.
\<close>

locale cutter =
  fixes lo hi :: nat and cut :: "(nat \<Rightarrow> byte) \<Rightarrow> nat \<Rightarrow> nat"
  assumes lo_pos: "0 < lo" and lo_le: "lo \<le> CONTAINER_MAX_SIZE * 16"
    and cut_ge: "len \<le> READ_FILE_SIZE \<Longrightarrow> min len lo \<le> cut src len"
    and cut_le: "len \<le> READ_FILE_SIZE \<Longrightarrow> cut src len \<le> min len hi"

locale chunk_loop = cutter +
  fixes c0 :: Chunker
  assumes not_multi: "chunkType c0 \<noteq> TAR_MultiHeader"
    and cut_eq: "len \<le> READ_FILE_SIZE \<Longrightarrow> off \<le> len \<Longrightarrow>
      Chunking_cut buf len (c0\<lparr>outputMQ := out, localOffset := off\<rparr>)
        = Inr (cut (mem_at buf off) (len - off), c0\<lparr>outputMQ := out, localOffset := off\<rparr>)"

definition chunk_wf :: "Chunk_t \<Rightarrow> bool" where
  "chunk_wf ch \<longleftrightarrow> chunkSize ch = length (chunkPtr ch) \<and> chunkPtr ch \<noteq> []"

definition pieces :: "Chunk_t list \<Rightarrow> byte list \<Rightarrow> bool" where
  "pieces out xs \<longleftrightarrow> concat (map chunkPtr out) = xs \<and> list_all chunk_wf out"

text \<open>No chunk is larger than \<open>hi\<close>; all chunks but the last one have at least \<open>lo\<close> bytes; the last one too unless it ends the data.\<close>

definition sized :: "nat \<Rightarrow> nat \<Rightarrow> bool \<Rightarrow> Chunk_t list \<Rightarrow> bool" where
  "sized lo hi ended out \<longleftrightarrow> (\<forall>ch \<in> set out. chunkSize ch \<le> hi) \<and> (\<forall>ch \<in> set (butlast out). lo \<le> chunkSize ch)
     \<and> (\<not> ended \<longrightarrow> (\<forall>ch \<in> set out. lo \<le> chunkSize ch))"

lemmas pieces_simps = pieces_def sized_def chunk_wf_def list_all_iff

lemma pieces_Nil [simp]: "pieces [] xs \<longleftrightarrow> xs = []"
  by (auto simp: pieces_def)

lemma pieces_append:
  "pieces out xs \<Longrightarrow> pieces out' ys \<Longrightarrow> pieces (out @ out') (xs @ ys)"
  by (auto simp: pieces_def)

lemma pieces_snoc:
  "pieces out (take off buf) \<Longrightarrow> off + cp \<le> length buf \<Longrightarrow> 0 < cp \<Longrightarrow>
   pieces (out @ [new_Chunk (slice off cp buf) cp h]) (take (off + cp) buf)"
  by (auto simp: pieces_def chunk_wf_def buf_simps) (auto simp: slice_def)

lemma sized_Nil [simp]: "sized lo hi e []"
  by (simp add: sized_def)

lemma sized_snoc:
  "sized lo hi False out \<Longrightarrow> lo \<le> n \<or> e \<Longrightarrow> n \<le> hi \<Longrightarrow> sized lo hi e (out @ [new_Chunk p n h])"
  by (auto simp: sized_def)

lemma sized_append:
  "sized lo hi False out \<Longrightarrow> sized lo hi e out' \<Longrightarrow> sized lo hi e (out @ out')"
  by (auto simp: sized_def butlast_append split: if_splits)

context chunk_loop
begin

definition at :: "Chunk_t list \<Rightarrow> nat \<Rightarrow> Chunker" where
  "at out off = c0\<lparr>outputMQ := outputMQ c0 @ out, localOffset := off\<rparr>"

definition chunked :: "byte list \<Rightarrow> nat \<Rightarrow> Chunker \<Rightarrow> bool" where
  "chunked f p c \<longleftrightarrow> (\<exists>out off. c = at out off \<and> pieces out (take p f) \<and> sized lo hi (p = length f) out)"

lemma at_sel [simp]:
  "localOffset (at out off) = off" "chunkType (at out off) = chunkType c0"
  "outputMQ (at out off) = outputMQ c0 @ out"
  by (simp_all add: at_def)

lemma at_upd [simp]:
  "(at out off)\<lparr>outputMQ := outputMQ c0 @ out'\<rparr> = at out' off"
  "(at out off)\<lparr>localOffset := off'\<rparr> = at out off'"
  by (simp_all add: at_def)

lemma body_at:
  assumes "off < length buf" "length buf \<le> READ_FILE_SIZE"
  shows "\<exists>cp. 0 < cp \<and> min (length buf - off) lo \<le> cp \<and> off + cp \<le> length buf \<and> cp \<le> hi
    \<and> Chunking_body buf (length buf) (at out off)
      = Some (Inr (at (out @ [new_Chunk (slice off cp buf) cp False]) (off + cp)))"
proof -
  let ?cp = "cut (mem_at buf off) (length buf - off)"
  have b: "min (length buf - off) lo \<le> ?cp" "?cp \<le> min (length buf - off) hi"
    using assms by (auto intro!: cut_ge cut_le simp del: min.bounded_iff)
  with assms lo_pos have cp: "0 < ?cp" "off + ?cp \<le> length buf" by auto
  have "Chunking_cut buf (length buf) (at out off) = Inr (?cp, at out off)"
    unfolding at_def by (rule cut_eq) (use assms in auto)
  moreover have "push_data False buf off ?cp (at out off)
      = Inr (at (out @ [new_Chunk (slice off ?cp buf) ?cp False]) off)"
    using cp assms by (simp add: push_data_def buf_simps)
  ultimately show ?thesis
    using cp b not_multi by (intro exI [of _ ?cp]) (simp add: Chunking_body_def)
qed

lemma chunked_step:
  assumes buf: "buf = slice tot READ_FILE_SIZE f" and I: "chunked f (tot + localOffset c) c"
    and lt: "localOffset c < length buf"
    and g: "CONTAINER_MAX_SIZE * 16 \<le> length buf - localOffset c \<or> tot + length buf = length f"
  shows "\<exists>c'. Chunking_body buf (length buf) c = Some (Inr c') \<and> chunked f (tot + localOffset c') c'
    \<and> localOffset c < localOffset c' \<and> localOffset c' \<le> length buf"
proof -
  let ?off = "localOffset c"
  have len: "length buf \<le> READ_FILE_SIZE" by (simp add: buf slice_length)
  from I obtain out where c: "c = at out ?off" and p: "pieces out (take (tot + ?off) f)"
    and sz: "sized lo hi (tot + ?off = length f) out" by (auto simp: chunked_def)
  obtain cp where cp: "0 < cp" "min (length buf - ?off) lo \<le> cp" "?off + cp \<le> length buf" "cp \<le> hi"
    and b: "Chunking_body buf (length buf) c
      = Some (Inr (at (out @ [new_Chunk (slice ?off cp buf) cp False]) (?off + cp)))"
    using body_at [OF lt len, of out] unfolding c [symmetric] by auto
  have sl: "slice ?off cp buf = slice (tot + ?off) cp f" "tot + ?off + cp \<le> length f"
    using cp(3) lt len unfolding buf by (auto simp: slice_def drop_take min_def add.commute split: if_splits)
  have "lo \<le> cp \<or> tot + ?off + cp = length f" using g cp(2,3) lo_le sl(2) by auto
  then have "sized lo hi (tot + ?off + cp = length f) (out @ [new_Chunk (slice (tot + ?off) cp f) cp False])"
    using sz sl cp by (intro sized_snoc) auto
  with pieces_snoc [OF p sl(2) cp(1)] have "chunked f (tot + (?off + cp)) (at (out @ [new_Chunk (slice ?off cp buf) cp False]) (?off + cp))"
    unfolding chunked_def sl(1) by (auto simp: add.assoc)
  with b cp show ?thesis by auto
qed

lemma at_c0: "at [] (localOffset c0) = c0"
  unfolding at_def by (rule Chunker.equality) simp_all

end

sublocale chunk_loop \<subseteq> reader "CONTAINER_MAX_SIZE * 16" Chunking_body chunked "\<lambda>_. False"
proof unfold_locales
  fix f p c off
  assume "chunked f p c"
  then show "chunked f p (c\<lparr>localOffset := off\<rparr>)" unfolding chunked_def by (metis at_upd(2))
next
  fix buf f tot c
  assume "buf = slice tot READ_FILE_SIZE f" "chunked f (tot + localOffset c) c" "localOffset c < length buf"
    "CONTAINER_MAX_SIZE * 16 \<le> length buf - localOffset c \<or> tot + length buf = length f"
  from chunked_step [OF this]
  show "\<exists>c'. Chunking_body buf (length buf) c = Some (Inr c') \<and> chunked f (tot + localOffset c') c'
      \<and> localOffset c \<le> localOffset c' \<and> localOffset c' \<le> length buf
      \<and> (localOffset c' = localOffset c \<longrightarrow> False \<and> \<not> False)" by auto
qed (simp_all add: size_consts)

context chunk_loop
begin

theorem Chunking_state:
  "\<exists>out off. Chunking f c0 = Some (Inr (c0\<lparr>outputMQ := outputMQ c0 @ out, localOffset := off, mq_done := True\<rparr>))
     \<and> pieces out f \<and> sized lo hi True out"
proof -
  have "chunked f 0 c0"
    unfolding chunked_def by (intro exI [of _ "[]"] exI [of _ "localOffset c0"]) (simp add: at_c0)
  from read_loop_ok [OF this] show ?thesis by (fastforce simp: Chunking_def chunked_def at_def)
qed

theorem Chunking_ok:
  "\<exists>c' out. Chunking f c0 = Some (Inr c') \<and> mq_done c' \<and> outputMQ c' = outputMQ c0 @ out
     \<and> pieces out f \<and> sized lo hi True out"
  using Chunking_state [of f] by auto

end

subsection \<open>The chunkers of the program are instances\<close>

lemma CutPointFastCDC_upd [simp]:
  "CutPointFastCDC (c\<lparr>outputMQ := out\<rparr>) = CutPointFastCDC c"
  "CutPointFastCDC (c\<lparr>localOffset := off\<rparr>) = CutPointFastCDC c"
  by (auto simp: CutPointFastCDC_def fun_eq_iff Let_def split: prod.split)

lemma chunk_loop_FIXED:
  assumes "chunkType c = FIXED_SIZE" "0 < avgChunkSize c" "avgChunkSize c \<le> CONTAINER_MAX_SIZE * 16"
  shows "chunk_loop (avgChunkSize c) (avgChunkSize c) (\<lambda>src len. min (avgChunkSize c) len) c"
  using assms by unfold_locales (auto simp: Chunking_cut_def size_consts)

lemma chunk_loop_FASTCDC:
  assumes "chunkType c = FASTCDC" "cdc_ok c" "minChunkSize c \<le> CONTAINER_MAX_SIZE * 16"
  shows "chunk_loop (minChunkSize c) (maxChunkSize c) (CutPointFastCDC c) c"
  using assms CutPointFastCDC_bounds [OF assms(2)]
  by unfold_locales (auto simp: Chunking_cut_def cdc_ok_def size_consts)

lemma chunk_loop_GEARCDC:
  assumes "chunkType c = GEARCDC"
  shows "chunk_loop 1 READ_FILE_SIZE CutPointGear c"
proof unfold_locales
  fix out buf and len off :: nat
  assume "len \<le> READ_FILE_SIZE" "off \<le> len"
  then have "usub64 len off = len - off" "len - off < 2 ^ 32" by (simp_all add: size_consts)
  then have "CutPointGear (mem_at buf off) (usub64 len off) < 2 ^ 32"
    using CutPointGear_bounds [of "len - off" "mem_at buf off"] by simp
  with assms \<open>usub64 len off = len - off\<close>
  show "Chunking_cut buf len (c\<lparr>outputMQ := out, localOffset := off\<rparr>)
      = Inr (CutPointGear (mem_at buf off) (len - off), c\<lparr>outputMQ := out, localOffset := off\<rparr>)"
    by (simp add: Chunking_cut_def)
next
  fix src :: "nat \<Rightarrow> byte" and len :: nat
  show "min len 1 \<le> CutPointGear src len" by (rule CutPointGear_bounds [THEN conjunct1])
  assume "len \<le> READ_FILE_SIZE"
  then show "CutPointGear src len \<le> min len READ_FILE_SIZE"
    using CutPointGear_bounds [of len src] by simp
qed (use assms in \<open>simp_all add: size_consts\<close>)

definition fixed0 :: Chunker where "fixed0 = ChunkerInit (Chunker_fields FIXED_SIZE)"
definition fastcdc0 :: Chunker where "fastcdc0 = ChunkerInit (Chunker_fields FASTCDC)"
definition gear0 :: Chunker where "gear0 = ChunkerInit (Chunker_fields GEARCDC)"

lemma fixed0_sel [simp]:
  "chunkType fixed0 = FIXED_SIZE" "avgChunkSize fixed0 = 8192" "outputMQ fixed0 = []" "localOffset fixed0 = 0"
  by (simp_all add: fixed0_def ChunkerInit_def Chunker_fields_def)

lemma gear0_sel [simp]: "chunkType gear0 = GEARCDC" "outputMQ gear0 = []" "localOffset gear0 = 0"
  by (simp_all add: gear0_def ChunkerInit_def Chunker_fields_def)

lemma fastcdc0_sel [simp]:
  "chunkType fastcdc0 = FASTCDC" "minChunkSize fastcdc0 = 4096" "maxChunkSize fastcdc0 = 16384"
  "outputMQ fastcdc0 = []" "localOffset fastcdc0 = 0" "cdcReady fastcdc0" "normalSize fastcdc0 = 2048"
  "maskS fastcdc0 = mask 14" "maskL fastcdc0 = mask 12"
  by (simp_all add: fastcdc0_def ChunkerInit_def cdc_setup_def Chunker_fields_def Let_def
      CalNormalSize_le round_log2_def ilog2.simps GenerateFastCDCMask_mask CompareLimit_def word_le_nat_alt)

lemma fastcdc0_ok: "cdc_ok fastcdc0"
  by (simp add: cdc_ok_def)

interpretation fixed: chunk_loop 8192 8192 "\<lambda>src len. min 8192 len" fixed0
  using chunk_loop_FIXED [of fixed0] by (simp add: size_consts)

interpretation fastcdc: chunk_loop 4096 16384 "CutPointFastCDC fastcdc0" fastcdc0
  using chunk_loop_FASTCDC [of fastcdc0] fastcdc0_ok by (simp add: size_consts)

interpretation gear: chunk_loop 1 READ_FILE_SIZE CutPointGear gear0
  by (rule chunk_loop_GEARCDC) simp

subsection \<open>Correctness of the cut points and of the read loop\<close>

text \<open>
  C4: With the fixed-size, FastCDC and Gear chunkers (\<open>chunkType\<close> 0, 1 and 2) \<open>Chunking\<close> always
  returns, sets \<open>done_\<close>, and pushes chunks whose bytes are the file, in order and without loss:
  every chunk is non-empty and its size field is its number of bytes.  FastCDC chunks have at most
  16384 bytes and, the last one apart, at least 4096; fixed-size chunks have 8192 bytes, the last apart.
\<close>

theorem Chunking_lossless:
  assumes "t \<in> {0, 1, 2}" "Chunker_new t = Inr c"
  shows "\<exists>c'. Chunking f c = Some (Inr c') \<and> mq_done c' \<and> concat (map chunkPtr (outputMQ c')) = f
    \<and> (\<forall>ch \<in> set (outputMQ c'). chunkSize ch = length (chunkPtr ch) \<and> chunkPtr ch \<noteq> [])
    \<and> (t \<noteq> 2 \<longrightarrow> (\<forall>ch \<in> set (outputMQ c'). chunkSize ch \<le> (if t = 0 then 8192 else 16384))
        \<and> (\<forall>ch \<in> set (butlast (outputMQ c')). chunkSize ch \<ge> (if t = 0 then 8192 else 4096)))"
proof -
  from assms consider "t = 0" "c = fixed0" | "t = 1" "c = fastcdc0" | "t = 2" "c = gear0"
    by (auto simp: Chunker_new_def ChunkTypeNum_of_int_def fixed0_def fastcdc0_def gear0_def)
  then show ?thesis
  proof cases
    case 1
    then show ?thesis using fixed.Chunking_ok [of f] by (auto simp: pieces_simps)
  next
    case 2
    then show ?thesis using fastcdc.Chunking_ok [of f] by (auto simp: pieces_simps)
  next
    case 3
    then show ?thesis using gear.Chunking_ok [of f] by (auto simp: pieces_simps)
  qed
qed

theorem Chunking_lossless_witness:
  "\<exists>c'. Chunking [1, 2, 3] fastcdc0 = Some (Inr c') \<and> concat (map chunkPtr (outputMQ c')) = [1, 2, 3]"
  using Chunking_lossless [of 1 fastcdc0 "[1, 2, 3]"]
  by (auto simp: Chunker_new_def ChunkTypeNum_of_int_def fastcdc0_def)



text \<open>
  C23: After \<open>changeChunkSize(n)\<close> and \<open>ChunkerInit\<close> the cut is the first position behind the minimal
  size where the Gear fingerprint of the bytes behind the minimal size vanishes under \<open>maskL\<close>, and the
  maximal size or the end of the data when there is none: \<open>maskS\<close> is never consulted.
\<close>

theorem CutPointFastCDC_first_cut:
  assumes "2 \<le> n" "n < 2 ^ 30" "chunkType c0 = FASTCDC" "c = ChunkerInit (changeChunkSize n c0)"
    and "CutPointFastCDC c src len = k"
  shows "(\<forall>j. min len (n div 2) < j \<and> j < k \<longrightarrow> \<not> is_cut src (maskL c) 0 (min len (n div 2)) j)
    \<and> (k = min (n * 2) len \<or> is_cut src (maskL c) 0 (min len (n div 2)) k)
    \<and> min len (n div 2) \<le> k \<and> k \<le> min (n * 2) len"
proof -
  have sz: "minChunkSize c = n div 2" "maxChunkSize c = n * 2"
    using assms(3,4) by (simp_all add: ChunkerInit_def changeChunkSize_def cdc_setup_def Let_def)
  have le: "normalSize c \<le> minChunkSize c"
    using normalSize_le_min [OF assms(2,1,3)] assms(4) sz by simp
  obtain k' fp ret where s: "cdc_scan src (maskL c) (min len (n div 2)) (min (n * 2) len) 0 = (k', fp, ret)"
    by (cases "cdc_scan src (maskL c) (min len (n div 2)) (min (n * 2) len) 0") auto
  with CutPointFastCDC_single_mask [OF le, of src len] assms(5) sz have k: "k' = k" by simp
  have b: "min len (n div 2) \<le> min (n * 2) len" by auto
  then have "ret \<or> k = min (n * 2) len"
    using cdc_scan_bounds [OF s] unfolding k by (simp only: max_absorb2) blast
  moreover have "min len (n div 2) \<le> k" "k \<le> min (n * 2) len"
    using cdc_scan_bounds [OF s] b unfolding k by blast+
  ultimately show ?thesis
    using cdc_scan_first [OF s] unfolding k by blast
qed

theorem CutPointFastCDC_first_cut_witness:
  "CutPointFastCDC (ChunkerInit (changeChunkSize 2 (Chunker_fields FASTCDC))) (\<lambda>_. 0) 9 = 2
   \<and> is_cut (\<lambda>_. 0) (mask 1) 0 1 2"
proof -
  let ?c = "ChunkerInit (changeChunkSize 2 (Chunker_fields FASTCDC))"
  have c: "maskL ?c = mask 1" "minChunkSize ?c = 1" "maxChunkSize ?c = 4" "normalSize ?c = 0"
    by (simp_all add: ChunkerInit_def cdc_setup_def Chunker_fields_def changeChunkSize_def Let_def
        CalNormalSize_le round_log2_def ilog2.simps GenerateFastCDCMask_mask CompareLimit_def)
  then have k: "CutPointFastCDC ?c (\<lambda>_. 0) 9 = 2"
    by (simp add: CutPointFastCDC_def cdc_scan.simps gear_next_def GEAR_def)
  show ?thesis
    using CutPointFastCDC_first_cut [OF _ _ _ refl k] k c by (simp add: Chunker_fields_def)
qed

end
