(* ===== verification/Tar.thy ===== *)
theory Tar
  imports Chunker "HOL-Library.Multiset"
begin

text \<open>
  The tar side of \<open>src/chunking/chunker.cc\<close>: how \<open>CutPointTarFast\<close> walks an archive inside the read
  loop (\<open>chunkType\<close> \<open>TAR\<close>), and the rewriter \<open>MTar\<close>, which writes the data of an archive in front of
  its headers.  The layout of an archive is specified by \<open>tar_next\<close> (what a header announces),
  \<open>tar_fits\<close> (no entry is longer than the file) and the two projections \<open>tar_headers\<close>, \<open>tar_data\<close>.
\<close>

unbundle bit_operations_syntax

section \<open>The rewriter \<open>MTar\<close>\<close>

text \<open>
  One iteration of the inner loop; \<open>hdr\<close> tells the pass that writes the headers from the one that
  writes the data.  Reading \<open>normalSize\<close> and the masks before \<open>ChunkerInit\<close> has set them is an error.
\<close>

definition MTar_body :: "bool \<Rightarrow> byte list \<Rightarrow> nat \<Rightarrow> Chunker \<Rightarrow> Chunker result option" where
  "MTar_body hdr buf len c = Some
     (let lt = Next_Chunk_Type c; off = localOffset c in
      if lt = BIG_CHUNK \<and> Big_Chunk_Size c - Big_Chunk_Offset c > of_nat (maxChunkSize c) \<and> \<not> cdcReady c
      then Inl Indeterminate
      else
        let (cp0, c) = CutPointTarFast (c\<lparr>localType := lt\<rparr>) (mem_at buf off) (usub64 len off);
            cp = cp0 mod 2 ^ 32
        in if cp = 0 then Inr c
           else if (lt = FILE_HEADER) = hdr then
             if off + cp \<le> READ_FILE_SIZE
             then Inr (c\<lparr>outFile := outFile c @ zslice off cp buf, localOffset := off + cp\<rparr>)
             else Inl OutOfBounds
           else Inr (c\<lparr>localOffset := off + cp\<rparr>))"

definition MTar_reset :: "Chunker \<Rightarrow> Chunker" where
  "MTar_reset c = c\<lparr>localType := FILE_HEADER, Next_Chunk_Type := FILE_HEADER\<rparr>"

definition MTar_pass :: "bool \<Rightarrow> byte list \<Rightarrow> Chunker \<Rightarrow> Chunker result option" where
  "MTar_pass hdr f c = map_option (\<lambda>r. rbind r (\<lambda>c. Inr (MTar_reset c)))
     (read_loop CONTAINER_MAX_SIZE (MTar_body hdr) f c)"

definition MTar_file :: "byte list \<Rightarrow> Chunker \<Rightarrow> Chunker result option" where
  "MTar_file f c =
     (case MTar_pass False f (c\<lparr>outFile := []\<rparr>) of
        None \<Rightarrow> None
      | Some (Inl e) \<Rightarrow> Some (Inl e)
      | Some (Inr c) \<Rightarrow> MTar_pass True f c)"

text \<open>\<open>find_last_of('/')\<close> and \<open>substr\<close>: the part of a path behind its last slash.\<close>

definition file_name :: "string \<Rightarrow> string" where
  "file_name path = rev (takeWhile (\<lambda>ch. ch \<noteq> CHR ''/'') (rev path))"

definition mtar_path :: "string \<Rightarrow> string" where
  "mtar_path path = ''./mTarFile/'' @ file_name path @ ''.m''"

text \<open>
  The loop over the list of backups.  \<open>fs\<close> is the file system; a file that cannot be opened reads as
  empty.  Each path is overwritten with the path of the rewritten file.
\<close>

fun MTar_files ::
  "nat \<Rightarrow> string list \<Rightarrow> (string \<rightharpoonup> byte list) \<Rightarrow> Chunker
    \<Rightarrow> (string list \<times> (string \<rightharpoonup> byte list) \<times> Chunker) result option" where
  "MTar_files 0 ps fs c = Some (Inr (ps, fs, c))"
| "MTar_files (Suc n) [] fs c = Some (Inl OutOfBounds)"
| "MTar_files (Suc n) (p # ps) fs c =
     (case MTar_file (case fs p of None \<Rightarrow> [] | Some f \<Rightarrow> f) c of
        None \<Rightarrow> None
      | Some (Inl e) \<Rightarrow> Some (Inl e)
      | Some (Inr c) \<Rightarrow>
          map_option (\<lambda>r. rbind r (\<lambda>(ps', fs', c). Inr (mtar_path p # ps', fs', c)))
            (MTar_files n ps (fs(mtar_path p \<mapsto> outFile c)) c))"

definition MTar ::
  "string list \<Rightarrow> nat \<Rightarrow> (string \<rightharpoonup> byte list) \<Rightarrow> Chunker
    \<Rightarrow> (string list \<times> (string \<rightharpoonup> byte list) \<times> Chunker) result option" where
  "MTar readfileList backupNum fs c =
     map_option (\<lambda>r. rbind r (\<lambda>(ps, fs, c). Inr (ps, fs, MTar_reset (c\<lparr>chunkType := FASTCDC\<rparr>))))
       (MTar_files backupNum readfileList fs c)"

section \<open>The layout of an archive\<close>

text \<open>What the header at the pointer \<open>src\<close> announces: the kind of the next part and its padded size.\<close>

definition tar_next :: "(nat \<Rightarrow> byte) \<Rightarrow> FILE_TYPE_OPTION \<times> nat" where
  "tar_next src =
     (let flag = src 156; n = tar_size src; r = unat (round512 n) in
      if flag = REGTYPE then (if n \<le> of_nat CONTAINER_MAX_SIZE then FILE_CHUNK else BIG_CHUNK, r)
      else if flag = AREGTYPE then (FILE_CHUNK, 0)
      else if flag = XHDTYPE \<or> flag = GNUTYPE_LONGNAME then (FILE_CHUNK, r)
      else (FILE_HEADER, 0))"

definition after_header :: "byte list \<Rightarrow> nat \<Rightarrow> nat" where
  "after_header f p = p + min 512 (length f - p)"

definition next_header :: "byte list \<Rightarrow> nat \<Rightarrow> nat" where
  "next_header f p = after_header f p + snd (tar_next (mem_at f p))"

text \<open>
  From position \<open>p\<close> on, no small part is above the container size and no big one is truncated;
  \<open>big\<close> tells whether big parts are allowed at all.
\<close>

function tar_fits :: "bool \<Rightarrow> byte list \<Rightarrow> nat \<Rightarrow> bool" where
  "tar_fits big f p =
     (if p < length f then
        (case fst (tar_next (mem_at f p)) of
           FILE_HEADER \<Rightarrow> True
         | FILE_CHUNK \<Rightarrow> snd (tar_next (mem_at f p)) \<le> CONTAINER_MAX_SIZE
         | BIG_CHUNK \<Rightarrow> big \<and> next_header f p \<le> length f)
        \<and> tar_fits big f (next_header f p)
      else True)"
  by pat_completeness auto
termination
  by (relation "measure (\<lambda>(big, f, p). length f - p)") (auto simp: next_header_def after_header_def)

function tar_headers :: "byte list \<Rightarrow> nat \<Rightarrow> byte list" where
  "tar_headers f p = (if p < length f then slice p 512 f @ tar_headers f (next_header f p) else [])"
  by pat_completeness auto
termination
  by (relation "measure (\<lambda>(f, p). length f - p)") (auto simp: next_header_def after_header_def)

function tar_data :: "byte list \<Rightarrow> nat \<Rightarrow> byte list" where
  "tar_data f p =
     (if p < length f
      then slice (after_header f p) (snd (tar_next (mem_at f p))) f @ tar_data f (next_header f p) else [])"
  by pat_completeness auto
termination
  by (relation "measure (\<lambda>(f, p). length f - p)") (auto simp: next_header_def after_header_def)

declare tar_fits.simps [simp del] tar_headers.simps [simp del] tar_data.simps [simp del]

lemma tar_end [simp]:
  "length f \<le> p \<Longrightarrow> tar_fits big f p" "length f \<le> p \<Longrightarrow> tar_headers f p = []"
  "length f \<le> p \<Longrightarrow> tar_data f p = []"
  by (simp_all add: tar_fits.simps tar_headers.simps tar_data.simps)

lemma drop_slice: "drop p xs = slice p n xs @ drop (p + n) xs"
  unfolding slice_def by (metis append_take_drop_id drop_drop add.commute)

lemma tar_split: "mset (tar_data f p @ tar_headers f p) = mset (drop p f)"
proof (induction f p rule: tar_data.induct)
  case (1 f p)
  show ?case
  proof (cases "p < length f")
    case True
    let ?n = "snd (tar_next (mem_at f p))"
    have q: "slice p 512 f = slice p (min 512 (length f - p)) f"
      by (auto simp: slice_def min_def)
    have "drop p f = slice p 512 f @ slice (after_header f p) ?n f @ drop (next_header f p) f"
      unfolding q next_header_def after_header_def
      by (subst drop_slice [of _ _ "min 512 (length f - p)"], subst drop_slice [of _ _ ?n]) (rule refl)
    with True 1 show ?thesis by (simp add: tar_data.simps [of f p] tar_headers.simps [of f p])
  qed simp
qed

section \<open>\<open>CutPointTarFast\<close> follows the layout\<close>

lemma round512_unat: "n \<le> of_nat CONTAINER_MAX_SIZE \<Longrightarrow> unat (round512 n) \<le> CONTAINER_MAX_SIZE"
proof -
  assume "n \<le> of_nat CONTAINER_MAX_SIZE"
  then have n: "unat n \<le> 4194304" by (simp add: size_consts word_le_nat_alt)
  then have "unat (round512 n) = (unat n + 511) div 512 * 512"
    by (simp add: round512_def unat_word_ariths unat_div)
  with n show ?thesis by (simp add: size_consts)
qed

text \<open>The part that comes next, as the chunker's state announces it.\<close>

definition part_left :: "Chunker \<Rightarrow> nat" where
  "part_left c = (case Next_Chunk_Type c of FILE_HEADER \<Rightarrow> 0
     | FILE_CHUNK \<Rightarrow> unat (round512 (Next_Chunk_Size c))
     | BIG_CHUNK \<Rightarrow> unat (Big_Chunk_Size c - Big_Chunk_Offset c))"

definition part_ok :: "bool \<Rightarrow> byte list \<Rightarrow> nat \<Rightarrow> Chunker \<Rightarrow> bool" where
  "part_ok big f p c \<longleftrightarrow> tar_fits big f (p + part_left c) \<and>
     (case Next_Chunk_Type c of FILE_HEADER \<Rightarrow> True | FILE_CHUNK \<Rightarrow> part_left c \<le> CONTAINER_MAX_SIZE
      | BIG_CHUNK \<Rightarrow> big \<and> p + part_left c \<le> length f)"

lemma tar_header_next:
  assumes "Next_Chunk_Type c = FILE_HEADER"
  shows "Next_Chunk_Type (tar_header src c) = fst (tar_next src)"
    and "part_left (tar_header src c) = snd (tar_next src)"
  using assms by (auto simp: tar_header_def tar_next_def part_left_def Let_def tar_flags round512_def)

lemma tar_header_frame [simp]:
  "outputMQ (tar_header src c) = outputMQ c" "localOffset (tar_header src c) = localOffset c"
  "chunkType (tar_header src c) = chunkType c" "outFile (tar_header src c) = outFile c"
  "maxChunkSize (tar_header src c) = maxChunkSize c" "minChunkSize (tar_header src c) = minChunkSize c"
  "normalSize (tar_header src c) = normalSize c" "cdcReady (tar_header src c) = cdcReady c"
  by (simp_all add: tar_header_def Let_def)

lemma CutPointTarFast_frame:
  assumes "CutPointTarFast c src len = (cp, c')"
  shows "outputMQ c' = outputMQ c" "localOffset c' = localOffset c" "chunkType c' = chunkType c"
    "outFile c' = outFile c" "maxChunkSize c' = maxChunkSize c" "cdc_ok c' = cdc_ok c" "cdcReady c' = cdcReady c"
  using assms
  by (auto simp: CutPointTarFast_def Let_def cdc_ok_def split: FILE_TYPE_OPTION.splits if_splits)

lemma tar_next_cong: "\<forall>i<512. src i = src' i \<Longrightarrow> tar_next src = tar_next src'"
proof -
  assume same: "\<forall>i<512. src i = src' i"
  then have "tar_size src = tar_size src'" unfolding tar_size_def by (intro fold_cong) auto
  moreover from same have "src 156 = src' 156" by simp
  ultimately show ?thesis by (simp add: tar_next_def)
qed

text \<open>
  The view of the file through the buffer: the bytes a cut point may read are those of the file,
  either because \<open>K\<close> bytes are left in the buffer or because the file ends in it.
\<close>

definition in_view :: "byte list \<Rightarrow> nat \<Rightarrow> (nat \<Rightarrow> byte) \<Rightarrow> nat \<Rightarrow> bool" where
  "in_view f p src len \<longleftrightarrow> 0 < len \<and> p + len \<le> length f
     \<and> (CONTAINER_MAX_SIZE \<le> len \<or> p + len = length f) \<and> (\<forall>i<512. src i = mem_at f p i)"

lemma in_view_buffer:
  assumes "buf = slice tot READ_FILE_SIZE f" "off < length buf" "CONTAINER_MAX_SIZE \<le> K"
    and "K \<le> length buf - off \<or> tot + length buf = length f"
  shows "in_view f (tot + off) (mem_at buf off) (length buf - off)"
  using assms unfolding in_view_def mem_at_def
  by (auto simp: slice_def size_consts add.assoc)

text \<open>How a cut of \<open>cp\<close> bytes moves through the parts of the archive.\<close>

definition moves :: "byte list \<Rightarrow> nat \<Rightarrow> Chunker \<Rightarrow> nat \<Rightarrow> Chunker \<Rightarrow> bool" where
  "moves f p c cp c' \<longleftrightarrow>
     (if Next_Chunk_Type c = FILE_HEADER
      then cp = min 512 (length f - p) \<and> part_left c' = snd (tar_next (mem_at f p))
      else cp \<le> part_left c \<and> (part_left c' = part_left c - cp \<or> p + cp = length f \<and> part_left c' = 0))"

lemma CutPointTarFast_step:
  assumes cut: "CutPointTarFast c src len = (cp, c')" and v: "in_view f p src len"
    and ok: "part_ok big f p c" and cdc: "big \<Longrightarrow> cdc_ok c" and mx: "maxChunkSize c \<le> CONTAINER_MAX_SIZE"
  shows "cp \<le> len \<and> part_ok big f (p + cp) c' \<and> moves f p c cp c'"
proof (cases "Next_Chunk_Type c")
  case FILE_HEADER
  then have cp: "cp = min 512 (length f - p)" and c': "c' = tar_header src c"
    using cut v by (auto simp: CutPointTarFast_def in_view_def size_consts)
  have n: "tar_next src = tar_next (mem_at f p)" using v by (intro tar_next_cong) (simp add: in_view_def)
  have "tar_fits big f p" using ok FILE_HEADER by (simp add: part_ok_def part_left_def)
  moreover have "p < length f" "cp \<le> len" using v cp by (auto simp: in_view_def size_consts)
  ultimately show ?thesis
    using tar_header_next [OF FILE_HEADER, of src] cp unfolding c' n
    by (auto simp: part_ok_def tar_fits.simps [of big f p] next_header_def after_header_def add.assoc
        moves_def FILE_HEADER split: FILE_TYPE_OPTION.splits)
next
  case FILE_CHUNK
  then have cp: "cp = min (part_left c) len" and c': "Next_Chunk_Type c' = FILE_HEADER"
    using cut by (auto simp: CutPointTarFast_def part_left_def Let_def)
  have "part_left c \<le> len \<or> p + len = length f"
    using ok v FILE_CHUNK by (auto simp: part_ok_def in_view_def)
  with ok cp c' FILE_CHUNK show ?thesis by (auto simp: moves_def part_ok_def part_left_def min_def)
next
  case BIG_CHUNK
  let ?r = "Big_Chunk_Size c - Big_Chunk_Offset c"
  have b: "big" "p + unat ?r \<le> length f" "tar_fits big f (p + unat ?r)"
    using ok BIG_CHUNK by (auto simp: part_ok_def part_left_def)
  have m: "unat (of_nat (maxChunkSize c) :: u64) = maxChunkSize c"
    using mx by (simp add: unat_of_nat size_consts take_bit_nat_eq_self)
  show ?thesis
  proof (cases "?r > of_nat (maxChunkSize c)")
    case True
    let ?k = "CutPointFastCDC c src (unat ?r)"
    have k: "?k \<le> min (unat ?r) (maxChunkSize c)" using CutPointFastCDC_bounds [OF cdc [OF b(1)]] by blast
    have "unat (Big_Chunk_Size c - (Big_Chunk_Offset c + of_nat ?k)) = unat (?r - of_nat ?k)"
      by (simp add: algebra_simps)
    also have "\<dots> = unat ?r - ?k"
    proof -
      have "?k < 2 ^ 64" using k mx by (simp add: size_consts)
      then have u: "unat (of_nat ?k :: u64) = ?k" by (simp add: unat_of_nat take_bit_nat_eq_self)
      with k have "(of_nat ?k :: u64) \<le> ?r" by (simp add: word_le_nat_alt)
      with u show ?thesis by (simp add: unat_sub)
    qed
    finally have "cp = ?k" "part_left c' = unat ?r - ?k" "Next_Chunk_Type c' = BIG_CHUNK"
      using cut BIG_CHUNK True by (auto simp: CutPointTarFast_def part_left_def Let_def)
    with k b v mx BIG_CHUNK show ?thesis by (auto simp: moves_def part_ok_def part_left_def in_view_def)
  next
    case False
    then have cp: "cp = unat ?r" "Next_Chunk_Type c' = FILE_HEADER"
      using cut BIG_CHUNK by (auto simp: CutPointTarFast_def Let_def)
    have "unat ?r \<le> maxChunkSize c" using False m by (simp add: word_less_nat_alt not_less)
    with cp b v mx BIG_CHUNK show ?thesis by (auto simp: moves_def part_ok_def part_left_def in_view_def)
  qed
qed

lemma CutPointTarFast_progress:
  assumes "CutPointTarFast c src len = (0, c')" "0 < len" "Next_Chunk_Type c = BIG_CHUNK \<Longrightarrow> cdc_ok c"
  shows "Next_Chunk_Type c \<noteq> FILE_HEADER \<and> Next_Chunk_Type c' = FILE_HEADER"
  using assms CutPointFastCDC_bounds [of c "unat (Big_Chunk_Size c - Big_Chunk_Offset c)" src]
  by (auto simp: CutPointTarFast_def Let_def cdc_ok_def min_def unat_eq_0
      split: FILE_TYPE_OPTION.splits if_splits)

section \<open>The loops over an archive\<close>

lemma part_upd [simp]:
  "part_ok big f p (c\<lparr>localOffset := off\<rparr>) = part_ok big f p c"
  "part_ok big f p (c\<lparr>outputMQ := out\<rparr>) = part_ok big f p c"
  "part_ok big f p (c\<lparr>outFile := xs\<rparr>) = part_ok big f p c"
  "part_ok big f p (c\<lparr>localType := lt\<rparr>) = part_ok big f p c"
  "part_left (c\<lparr>localOffset := off\<rparr>) = part_left c"
  "part_left (c\<lparr>outputMQ := out\<rparr>) = part_left c"
  "part_left (c\<lparr>outFile := xs\<rparr>) = part_left c"
  "part_left (c\<lparr>localType := lt\<rparr>) = part_left c"
  by (cases "Next_Chunk_Type c"; simp add: part_ok_def part_left_def)+

lemma cdc_ok_upd [simp]:
  "cdc_ok (c\<lparr>localOffset := off\<rparr>) = cdc_ok c" "cdc_ok (c\<lparr>outputMQ := out\<rparr>) = cdc_ok c"
  "cdc_ok (c\<lparr>outFile := xs\<rparr>) = cdc_ok c" "cdc_ok (c\<lparr>localType := lt\<rparr>) = cdc_ok c"
  by (simp_all add: cdc_ok_def)

lemma slice_buffer:
  assumes "buf = slice tot READ_FILE_SIZE f" "off + cp \<le> length buf"
  shows "slice off cp buf = slice (tot + off) cp f" "tot + off + cp \<le> length f \<or> cp = 0" "off + cp \<le> READ_FILE_SIZE"
  using assms(2) unfolding assms(1) by (auto simp: slice_def drop_take min_def add.commute split: if_splits)

definition tar_chunked :: "byte list \<Rightarrow> nat \<Rightarrow> Chunker \<Rightarrow> bool" where
  "tar_chunked f p c \<longleftrightarrow> chunkType c = TAR \<and> cdc_ok c \<and> maxChunkSize c \<le> CONTAINER_MAX_SIZE
     \<and> part_ok True f p c \<and> pieces (outputMQ c) (take p f)"

interpretation tar: reader "CONTAINER_MAX_SIZE * 16" Chunking_body tar_chunked
  "\<lambda>c. Next_Chunk_Type c \<noteq> FILE_HEADER"
proof unfold_locales
  fix buf f tot c
  assume buf: "buf = slice tot READ_FILE_SIZE f" and I: "tar_chunked f (tot + localOffset c) c"
    and lt: "localOffset c < length buf"
    and g: "CONTAINER_MAX_SIZE * 16 \<le> length buf - localOffset c \<or> tot + length buf = length f"
  let ?off = "localOffset c" and ?len = "length buf - localOffset c"
  let ?src = "mem_at buf ?off"
  obtain cp c' where cut: "CutPointTarFast c ?src ?len = (cp, c')" by (cases "CutPointTarFast c ?src ?len")
  have v: "in_view f (tot + ?off) ?src ?len" using in_view_buffer [OF buf lt _ g] by simp
  have step: "cp \<le> ?len" "part_ok True f (tot + ?off + cp) c'"
    using CutPointTarFast_step [OF cut v] I by (auto simp: tar_chunked_def)
  then have cp: "?off + cp \<le> length buf" using lt by simp
  note sl = slice_buffer [OF buf cp] and fr = CutPointTarFast_frame [OF cut]
  have len: "length buf < 2 ^ 64" using buf by (simp add: slice_length size_consts)
  have c1: "Chunking_cut buf (length buf) c = Inr (cp, c')"
    using I lt len cut by (simp add: Chunking_cut_def tar_chunked_def cdc_ok_def)
  show "\<exists>c'. Chunking_body buf (length buf) c = Some (Inr c') \<and> tar_chunked f (tot + localOffset c') c'
      \<and> localOffset c \<le> localOffset c' \<and> localOffset c' \<le> length buf
      \<and> (localOffset c' = localOffset c \<longrightarrow> Next_Chunk_Type c \<noteq> FILE_HEADER \<and> \<not> Next_Chunk_Type c' \<noteq> FILE_HEADER)"
  proof (cases "cp = 0")
    case True
    moreover have "Chunking_body buf (length buf) c = Some (Inr c')"
      using I c1 True by (simp add: Chunking_body_def tar_chunked_def)
    ultimately show ?thesis
      using CutPointTarFast_progress [of c ?src ?len c'] cut lt I fr step by (auto simp: tar_chunked_def)
  next
    case False
    let ?c = "c'\<lparr>outputMQ := outputMQ c @ [new_Chunk (slice (tot + ?off) cp f) cp False], localOffset := ?off + cp\<rparr>"
    have "Chunking_body buf (length buf) c = Some (Inr ?c)"
      using I c1 False fr sl cp by (simp add: Chunking_body_def tar_chunked_def push_data_def buf_simps)
    moreover have "pieces (outputMQ ?c) (take (tot + ?off + cp) f)"
      using I False sl by (auto simp: tar_chunked_def intro!: pieces_snoc)
    ultimately show ?thesis using step fr I cp False by (auto simp: tar_chunked_def add.assoc)
  qed
qed (simp_all add: size_consts tar_chunked_def)

text \<open>What a pass of \<open>MTar\<close> still has to write from position \<open>p\<close> on.\<close>

definition mtar_rest :: "bool \<Rightarrow> byte list \<Rightarrow> nat \<Rightarrow> Chunker \<Rightarrow> byte list" where
  "mtar_rest hdr f p c =
     (if hdr then tar_headers f (p + part_left c)
      else slice p (part_left c) f @ tar_data f (p + part_left c))"

definition mtar_inv :: "bool \<Rightarrow> bool \<Rightarrow> byte list \<Rightarrow> byte list \<Rightarrow> nat \<Rightarrow> Chunker \<Rightarrow> bool" where
  "mtar_inv hdr big goal f p c \<longleftrightarrow> maxChunkSize c \<le> CONTAINER_MAX_SIZE \<and> (big \<longrightarrow> cdc_ok c)
     \<and> part_ok big f p c \<and> outFile c @ mtar_rest hdr f p c = goal"

lemma mtar_rest_upd [simp]:
  "mtar_rest hdr f p (c\<lparr>localOffset := off\<rparr>) = mtar_rest hdr f p c"
  "mtar_rest hdr f p (c\<lparr>outFile := xs\<rparr>) = mtar_rest hdr f p c"
  "mtar_rest hdr f p (c\<lparr>localType := lt\<rparr>) = mtar_rest hdr f p c"
  by (cases hdr; simp add: mtar_rest_def)+

lemma slice_past: "p + k \<ge> length f \<Longrightarrow> k \<le> n \<Longrightarrow> slice p n f = slice p k f"
  by (simp add: slice_def)

lemma slice_split: "k \<le> n \<Longrightarrow> slice p n f = slice p k f @ slice (p + k) (n - k) f"
  unfolding slice_def by (metis add.commute drop_drop le_add_diff_inverse take_add)

lemma mtar_rest_moves:
  assumes "moves f p c cp c'" "p < length f" "Next_Chunk_Type c = FILE_HEADER \<Longrightarrow> part_left c = 0"
  shows "mtar_rest hdr f p c
    = (if (Next_Chunk_Type c = FILE_HEADER) = hdr then slice p cp f else []) @ mtar_rest hdr f (p + cp) c'"
proof (cases "Next_Chunk_Type c = FILE_HEADER")
  case True
  then have m: "p + cp = after_header f p" "p + cp + part_left c' = next_header f p"
    "slice p 512 f = slice p cp f" "part_left c = 0" "part_left c' = snd (tar_next (mem_at f p))"
    using assms by (auto simp: moves_def after_header_def next_header_def slice_def min_def)
  then show ?thesis using True assms(2)
    by (simp add: mtar_rest_def tar_headers.simps [of f p] tar_data.simps [of f p] slice_def)
next
  case False
  with assms(1) have cp: "cp \<le> part_left c"
    and "part_left c' = part_left c - cp \<or> p + cp = length f \<and> part_left c' = 0" by (auto simp: moves_def)
  then consider "part_left c' = part_left c - cp" | "p + cp = length f" "part_left c' = 0" by (elim disjE conjE) blast+
  then show ?thesis
  proof cases
    case 1
    with cp False show ?thesis using slice_split [OF cp, of p f] by (simp add: mtar_rest_def)
  next
    case 2
    with cp False show ?thesis using slice_past [of f p cp "part_left c"] by (simp add: mtar_rest_def slice_def)
  qed
qed

lemma part_left_header: "Next_Chunk_Type c = FILE_HEADER \<Longrightarrow> part_left c = 0"
  by (simp add: part_left_def)

lemma reader_MTar:
  "reader CONTAINER_MAX_SIZE (MTar_body hdr) (mtar_inv hdr big goal) (\<lambda>c. Next_Chunk_Type c \<noteq> FILE_HEADER)"
proof unfold_locales
  fix buf f tot c
  assume buf: "buf = slice tot READ_FILE_SIZE f" and I: "mtar_inv hdr big goal f (tot + localOffset c) c"
    and lt: "localOffset c < length buf"
    and g: "CONTAINER_MAX_SIZE \<le> length buf - localOffset c \<or> tot + length buf = length f"
  let ?off = "localOffset c" and ?len = "length buf - localOffset c" and ?lt = "Next_Chunk_Type c"
  let ?src = "mem_at buf ?off" and ?c = "c\<lparr>localType := Next_Chunk_Type c\<rparr>"
  obtain cp c' where cut: "CutPointTarFast ?c ?src ?len = (cp, c')" by (cases "CutPointTarFast ?c ?src ?len")
  have v: "in_view f (tot + ?off) ?src ?len" using in_view_buffer [OF buf lt _ g] by simp
  have bigc: "?lt = BIG_CHUNK \<Longrightarrow> cdc_ok c" using I by (auto simp: mtar_inv_def part_ok_def)
  have step: "cp \<le> ?len" "part_ok big f (tot + ?off + cp) c'" "moves f (tot + ?off) ?c cp c'"
    using CutPointTarFast_step [OF cut v] I by (auto simp: mtar_inv_def)
  then have cp: "?off + cp \<le> length buf" using lt by simp
  note sl = slice_buffer [OF buf cp] and fr = CutPointTarFast_frame [OF cut]
  have len: "length buf < 2 ^ 32" using buf by (simp add: slice_length size_consts)
  have lt_f: "tot + ?off < length f" using v lt by (auto simp: in_view_def)
  have rest: "mtar_rest hdr f (tot + ?off) c
      = (if (?lt = FILE_HEADER) = hdr then slice (tot + ?off) cp f else []) @ mtar_rest hdr f (tot + ?off + cp) c'"
    using mtar_rest_moves [OF step(3) lt_f, of hdr] part_left_header [of c] by simp
  show "\<exists>c'. MTar_body hdr buf (length buf) c = Some (Inr c') \<and> mtar_inv hdr big goal f (tot + localOffset c') c'
      \<and> localOffset c \<le> localOffset c' \<and> localOffset c' \<le> length buf
      \<and> (localOffset c' = localOffset c \<longrightarrow> Next_Chunk_Type c \<noteq> FILE_HEADER \<and> \<not> Next_Chunk_Type c' \<noteq> FILE_HEADER)"
  proof (cases "cp = 0")
    case True
    have "MTar_body hdr buf (length buf) c = Some (Inr c')"
      using True lt len cut bigc by (auto simp: MTar_body_def Let_def cdc_ok_def)
    with True show ?thesis
      using CutPointTarFast_progress [of ?c ?src ?len c'] cut lt I fr step bigc rest
      by (auto simp: mtar_inv_def slice_def)
  next
    case False
    let ?w = "if (?lt = FILE_HEADER) = hdr then slice (tot + ?off) cp f else []"
    let ?c' = "c'\<lparr>outFile := outFile c @ ?w, localOffset := ?off + cp\<rparr>"
    have "MTar_body hdr buf (length buf) c = Some (Inr ?c')"
      using False lt len cut bigc fr sl cp by (auto simp: MTar_body_def Let_def cdc_ok_def buf_simps)
    moreover have "mtar_inv hdr big goal f (tot + ?off + cp) ?c'"
      using I fr step rest by (auto simp: mtar_inv_def)
    ultimately show ?thesis using cp False by (auto simp: add.assoc)
  qed
qed (auto simp: size_consts mtar_inv_def)

interpretation mtar_data: reader CONTAINER_MAX_SIZE "MTar_body False" "mtar_inv False big goal"
  "\<lambda>c. Next_Chunk_Type c \<noteq> FILE_HEADER" for big goal
  by (rule reader_MTar)

interpretation mtar_hdr: reader CONTAINER_MAX_SIZE "MTar_body True" "mtar_inv True big goal"
  "\<lambda>c. Next_Chunk_Type c \<noteq> FILE_HEADER" for big goal
  by (rule reader_MTar)

section \<open>Correctness\<close>

text \<open>The size field as an archiver writes it: eleven octal digits.\<close>

definition octal_field :: "nat \<Rightarrow> nat \<Rightarrow> byte" where
  "octal_field n i = of_nat (48 + n div 8 ^ (10 - i) mod 8)"

lemma octal_step:
  "i \<le> 10 \<Longrightarrow> (of_nat (n div 8 ^ (11 - i)) :: u64) * 8 + ucast (octal_field n i) - 48 = of_nat (n div 8 ^ (10 - i))"
proof -
  assume i: "i \<le> 10"
  let ?q = "n div 8 ^ (10 - i)"
  have "ucast (octal_field n i) = (of_nat (48 + ?q mod 8) :: u64)"
  proof -
    have "48 + ?q mod 8 < 256" by simp
    then show ?thesis unfolding octal_field_def
      by (simp add: unsigned_of_nat take_bit_nat_eq_self del: of_nat_add)
  qed
  moreover have "n div 8 ^ (11 - i) = ?q div 8"
  proof -
    from i have "11 - i = Suc (10 - i)" by simp
    then have "(8::nat) ^ (11 - i) = 8 ^ (10 - i) * 8" by simp
    then show ?thesis by (simp only: div_mult2_eq)
  qed
  moreover have "of_nat (?q div 8) * 8 + of_nat (48 + ?q mod 8) - 48 = (of_nat (?q div 8 * 8 + ?q mod 8) :: u64)"
    by (simp only: of_nat_add of_nat_mult of_nat_numeral) simp
  ultimately show ?thesis by simp
qed

lemma octal_fold:
  assumes "n < 8 ^ 11" "\<forall>i<11. src (124 + i) = octal_field n i" "k \<le> 11"
  shows "fold (\<lambda>i m. m * 8 + ucast (src (124 + i)) - 48) [0..<k] 0 = (of_nat (n div 8 ^ (11 - k)) :: u64)"
  using assms(3)
proof (induction k)
  case 0
  then show ?case using assms(1) by simp
next
  case (Suc k)
  with assms(2) octal_step [of k n] show ?case by simp
qed

text \<open>
  A regular-file header whose size field holds the octal digits of \<open>n\<close> is decoded exactly: the
  header is cut after 512 bytes and announces a part of \<open>n\<close> bytes rounded up to whole blocks, cut in
  one piece when \<open>n\<close> is at most the container size and split by FastCDC otherwise.
\<close>

theorem CutPointTarFast_regular_header:
  assumes "n < 8 ^ 11" "\<forall>i<11. src (124 + i) = octal_field n i" "src 156 = REGTYPE"
    and "Next_Chunk_Type c = FILE_HEADER" "512 \<le> len" "CutPointTarFast c src len = (cp, c')"
  shows "cp = 512 \<and> Next_Chunk_Size c' = of_nat n \<and> part_left c' = (n + 511) div 512 * 512
    \<and> Next_Chunk_Type c' = (if n \<le> CONTAINER_MAX_SIZE then FILE_CHUNK else BIG_CHUNK)
    \<and> (n \<le> CONTAINER_MAX_SIZE \<longrightarrow> fst (CutPointTarFast c' src' len') = min ((n + 511) div 512 * 512) len')"
proof -
  have sz: "tar_size src = of_nat n" using octal_fold [OF assms(1,2), of 11] by (simp add: tar_size_def)
  have un: "unat (of_nat n :: u64) = n" using assms(1) by (simp add: unat_of_nat take_bit_nat_eq_self)
  have r: "unat (round512 (of_nat n)) = (n + 511) div 512 * 512"
    using un assms(1) by (simp add: round512_def unat_word_ariths unat_div take_bit_nat_eq_self unat_of_nat)
  have le: "(of_nat n :: u64) \<le> of_nat CONTAINER_MAX_SIZE \<longleftrightarrow> n \<le> CONTAINER_MAX_SIZE"
    using un by (simp add: word_le_nat_alt size_consts)
  have cp: "cp = 512" "c' = tar_header src c" using assms(4-6) by (simp_all add: CutPointTarFast_def)
  have "Next_Chunk_Size c' = of_nat n"
    using cp(2) assms(3) sz by (auto simp: tar_header_def Let_def tar_flags)
  moreover have "Next_Chunk_Type c' = (if n \<le> CONTAINER_MAX_SIZE then FILE_CHUNK else BIG_CHUNK)"
    "part_left c' = (n + 511) div 512 * 512"
    using tar_header_next [OF assms(4), of src] cp(2) assms(3) sz le r by (simp_all add: tar_next_def Let_def)
  ultimately show ?thesis using cp(1) r by (auto simp: CutPointTarFast_def Let_def)
qed

definition sample_header :: "nat \<Rightarrow> byte" where
  "sample_header i = (if i = 156 then REGTYPE else if 124 \<le> i then octal_field 700 (i - 124) else 0)"

theorem CutPointTarFast_regular_header_witness:
  "part_left (snd (CutPointTarFast (Chunker_fields TAR) sample_header 2048)) = 1024"
  using CutPointTarFast_regular_header [of 700 sample_header "Chunker_fields TAR" 2048
      "fst (CutPointTarFast (Chunker_fields TAR) sample_header 2048)"
      "snd (CutPointTarFast (Chunker_fields TAR) sample_header 2048)"]
  by (simp add: sample_header_def Chunker_fields_def)

text \<open>
  C17: The tar chunker (\<open>chunkType\<close> 3) returns on every archive whose parts fit (\<open>tar_fits\<close>: no big
  file is truncated) and pushes chunks whose bytes are the archive, in order and without loss.
\<close>

theorem Chunking_TAR_lossless:
  assumes "Chunker_new 3 = Inr c" "tar_fits True f 0"
  shows "\<exists>c'. Chunking f c = Some (Inr c') \<and> mq_done c' \<and> concat (map chunkPtr (outputMQ c')) = f
    \<and> (\<forall>ch \<in> set (outputMQ c'). chunkSize ch = length (chunkPtr ch) \<and> chunkPtr ch \<noteq> [])"
proof -
  have c: "c = ChunkerInit (Chunker_fields TAR)"
    using assms(1) by (simp add: Chunker_new_def ChunkTypeNum_of_int_def)
  have "cdc_ok c \<and> maxChunkSize c = 16384"
    unfolding c cdc_ok_def
    by (simp add: ChunkerInit_def cdc_setup_def Chunker_fields_def Let_def CalNormalSize_le)
  then have "tar_chunked f 0 c"
    using assms(2) unfolding c
    by (simp add: tar_chunked_def part_ok_def part_left_def size_consts)
      (simp add: ChunkerInit_def cdc_setup_def Chunker_fields_def Let_def)
  from tar.read_loop_ok [OF this] show ?thesis
    by (auto simp: Chunking_def tar_chunked_def pieces_simps)
qed

theorem Chunking_TAR_lossless_witness:
  "\<exists>c'. Chunking (replicate 1024 0) (ChunkerInit (Chunker_fields TAR)) = Some (Inr c')
     \<and> concat (map chunkPtr (outputMQ c')) = replicate 1024 0"
proof -
  have z: "tar_next (mem_at (replicate 1024 0) p) = (FILE_CHUNK, 0)" for p
    by (simp add: tar_next_def mem_at_def tar_flags Let_def)
  have "tar_fits True (replicate 1024 0) 0"
    by (simp add: tar_fits.simps next_header_def after_header_def z)
  then show ?thesis
    using Chunking_TAR_lossless [of "ChunkerInit (Chunker_fields TAR)" "replicate 1024 0"]
    by (auto simp: Chunker_new_def ChunkTypeNum_of_int_def)
qed

lemma MTar_pass_ok:
  assumes "maxChunkSize c \<le> CONTAINER_MAX_SIZE" "big \<Longrightarrow> cdc_ok c" "tar_fits big f 0" "Next_Chunk_Type c = FILE_HEADER"
  shows "\<exists>c'. MTar_pass hdr f c = Some (Inr c') \<and> maxChunkSize c' \<le> CONTAINER_MAX_SIZE \<and> (big \<longrightarrow> cdc_ok c')
    \<and> Next_Chunk_Type c' = FILE_HEADER \<and> outFile c' = outFile c @ (if hdr then tar_headers f 0 else tar_data f 0)"
proof -
  let ?g = "outFile c @ (if hdr then tar_headers f 0 else tar_data f 0)"
  have rest: "mtar_rest hdr f 0 c = (if hdr then tar_headers f 0 else tar_data f 0)"
    using assms(4) by (simp add: mtar_rest_def part_left_def slice_def)
  have "mtar_inv hdr big ?g f 0 c"
    using assms rest by (simp add: mtar_inv_def part_ok_def part_left_def)
  from reader.read_loop_ok [OF reader_MTar this]
  obtain c' where c': "read_loop CONTAINER_MAX_SIZE (MTar_body hdr) f c = Some (Inr c')"
    "mtar_inv hdr big ?g f (length f) c'" by blast
  have "mtar_rest hdr f (length f) c' = []" by (simp add: mtar_rest_def slice_def)
  with c' show ?thesis by (auto simp: MTar_pass_def MTar_reset_def mtar_inv_def cdc_ok_def)
qed



lemma CutPointTarFast_ready: "cdcReady (snd (CutPointTarFast c src len)) = cdcReady c"
  using CutPointTarFast_frame(7) [of c src len "fst (CutPointTarFast c src len)" "snd (CutPointTarFast c src len)"] by simp

lemma MTar_body_ready:
  assumes "MTar_body hdr buf len c = Some (Inr c')" "\<not> cdcReady c"
  shows "\<not> cdcReady c'"
proof (cases "(Next_Chunk_Type c = FILE_HEADER) = hdr")
  case True
  from assms show ?thesis
    unfolding MTar_body_def Let_def case_prod_beta option.inject if_P [OF True]
    by (auto simp: CutPointTarFast_ready split: if_split_asm)
next
  case False
  from assms show ?thesis
    unfolding MTar_body_def Let_def case_prod_beta option.inject if_not_P [OF False]
    by (auto simp: CutPointTarFast_ready split: if_split_asm)
qed

lemma MTar_file_ready:
  "MTar_file f c = Some (Inr c') \<Longrightarrow> \<not> cdcReady c \<Longrightarrow> \<not> cdcReady c'"
proof -
  have pass: "\<not> cdcReady c'" if p: "MTar_pass hdr f c = Some (Inr c')" "\<not> cdcReady c" for hdr c c'
  proof -
    from p(1) obtain d where "read_loop CONTAINER_MAX_SIZE (MTar_body hdr) f c = Some (Inr d)" "c' = MTar_reset d"
      by (auto simp: MTar_pass_def rbind_eq_Inr_iff)
    moreover from this(1) have "\<not> cdcReady d"
      by (rule read_loop_keeps) (use p(2) MTar_body_ready in auto)
    ultimately show ?thesis by (simp add: MTar_reset_def)
  qed
  show "MTar_file f c = Some (Inr c') \<Longrightarrow> \<not> cdcReady c \<Longrightarrow> \<not> cdcReady c'"
    by (auto simp: MTar_file_def split: option.splits sum.splits dest!: pass)
qed

lemma MTar_files_ready:
  "MTar_files n ps fs c = Some (Inr (ps', fs', c')) \<Longrightarrow> \<not> cdcReady c \<Longrightarrow> \<not> cdcReady c'"
proof (induction n arbitrary: ps fs c ps')
  case (Suc n)
  then obtain p qs where ps: "ps = p # qs" by (cases ps) simp_all
  let ?f = "case fs p of None \<Rightarrow> [] | Some f \<Rightarrow> f"
  from Suc.prems(1) obtain d qs' where d: "MTar_file ?f c = Some (Inr d)"
    and r: "MTar_files n qs (fs(mtar_path p \<mapsto> outFile d)) d = Some (Inr (qs', fs', c'))"
    unfolding ps MTar_files.simps
    by (cases "MTar_file ?f c") (auto simp: rbind_eq_Inr_iff split: sum.splits)
  from Suc.IH [OF r MTar_file_ready [OF d Suc.prems(2)]] show ?case .
qed simp

text \<open>
  C24: In mode 5 the chunker is switched to FastCDC after the rewrite although \<open>ChunkerInit\<close> never set
  its masks: chunking any non-empty file then reads indeterminate memory.
\<close>

theorem MTar_then_Chunking_indeterminate:
  assumes "Chunker_new 5 = Inr c0" "MTar readfileList backupNum fs c0 = Some (Inr (ps, fs', c))" "f \<noteq> []"
  shows "Chunking f c = Some (Inl Indeterminate)"
proof -
  have c: "chunkType c = FASTCDC" "\<not> cdcReady c"
    using assms(1,2) by (auto simp: Chunker_new_def ChunkTypeNum_of_int_def ChunkerInit_def Chunker_fields_def
        MTar_def MTar_reset_def rbind_eq_Inr_iff dest!: MTar_files_ready)
  let ?buf = "slice 0 READ_FILE_SIZE f" and ?fin = "length f < READ_FILE_SIZE"
  have len: "length ?buf \<noteq> 0" "length ?buf \<le> READ_FILE_SIZE" "?fin \<or> length ?buf = READ_FILE_SIZE"
    using assms(3) by (auto simp: slice_length size_consts)
  then have "read_guard (CONTAINER_MAX_SIZE * 16) (length ?buf) ?fin (c\<lparr>localOffset := 0\<rparr>)"
    by (auto simp: read_guard_def size_consts)
  then have "read_inner (CONTAINER_MAX_SIZE * 16) Chunking_body ?buf ?fin c = Some (Inl Indeterminate)"
    using c by (simp add: read_inner_def rwhile_unfold [of "read_guard _ _ _"] Chunking_body_def Chunking_cut_def Let_def)
  then have "read_pass (CONTAINER_MAX_SIZE * 16) Chunking_body f (c, 0, False) = Some (Inl Indeterminate)"
    using len by (simp add: read_pass_def)
  then show ?thesis by (simp add: Chunking_def read_loop_def rwhile_unfold)
qed

theorem MTar_then_Chunking_indeterminate_witness:
  "Chunking [7] (MTar_reset ((ChunkerInit (Chunker_fields MTAR))\<lparr>chunkType := FASTCDC\<rparr>)) = Some (Inl Indeterminate)"
  by (rule MTar_then_Chunking_indeterminate [of "ChunkerInit (Chunker_fields MTAR)" "[]" 0 Map.empty "[]" Map.empty])
    (simp_all add: Chunker_new_def ChunkTypeNum_of_int_def MTar_def)

end
