(* ===== verification/LruCache.thy ===== *)
theory LruCache
  imports Prelude
begin

text \<open>
  The template \<open>Cache<Key, Value>\<close> of \<open>include/lruCache.h\<close>.  The linked list \<open>keys_\<close> is a list of
  nodes identified by a number (the list iterator), \<open>nodes\<close> is the store that holds what a node
  contains, and \<open>cache_\<close> maps a key to its node.  The abstract state \<open>lru_abs\<close> is the list of
  key-value pairs in order of recency; every operation is shown to refine the corresponding operation
  on that list.  The locale \<open>lru_contract\<close> states what a client may rely on.
\<close>

record ('k, 'v) lru =
  nodes :: "nat \<rightharpoonup> 'k \<times> 'v"
  keys_of :: "nat list"
  cache_of :: "('k \<times> nat) list"
  fresh :: nat
  maxSize :: nat
  elasticity :: nat

section \<open>Operations\<close>

definition lru_new :: "nat \<Rightarrow> nat \<Rightarrow> ('k, 'v) lru" where
  "lru_new mx el = \<lparr>nodes = Map.empty, keys_of = [], cache_of = [], fresh = 0, maxSize = mx, elasticity = el\<rparr>"

definition lru_size :: "('k, 'v) lru \<Rightarrow> nat" where
  "lru_size s = length (cache_of s)"

definition lru_clear :: "('k, 'v) lru \<Rightarrow> ('k, 'v) lru" where
  "lru_clear s = s\<lparr>nodes := Map.empty, keys_of := [], cache_of := []\<rparr>"

definition lru_contains :: "'k \<Rightarrow> ('k, 'v) lru \<Rightarrow> bool" where
  "lru_contains k s = (map_of (cache_of s) k \<noteq> None)"

text \<open>\<open>keys_.splice(keys_.begin(), keys_, it)\<close> moves a node to the front.\<close>

definition splice_front :: "nat \<Rightarrow> nat list \<Rightarrow> nat list" where
  "splice_front n ns = n # remove1 n ns"

text \<open>
  The loop of \<open>prune\<close>.  \<open>keys_.back()\<close> of an empty list and a node that is not in the store are the
  undefined cases.
\<close>

function prune_loop :: "('k, 'v) lru \<Rightarrow> ('k, 'v) lru result" where
  "prune_loop s =
     (if length (cache_of s) > maxSize s then
        if keys_of s = [] then Inl OutOfBounds
        else (case nodes s (last (keys_of s)) of
                None \<Rightarrow> Inl OutOfBounds
              | Some (k, v) \<Rightarrow>
                  prune_loop (s\<lparr>cache_of := AList.delete k (cache_of s),
                                nodes := (nodes s)(last (keys_of s) := None),
                                keys_of := butlast (keys_of s)\<rparr>))
      else Inr s)"
  by pat_completeness auto
termination
  by (relation "measure (\<lambda>s. length (keys_of s))") auto

declare prune_loop.simps [simp del]

definition prune :: "('k, 'v) lru \<Rightarrow> ('k, 'v) lru result" where
  "prune s =
     (if maxSize s = 0 \<or> lru_size s < maxSize s + elasticity s then Inr s else prune_loop s)"

definition lru_insert :: "'k \<Rightarrow> 'v \<Rightarrow> ('k, 'v) lru \<Rightarrow> ('k, 'v) lru result" where
  "lru_insert k v s =
     (case map_of (cache_of s) k of
        Some n \<Rightarrow>
          (case nodes s n of None \<Rightarrow> Inl OutOfBounds
           | Some (k', _) \<Rightarrow> Inr (s\<lparr>nodes := (nodes s)(n \<mapsto> (k', v)), keys_of := splice_front n (keys_of s)\<rparr>))
      | None \<Rightarrow>
          prune (s\<lparr>nodes := (nodes s)(fresh s \<mapsto> (k, v)), keys_of := fresh s # keys_of s,
                   cache_of := AList.update k (fresh s) (cache_of s), fresh := Suc (fresh s)\<rparr>))"

definition lru_tryGet :: "'k \<Rightarrow> ('k, 'v) lru \<Rightarrow> ('v option \<times> ('k, 'v) lru) result" where
  "lru_tryGet k s =
     (case map_of (cache_of s) k of
        None \<Rightarrow> Inr (None, s)
      | Some n \<Rightarrow>
          (case nodes s n of None \<Rightarrow> Inl OutOfBounds
           | Some (_, v) \<Rightarrow> Inr (Some v, s\<lparr>keys_of := splice_front n (keys_of s)\<rparr>)))"

definition lru_get :: "'k \<Rightarrow> ('k, 'v) lru \<Rightarrow> ('v \<times> ('k, 'v) lru) result" where
  "lru_get k s =
     (case map_of (cache_of s) k of
        None \<Rightarrow> Inl KeyNotFound
      | Some n \<Rightarrow>
          (case nodes s n of None \<Rightarrow> Inl OutOfBounds
           | Some (_, v) \<Rightarrow> Inr (v, s\<lparr>keys_of := splice_front n (keys_of s)\<rparr>)))"

definition lru_remove :: "'k \<Rightarrow> ('k, 'v) lru \<Rightarrow> bool \<times> ('k, 'v) lru" where
  "lru_remove k s =
     (case map_of (cache_of s) k of
        None \<Rightarrow> (False, s)
      | Some n \<Rightarrow> (True, s\<lparr>keys_of := remove1 n (keys_of s), nodes := (nodes s)(n := None),
                           cache_of := AList.delete k (cache_of s)\<rparr>))"

definition lru_pruneValue :: "('k, 'v) lru \<Rightarrow> 'v result" where
  "lru_pruneValue s =
     (if keys_of s = [] then Inl OutOfBounds
      else case nodes s (last (keys_of s)) of
             None \<Rightarrow> Inl OutOfBounds
           | Some (k, _) \<Rightarrow>
               (case map_of (cache_of s) k of
                  None \<Rightarrow> Inl KeyNotFound
                | Some n \<Rightarrow> (case nodes s n of None \<Rightarrow> Inl OutOfBounds | Some (_, v) \<Rightarrow> Inr v)))"

section \<open>The abstract cache\<close>

definition lru_abs :: "('k, 'v) lru \<Rightarrow> ('k \<times> 'v) list" where
  "lru_abs s = map (\<lambda>n. the (nodes s n)) (keys_of s)"

definition key_at :: "('k, 'v) lru \<Rightarrow> nat \<Rightarrow> 'k" where
  "key_at s n = fst (the (nodes s n))"

text \<open>
  Every node of the list is in the store and was allocated before, no two nodes have the same key, and
  \<open>cache_\<close> has exactly one entry for each node.
\<close>

definition lru_inv :: "('k, 'v) lru \<Rightarrow> bool" where
  "lru_inv s \<longleftrightarrow> distinct (keys_of s) \<and> set (keys_of s) \<subseteq> dom (nodes s) \<and> (\<forall>n \<in> set (keys_of s). n < fresh s)
     \<and> inj_on (key_at s) (set (keys_of s)) \<and> distinct (map fst (cache_of s))
     \<and> set (cache_of s) = (\<lambda>n. (key_at s n, n)) ` set (keys_of s)"

definition lru_drop :: "'k \<Rightarrow> ('k \<times> 'v) list \<Rightarrow> ('k \<times> 'v) list" where
  "lru_drop k xs = filter (\<lambda>p. fst p \<noteq> k) xs"

definition lru_trim :: "nat \<Rightarrow> nat \<Rightarrow> ('k \<times> 'v) list \<Rightarrow> ('k \<times> 'v) list" where
  "lru_trim mx el xs = (if mx = 0 \<or> length xs < mx + el then xs else take mx xs)"

definition lru_put :: "nat \<Rightarrow> nat \<Rightarrow> 'k \<Rightarrow> 'v \<Rightarrow> ('k \<times> 'v) list \<Rightarrow> ('k \<times> 'v) list" where
  "lru_put mx el k v xs =
     (if k \<in> fst ` set xs then (k, v) # lru_drop k xs else lru_trim mx el ((k, v) # xs))"

section \<open>Refinement\<close>

lemma update_new: "k \<notin> fst ` set al \<Longrightarrow> AList.update k v al = al @ [(k, v)]"
  by (induction al) auto

lemma lru_invD:
  assumes "lru_inv s"
  shows "distinct (keys_of s)" "n \<in> set (keys_of s) \<Longrightarrow> \<exists>v. nodes s n = Some (key_at s n, v)"
    "n \<in> set (keys_of s) \<Longrightarrow> n < fresh s" "inj_on (key_at s) (set (keys_of s))"
    "distinct (map fst (cache_of s))" "set (cache_of s) = (\<lambda>n. (key_at s n, n)) ` set (keys_of s)"
  using assms by (auto simp: lru_inv_def key_at_def)

lemma lru_find:
  assumes "lru_inv s"
  shows "map_of (cache_of s) k = Some n \<longleftrightarrow> n \<in> set (keys_of s) \<and> key_at s n = k"
  using lru_invD(5,6) [OF assms] by (auto simp: map_of_eq_Some_iff)

lemma lru_find_None:
  assumes "lru_inv s"
  shows "map_of (cache_of s) k = None \<longleftrightarrow> k \<notin> fst ` set (lru_abs s)"
proof -
  have "fst ` set (cache_of s) = fst ` set (lru_abs s)"
    unfolding lru_invD(6) [OF assms] lru_abs_def by (simp add: image_image key_at_def)
  then show ?thesis by (simp add: map_of_eq_None_iff)
qed

lemma lru_size_abs:
  assumes "lru_inv s"
  shows "lru_size s = length (lru_abs s)"
proof -
  have "length (cache_of s) = card (set (map fst (cache_of s)))"
    using lru_invD(5) [OF assms] by (simp only: distinct_card length_map)
  also have "set (map fst (cache_of s)) = key_at s ` set (keys_of s)"
    using lru_invD(6) [OF assms] by (simp add: image_image)
  also have "card \<dots> = card (set (keys_of s))" using lru_invD(4) [OF assms] by (rule card_image)
  also have "\<dots> = length (keys_of s)" using lru_invD(1) [OF assms] by (rule distinct_card)
  finally show ?thesis by (simp add: lru_size_def lru_abs_def)
qed

lemma lru_distinct_abs: "lru_inv s \<Longrightarrow> distinct (map fst (lru_abs s))"
  using lru_invD(1,4) [of s] by (auto simp: lru_abs_def distinct_map comp_def key_at_def [symmetric])

lemma lru_abs_drop:
  assumes "lru_inv s" "n \<in> set (keys_of s)"
  shows "map (\<lambda>m. the (nodes s m)) (remove1 n (keys_of s)) = lru_drop (key_at s n) (lru_abs s)"
proof -
  have "remove1 n (keys_of s) = filter (\<lambda>m. m \<noteq> n) (keys_of s)"
    unfolding distinct_remove1_removeAll [OF lru_invD(1) [OF assms(1)]] removeAll_filter_not_eq
    by (rule filter_cong) auto
  also have "\<dots> = filter (\<lambda>m. key_at s m \<noteq> key_at s n) (keys_of s)"
    using lru_invD(4) [OF assms(1)] assms(2) by (intro filter_cong) (auto dest: inj_onD)
  finally show ?thesis by (simp add: lru_drop_def lru_abs_def filter_map comp_def key_at_def)
qed

lemma splice_front_set: "n \<in> set ns \<Longrightarrow> set (splice_front n ns) = set ns"
  by (induction ns) (auto simp: splice_front_def)

lemma splice_front_distinct: "distinct ns \<Longrightarrow> distinct (splice_front n ns)"
  by (simp add: splice_front_def distinct_remove1)

lemma lru_inv_splice:
  assumes "lru_inv s" "n \<in> set (keys_of s)" "nodes s n = Some (k, v)"
  shows "lru_inv (s\<lparr>nodes := (nodes s)(n \<mapsto> (k, v')), keys_of := splice_front n (keys_of s)\<rparr>)"
    and "lru_abs (s\<lparr>nodes := (nodes s)(n \<mapsto> (k, v')), keys_of := splice_front n (keys_of s)\<rparr>)
      = (k, v') # lru_drop k (lru_abs s)"
proof -
  let ?s = "s\<lparr>nodes := (nodes s)(n \<mapsto> (k, v')), keys_of := splice_front n (keys_of s)\<rparr>"
  have "key_at ?s = key_at s" using assms(3) by (auto simp: key_at_def)
  then show "lru_inv ?s"
    using assms(1,2) by (auto simp: lru_inv_def splice_front_set splice_front_distinct)
  have "n \<notin> set (remove1 n (keys_of s))" using lru_invD(1) [OF assms(1)] by simp
  then have "map (\<lambda>m. the (((nodes s)(n \<mapsto> (k, v'))) m)) (remove1 n (keys_of s))
      = map (\<lambda>m. the (nodes s m)) (remove1 n (keys_of s))" by (intro map_cong) auto
  moreover have "key_at s n = k" using assms(3) by (simp add: key_at_def)
  ultimately show "lru_abs ?s = (k, v') # lru_drop k (lru_abs s)"
    using lru_abs_drop [OF assms(1,2)] by (simp add: lru_abs_def splice_front_def)
qed

lemma prune_loop_refines:
  "lru_inv s \<Longrightarrow> \<exists>s'. prune_loop s = Inr s' \<and> lru_inv s' \<and> lru_abs s' = take (maxSize s) (lru_abs s)
     \<and> maxSize s' = maxSize s \<and> elasticity s' = elasticity s"
proof (induction s rule: prune_loop.induct)
  case (1 s)
  show ?case
  proof (cases "length (cache_of s) > maxSize s")
    case False
    then show ?thesis
      using 1 lru_size_abs [of s] by (simp add: prune_loop.simps [of s] lru_size_def)
  next
    case True
    have len: "length (cache_of s) = length (keys_of s)"
      using lru_size_abs [OF "1.prems"] by (simp add: lru_size_def lru_abs_def)
    with True have ne: "keys_of s \<noteq> []" by auto
    let ?n = "last (keys_of s)"
    obtain v where v: "nodes s ?n = Some (key_at s ?n, v)"
      using lru_invD(2) [OF "1.prems"] ne by fastforce
    let ?s = "s\<lparr>cache_of := AList.delete (key_at s ?n) (cache_of s), nodes := (nodes s)(?n := None),
      keys_of := butlast (keys_of s)\<rparr>"
    have kb: "keys_of s = butlast (keys_of s) @ [?n]" using ne by simp
    have nin: "?n \<notin> set (butlast (keys_of s))"
      using lru_invD(1) [OF "1.prems"] kb by (metis distinct_append disjoint_iff list.set_intros(1))
    then have key: "key_at ?s m = key_at s m" if "m \<in> set (butlast (keys_of s))" for m
      using that by (auto simp: key_at_def)
    have sub: "set (butlast (keys_of s)) = set (keys_of s) - {?n}"
      using nin kb by (metis Diff_insert_absorb append_Nil2 list.simps(15) set_append Un_insert_right list.set(1) Un_empty_right)
    have "inj_on (key_at ?s) (set (butlast (keys_of s)))"
      using lru_invD(4) [OF "1.prems"] key sub by (auto simp: inj_on_def)
    moreover have "set (AList.delete (key_at s ?n) (cache_of s)) = (\<lambda>m. (key_at ?s m, m)) ` set (butlast (keys_of s))"
      using lru_invD(4,6) [OF "1.prems"] ne key by (auto simp: AList.delete_eq sub inj_on_def image_iff)
    ultimately have inv: "lru_inv ?s"
      using "1.prems" sub by (auto simp: lru_inv_def distinct_butlast AList.distinct_delete)
    have "lru_abs ?s = butlast (lru_abs s)"
      using nin by (simp add: lru_abs_def map_butlast [symmetric])
    moreover have "prune_loop s = prune_loop ?s"
      using True ne v by (simp add: prune_loop.simps [of s])
    ultimately show ?thesis
      using "1.IH" [OF True ne v refl inv] True len
      by (auto simp: take_butlast lru_abs_def)
  qed
qed

lemma lru_insert_refines:
  assumes "lru_inv s"
  shows "\<exists>s'. lru_insert k v s = Inr s' \<and> lru_inv s' \<and> lru_abs s' = lru_put (maxSize s) (elasticity s) k v (lru_abs s)
    \<and> maxSize s' = maxSize s \<and> elasticity s' = elasticity s"
proof (cases "map_of (cache_of s) k")
  case None
  let ?s = "s\<lparr>nodes := (nodes s)(fresh s \<mapsto> (k, v)), keys_of := fresh s # keys_of s,
    cache_of := AList.update k (fresh s) (cache_of s), fresh := Suc (fresh s)\<rparr>"
  have new: "k \<notin> fst ` set (lru_abs s)" using None lru_find_None [OF assms] by blast
  have fr: "fresh s \<notin> set (keys_of s)" using lru_invD(3) [OF assms] by blast
  then have key: "key_at ?s n = (if n = fresh s then k else key_at s n)" for n by (simp add: key_at_def)
  have "inj_on (key_at ?s) (set (keys_of ?s))"
    using lru_invD(4) [OF assms] new fr by (auto simp: inj_on_def key lru_abs_def key_at_def)
  moreover have "set (cache_of ?s) = (\<lambda>n. (key_at ?s n, n)) ` set (keys_of ?s)"
  proof -
    have "set (AList.update k (fresh s) (cache_of s)) = insert (k, fresh s) (set (cache_of s))"
      using None by (simp add: map_of_eq_None_iff update_new)
    moreover have "(\<lambda>n. (key_at ?s n, n)) ` set (keys_of s) = (\<lambda>n. (key_at s n, n)) ` set (keys_of s)"
      using fr by (intro image_cong) (auto simp: key)
    ultimately show ?thesis using lru_invD(6) [OF assms] by (simp add: key)
  qed
  ultimately have inv: "lru_inv ?s"
    using assms fr by (auto simp: lru_inv_def AList.distinct_update less_Suc_eq)
  have abs: "lru_abs ?s = (k, v) # lru_abs s" using fr by (auto simp: lru_abs_def)
  have "lru_insert k v s = prune ?s" using None by (simp add: lru_insert_def)
  with new show ?thesis
    using prune_loop_refines [OF inv] lru_size_abs [OF inv] inv abs
    by (auto simp: prune_def lru_put_def lru_trim_def)
next
  case (Some n)
  then have n: "n \<in> set (keys_of s)" "key_at s n = k" using lru_find [OF assms] by auto
  then obtain w where w: "nodes s n = Some (k, w)" using lru_invD(2) [OF assms n(1)] by auto
  have "k \<in> fst ` set (lru_abs s)" using Some lru_find_None [OF assms, of k] by auto
  with Some w lru_inv_splice [OF assms n(1) w, of v] show ?thesis
    by (simp add: lru_insert_def lru_put_def)
qed

lemma lru_lookup:
  assumes "lru_inv s"
  shows "map_of (lru_abs s) k = Some v \<longleftrightarrow> (\<exists>n. map_of (cache_of s) k = Some n \<and> nodes s n = Some (k, v))"
proof -
  have "map_of (lru_abs s) k = Some v \<longleftrightarrow> (k, v) \<in> set (lru_abs s)"
    using lru_distinct_abs [OF assms] by (simp add: map_of_eq_Some_iff)
  also have "\<dots> \<longleftrightarrow> (\<exists>n \<in> set (keys_of s). nodes s n = Some (k, v))"
  proof -
    have "(k, v) = the (nodes s n) \<longleftrightarrow> nodes s n = Some (k, v)" if "n \<in> set (keys_of s)" for n
      using lru_invD(2) [OF assms that] by auto
    then show ?thesis by (auto simp: lru_abs_def image_iff)
  qed
  finally show ?thesis using lru_find [OF assms] by (auto simp: key_at_def)
qed

lemma nodes_same: "nodes s n = Some x \<Longrightarrow> s\<lparr>nodes := (nodes s)(n \<mapsto> x), keys_of := ks\<rparr> = s\<lparr>keys_of := ks\<rparr>"
  by (rule lru.equality) auto

lemma lru_get_refines:
  assumes "lru_inv s" "map_of (lru_abs s) k = Some v"
  shows "\<exists>s'. lru_get k s = Inr (v, s') \<and> lru_tryGet k s = Inr (Some v, s') \<and> lru_inv s'
    \<and> lru_abs s' = (k, v) # lru_drop k (lru_abs s) \<and> maxSize s' = maxSize s \<and> elasticity s' = elasticity s"
proof -
  obtain n where n: "map_of (cache_of s) k = Some n" "nodes s n = Some (k, v)"
    using assms by (auto simp: lru_lookup)
  then have "n \<in> set (keys_of s)" using lru_find [OF assms(1)] by blast
  from lru_inv_splice [OF assms(1) this n(2), of v] n show ?thesis
    by (simp add: lru_get_def lru_tryGet_def nodes_same [OF n(2)])
qed

lemma lru_absent:
  assumes "lru_inv s" "map_of (lru_abs s) k = None"
  shows "lru_get k s = Inl KeyNotFound" "lru_tryGet k s = Inr (None, s)"
proof -
  have "map_of (cache_of s) k = None"
    using assms lru_find_None [OF assms(1), of k] by (simp add: map_of_eq_None_iff)
  then show "lru_get k s = Inl KeyNotFound" "lru_tryGet k s = Inr (None, s)"
    by (simp_all add: lru_get_def lru_tryGet_def)
qed

lemma lru_contains_iff: "lru_inv s \<Longrightarrow> lru_contains k s \<longleftrightarrow> map_of (lru_abs s) k \<noteq> None"
  using lru_find_None [of s k] by (simp add: lru_contains_def map_of_eq_None_iff)

lemma lru_pruneValue_last:
  assumes "lru_inv s" "lru_abs s \<noteq> []"
  shows "lru_pruneValue s = Inr (snd (last (lru_abs s)))"
proof -
  have ne: "keys_of s \<noteq> []" using assms(2) by (simp add: lru_abs_def)
  let ?n = "last (keys_of s)"
  have n: "?n \<in> set (keys_of s)" using ne by simp
  obtain v where v: "nodes s ?n = Some (key_at s ?n, v)" using lru_invD(2) [OF assms(1) n] by blast
  moreover have "map_of (cache_of s) (key_at s ?n) = Some ?n" using lru_find [OF assms(1)] n by blast
  ultimately show ?thesis using ne by (simp add: lru_pruneValue_def lru_abs_def last_map)
qed

lemma lru_remove_refines:
  assumes "lru_inv s" "lru_remove k s = (b, s')"
  shows "lru_inv s' \<and> lru_abs s' = lru_drop k (lru_abs s) \<and> b = lru_contains k s"
proof (cases "map_of (cache_of s) k")
  case None
  then have "k \<notin> fst ` set (lru_abs s)" using lru_find_None [OF assms(1)] by blast
  then have "lru_drop k (lru_abs s) = lru_abs s" unfolding lru_drop_def by (intro filter_True) auto
  with None assms show ?thesis by (simp add: lru_remove_def lru_contains_def)
next
  case (Some n)
  then have n: "n \<in> set (keys_of s)" "key_at s n = k" using lru_find [OF assms(1)] by auto
  let ?ks = "remove1 n (keys_of s)"
  have s': "s' = s\<lparr>keys_of := ?ks, nodes := (nodes s)(n := None), cache_of := AList.delete k (cache_of s)\<rparr>"
    and b: "b" using assms(2) Some by (simp_all add: lru_remove_def)
  have sub: "set ?ks = set (keys_of s) - {n}" using lru_invD(1) [OF assms(1)] by simp
  have key: "key_at s' m = key_at s m" if "m \<noteq> n" for m using that by (simp add: s' key_at_def)
  have "inj_on (key_at s') (set ?ks)"
    using lru_invD(4) [OF assms(1)] key sub by (auto simp: inj_on_def)
  moreover have "set (AList.delete k (cache_of s)) = (\<lambda>m. (key_at s' m, m)) ` set ?ks"
    using lru_invD(4,6) [OF assms(1)] n key by (auto simp: AList.delete_eq sub inj_on_def image_iff)
  ultimately have "lru_inv s'"
    using assms(1) sub by (auto simp: s' lru_inv_def distinct_remove1 AList.distinct_delete)
  moreover have "lru_abs s' = map (\<lambda>m. the (nodes s m)) ?ks"
    using sub by (auto simp: s' lru_abs_def)
  ultimately show ?thesis using lru_abs_drop [OF assms(1) n(1)] n b Some by (simp add: lru_contains_def)
qed

lemma lru_drop_remove1: "(k, v) \<in> set xs \<Longrightarrow> distinct (map fst xs) \<Longrightarrow> lru_drop k xs = remove1 (k, v) xs"
proof (induction xs)
  case (Cons x xs)
  show ?case
  proof (cases "x = (k, v)")
    case True
    with Cons.prems(2) have "\<forall>p \<in> set xs. fst p \<noteq> k" by force
    with True show ?thesis by (simp add: lru_drop_def)
  next
    case False
    with Cons.prems(1) have kv: "(k, v) \<in> set xs" by auto
    then have "k \<in> fst ` set xs" by force
    with Cons.prems(2) have "fst x \<noteq> k" by auto
    with kv Cons False show ?thesis by (simp add: lru_drop_def)
  qed
qed simp

section \<open>What a client relies on\<close>

text \<open>
  The contract of a bounded cache without elasticity, over an abstract list of pairs ordered by
  recency; the lemmas of the locale are those the container cache uses.
\<close>

locale lru_contract =
  fixes ins :: "'k \<Rightarrow> 'v \<Rightarrow> 's \<Rightarrow> 's result" and get :: "'k \<Rightarrow> 's \<Rightarrow> ('v \<times> 's) result"
    and has :: "'k \<Rightarrow> 's \<Rightarrow> bool" and sz :: "'s \<Rightarrow> nat" and victim :: "'s \<Rightarrow> 'v result"
    and inv :: "'s \<Rightarrow> bool" and abs :: "'s \<Rightarrow> ('k \<times> 'v) list" and cap :: nat
  assumes cap_pos: "0 < cap"
    and ins_ok: "inv s \<Longrightarrow> \<exists>s'. ins k v s = Inr s' \<and> inv s' \<and> abs s' = lru_put cap 0 k v (abs s)"
    and get_ok: "inv s \<Longrightarrow> map_of (abs s) k = Some v \<Longrightarrow>
      \<exists>s'. get k s = Inr (v, s') \<and> inv s' \<and> abs s' = (k, v) # lru_drop k (abs s)"
    and get_absent: "inv s \<Longrightarrow> map_of (abs s) k = None \<Longrightarrow> get k s = Inl KeyNotFound"
    and has_iff: "inv s \<Longrightarrow> has k s \<longleftrightarrow> map_of (abs s) k \<noteq> None"
    and sz_eq: "inv s \<Longrightarrow> sz s = length (abs s)"
    and victim_eq: "inv s \<Longrightarrow> abs s \<noteq> [] \<Longrightarrow> victim s = Inr (snd (last (abs s)))"
    and keys_distinct: "inv s \<Longrightarrow> distinct (map fst (abs s))"
begin

lemma ins_room:
  assumes "inv s" "\<not> has k s" "sz s < cap"
  shows "\<exists>s'. ins k v s = Inr s' \<and> inv s' \<and> abs s' = (k, v) # abs s"
  using ins_ok [OF assms(1), of k v] assms has_iff [OF assms(1), of k] sz_eq [OF assms(1)]
  by (auto simp: lru_put_def lru_trim_def map_of_eq_None_iff)

lemma ins_full:
  assumes "inv s" "\<not> has k s" "sz s = cap"
  shows "\<exists>s'. ins k v s = Inr s' \<and> inv s' \<and> abs s' = (k, v) # butlast (abs s)"
proof -
  have "take cap ((k, v) # abs s) = (k, v) # butlast (abs s)"
    using assms(3) sz_eq [OF assms(1)] cap_pos by (cases cap) (simp_all add: butlast_conv_take)
  then show ?thesis
    using ins_ok [OF assms(1), of k v] assms has_iff [OF assms(1), of k] sz_eq [OF assms(1)]
    by (auto simp: lru_put_def lru_trim_def map_of_eq_None_iff)
qed

lemma drop_perm:
  assumes "inv s" "map_of (abs s) k = Some v"
  shows "set ((k, v) # lru_drop k (abs s)) = set (abs s)" "length ((k, v) # lru_drop k (abs s)) = length (abs s)"
proof -
  have kv: "(k, v) \<in> set (abs s)" using assms(2) by (rule map_of_SomeD)
  have drop: "lru_drop k (abs s) = remove1 (k, v) (abs s)"
    using lru_drop_remove1 [OF kv keys_distinct [OF assms(1)]] .
  have d: "distinct (abs s)" using keys_distinct [OF assms(1)] by (simp add: distinct_map)
  show "set ((k, v) # lru_drop k (abs s)) = set (abs s)" using kv d by (auto simp: drop)
  show "length ((k, v) # lru_drop k (abs s)) = length (abs s)"
    using kv length_pos_if_in_set [OF kv] by (simp add: drop length_remove1)
qed

lemma get_keeps:
  assumes "inv s" "map_of (abs s) k = Some v"
  shows "\<exists>s'. get k s = Inr (v, s') \<and> inv s' \<and> set (abs s') = set (abs s) \<and> sz s' = sz s"
  using get_ok [OF assms] drop_perm [OF assms] sz_eq assms(1) by metis

end

definition bounded_inv :: "nat \<Rightarrow> ('k, 'v) lru \<Rightarrow> bool" where
  "bounded_inv cap s \<longleftrightarrow> lru_inv s \<and> maxSize s = cap \<and> elasticity s = 0"

lemma lru_is_contract:
  assumes "0 < cap"
  shows "lru_contract lru_insert lru_get lru_contains lru_size lru_pruneValue (bounded_inv cap) lru_abs cap"
  using assms lru_insert_refines lru_get_refines lru_absent(1) lru_contains_iff lru_size_abs
    lru_pruneValue_last lru_distinct_abs
  unfolding bounded_inv_def by unfold_locales (fastforce+)

lemma lru_new_inv: "lru_inv (lru_new mx el)" "lru_abs (lru_new mx el) = []"
  by (simp_all add: lru_inv_def lru_new_def lru_abs_def)

end
