(* ===== verification/ReadCache.thy ===== *)
theory ReadCache
  imports LruCache Definitions
begin

text \<open>
  The container cache, \<open>src/util/readCache.cc\<close>: an LRU cache from container names to slots of a pool of
  64 buffers of 4 MiB.  A slot of the pool is the list of the bytes written to it so far.  The
  abstract state \<open>cached\<close> maps a name to what its slot holds.
\<close>

record ReadCache =
  readCache :: "(string, nat) lru"
  containerPool :: "byte list list"
  currentIndex :: nat

definition ReadCache_new :: ReadCache where
  "ReadCache_new = \<lparr>readCache = lru_new CONTAINER_CACHE_SIZE 0,
     containerPool = replicate CONTAINER_CACHE_SIZE [], currentIndex = 0\<rparr>"

text \<open>\<open>memcpy(containerPool_[i], data, length)\<close>; \<open>data\<close> has to provide \<open>length\<close> bytes and the slot to hold them.\<close>

definition pool_write :: "nat \<Rightarrow> byte list \<Rightarrow> nat \<Rightarrow> byte list list \<Rightarrow> byte list list result" where
  "pool_write i data n pool =
     (if i < length pool \<and> n \<le> length data \<and> n \<le> CONTAINER_MAX_SIZE
      then Inr (pool[i := overwrite 0 (take n data) (pool ! i)]) else Inl OutOfBounds)"

definition InsertToCache :: "string \<Rightarrow> byte list \<Rightarrow> nat \<Rightarrow> ReadCache \<Rightarrow> ReadCache result" where
  "InsertToCache name data n rc =
     (if lru_size (readCache rc) + 1 > CONTAINER_CACHE_SIZE then
        rbind (lru_pruneValue (readCache rc)) (\<lambda>i.
        rbind (pool_write i data n (containerPool rc)) (\<lambda>pool.
        rbind (lru_insert name i (readCache rc)) (\<lambda>c.
        Inr (rc\<lparr>containerPool := pool, readCache := c\<rparr>))))
      else
        rbind (pool_write (currentIndex rc) data n (containerPool rc)) (\<lambda>pool.
        rbind (lru_insert name (currentIndex rc) (readCache rc)) (\<lambda>c.
        Inr (rc\<lparr>containerPool := pool, readCache := c, currentIndex := Suc (currentIndex rc)\<rparr>))))"

definition ExistsInCache :: "string \<Rightarrow> ReadCache \<Rightarrow> bool" where
  "ExistsInCache name rc = lru_contains name (readCache rc)"

definition ReadFromCache :: "string \<Rightarrow> ReadCache \<Rightarrow> (byte list \<times> ReadCache) result" where
  "ReadFromCache name rc =
     rbind (lru_get name (readCache rc)) (\<lambda>(i, c).
       if i < length (containerPool rc) then Inr (containerPool rc ! i, rc\<lparr>readCache := c\<rparr>)
       else Inl OutOfBounds)"

section \<open>Invariant and abstraction\<close>

interpretation rc_lru: lru_contract lru_insert lru_get lru_contains lru_size lru_pruneValue
  "bounded_inv CONTAINER_CACHE_SIZE" lru_abs CONTAINER_CACHE_SIZE
  by (rule lru_is_contract) (simp add: size_consts)

definition rc_inv :: "ReadCache \<Rightarrow> bool" where
  "rc_inv rc \<longleftrightarrow> bounded_inv CONTAINER_CACHE_SIZE (readCache rc)
     \<and> length (containerPool rc) = CONTAINER_CACHE_SIZE \<and> currentIndex rc = lru_size (readCache rc)
     \<and> currentIndex rc \<le> CONTAINER_CACHE_SIZE
     \<and> distinct (map snd (lru_abs (readCache rc))) \<and> (\<forall>i \<in> snd ` set (lru_abs (readCache rc)). i < currentIndex rc)"

definition cached :: "ReadCache \<Rightarrow> string \<rightharpoonup> byte list" where
  "cached rc name = map_option (\<lambda>i. containerPool rc ! i) (map_of (lru_abs (readCache rc)) name)"

definition victim_name :: "ReadCache \<Rightarrow> string" where
  "victim_name rc = fst (last (lru_abs (readCache rc)))"

lemma rc_new_inv: "rc_inv ReadCache_new" "cached ReadCache_new = Map.empty"
  by (auto simp: rc_inv_def ReadCache_new_def bounded_inv_def lru_new_inv lru_size_abs cached_def)
    (simp_all add: lru_new_def)

lemma ExistsInCache_iff: "rc_inv rc \<Longrightarrow> ExistsInCache name rc \<longleftrightarrow> name \<in> dom (cached rc)"
  using rc_lru.has_iff [of "readCache rc" name]
  by (auto simp: rc_inv_def ExistsInCache_def cached_def)

lemma pool_write_ok:
  "i < length pool \<Longrightarrow> n \<le> length data \<Longrightarrow> n \<le> CONTAINER_MAX_SIZE \<Longrightarrow>
   \<exists>pool'. pool_write i data n pool = Inr pool' \<and> length pool' = length pool \<and> take n (pool' ! i) = take n data
     \<and> (\<forall>j. j \<noteq> i \<longrightarrow> pool' ! j = pool ! j)"
  by (auto simp: pool_write_def overwrite_def)

lemma cached_cons:
  assumes "map_of xs name = None" "distinct (map snd xs)" "i \<notin> snd ` set xs" "\<forall>j. j \<noteq> i \<longrightarrow> pool' ! j = pool ! j"
  shows "map_option ((!) pool') (map_of ((name, i) # xs) m)
    = (if m = name then Some (pool' ! i) else map_option ((!) pool) (map_of xs m))"
proof (cases "map_of xs m")
  case (Some j)
  then have "j \<in> snd ` set xs" by (force dest: map_of_SomeD)
  with assms(3,4) have "pool' ! j = pool ! j" by auto
  with Some show ?thesis by simp
qed simp

lemma InsertToCache_room:
  assumes rc: "rc_inv rc" "\<not> ExistsInCache name rc" "currentIndex rc < CONTAINER_CACHE_SIZE"
    and n: "n \<le> length data" "n \<le> CONTAINER_MAX_SIZE"
  shows "\<exists>rc'. InsertToCache name data n rc = Inr rc' \<and> rc_inv rc'
    \<and> (\<exists>slot. cached rc' = (cached rc)(name \<mapsto> slot) \<and> take n slot = take n data)"
proof -
  let ?i = "currentIndex rc" and ?xs = "lru_abs (readCache rc)"
  obtain pool' where p: "pool_write ?i data n (containerPool rc) = Inr pool'" "length pool' = length (containerPool rc)"
    "take n (pool' ! ?i) = take n data" "\<forall>j. j \<noteq> ?i \<longrightarrow> pool' ! j = containerPool rc ! j"
    using pool_write_ok [of ?i "containerPool rc" n data] rc n by (auto simp: rc_inv_def)
  obtain c' where c': "lru_insert name ?i (readCache rc) = Inr c'" "bounded_inv CONTAINER_CACHE_SIZE c'"
    "lru_abs c' = (name, ?i) # ?xs"
    using rc_lru.ins_room [of "readCache rc" name ?i] rc by (auto simp: rc_inv_def ExistsInCache_def)
  have none: "map_of ?xs name = None" using rc ExistsInCache_iff [of rc name] by (auto simp: cached_def)
  let ?rc = "rc\<lparr>containerPool := pool', readCache := c', currentIndex := Suc ?i\<rparr>"
  have "InsertToCache name data n rc = Inr ?rc"
    using rc p c' by (simp add: InsertToCache_def rc_inv_def)
  moreover have "rc_inv ?rc"
    using rc p(2) c' rc_lru.sz_eq [of "readCache rc"] rc_lru.sz_eq [of c']
    by (auto simp: rc_inv_def less_Suc_eq)
  moreover have "cached ?rc = (cached rc)(name \<mapsto> pool' ! ?i)"
  proof -
    have "distinct (map snd ?xs)" "?i \<notin> snd ` set ?xs" using rc by (auto simp: rc_inv_def)
    from cached_cons [OF none this p(4)] c'(3) show ?thesis by (auto simp: cached_def fun_eq_iff)
  qed
  ultimately show ?thesis using p(3) by blast
qed

lemma InsertToCache_full:
  assumes rc: "rc_inv rc" "\<not> ExistsInCache name rc" "currentIndex rc = CONTAINER_CACHE_SIZE"
    and n: "n \<le> length data" "n \<le> CONTAINER_MAX_SIZE"
  shows "\<exists>rc'. InsertToCache name data n rc = Inr rc' \<and> rc_inv rc'
    \<and> (\<exists>slot. cached rc' = (cached rc)(victim_name rc := None, name \<mapsto> slot) \<and> take n slot = take n data)"
proof -
  let ?xs = "lru_abs (readCache rc)"
  let ?i = "snd (last ?xs)"
  have b: "bounded_inv CONTAINER_CACHE_SIZE (readCache rc)" and d: "distinct (map snd ?xs)"
    and sz: "lru_size (readCache rc) = CONTAINER_CACHE_SIZE" using rc by (simp_all add: rc_inv_def)
  have ne: "?xs \<noteq> []" using rc_lru.sz_eq [OF b] sz by (auto simp: size_consts)
  then have xs: "?xs = butlast ?xs @ [(victim_name rc, ?i)]" by (simp add: victim_name_def)
  have "?i \<in> snd ` set ?xs" using ne by simp
  with rc have i: "?i < length (containerPool rc)" by (auto simp: rc_inv_def)
  obtain pool' where p: "pool_write ?i data n (containerPool rc) = Inr pool'" "length pool' = length (containerPool rc)"
    "take n (pool' ! ?i) = take n data" "\<forall>j. j \<noteq> ?i \<longrightarrow> pool' ! j = containerPool rc ! j"
    using pool_write_ok [OF i n] by auto
  obtain c' where c': "lru_insert name ?i (readCache rc) = Inr c'" "bounded_inv CONTAINER_CACHE_SIZE c'"
    "lru_abs c' = (name, ?i) # butlast ?xs"
    using rc_lru.ins_full [OF b _ sz, of name ?i] rc by (auto simp: ExistsInCache_def)
  have "distinct (map snd (butlast ?xs)) \<and> ?i \<notin> snd ` set (butlast ?xs)"
    using d by (subst (asm) xs) (simp only: map_append distinct_append list.map snd_conv list.set set_map, blast)
  moreover have "distinct (map fst (butlast ?xs)) \<and> victim_name rc \<notin> fst ` set (butlast ?xs)"
    using rc_lru.keys_distinct [OF b]
    by (subst (asm) xs) (simp only: map_append distinct_append list.map fst_conv list.set set_map, blast)
  ultimately have db: "distinct (map snd (butlast ?xs))" "?i \<notin> snd ` set (butlast ?xs)"
    "victim_name rc \<notin> fst ` set (butlast ?xs)" by auto
  have none: "map_of ?xs name = None" using rc ExistsInCache_iff [of rc name] by (auto simp: cached_def)
  then have none': "map_of (butlast ?xs) name = None" by (auto simp: map_of_eq_None_iff dest: in_set_butlastD)
  have vic: "map_of (butlast ?xs) = (map_of ?xs)(victim_name rc := None)"
    using db(3) by (subst (2) xs) (auto simp: fun_eq_iff map_add_def map_of_eq_None_iff split: option.splits)
  let ?rc = "rc\<lparr>containerPool := pool', readCache := c'\<rparr>"
  have "InsertToCache name data n rc = Inr ?rc"
    using sz p c' rc_lru.victim_eq [OF b ne] by (simp add: InsertToCache_def)
  moreover have "rc_inv ?rc"
    using rc p(2) c' rc_lru.sz_eq [OF b] rc_lru.sz_eq [OF c'(2)] ne db i
    by (auto simp: rc_inv_def dest!: in_set_butlastD)
  moreover have "cached ?rc = (cached rc)(victim_name rc := None, name \<mapsto> pool' ! ?i)"
    using cached_cons [OF none' db(1,2) p(4)] c'(3) by (auto simp: cached_def fun_eq_iff vic)
  ultimately show ?thesis using p(3) by blast
qed

lemma InsertToCache_ok:
  assumes "rc_inv rc" "\<not> ExistsInCache name rc" "n \<le> length data" "n \<le> CONTAINER_MAX_SIZE"
  shows "\<exists>rc' slot. InsertToCache name data n rc = Inr rc' \<and> rc_inv rc'
    \<and> cached rc' = ((if currentIndex rc < CONTAINER_CACHE_SIZE then cached rc
                      else (cached rc)(victim_name rc := None))(name \<mapsto> slot)) \<and> take n slot = take n data"
  using InsertToCache_room [OF assms(1,2) _ assms(3,4)] InsertToCache_full [OF assms(1,2) _ assms(3,4)] assms(1)
  by (cases "currentIndex rc < CONTAINER_CACHE_SIZE") (auto simp: rc_inv_def)

lemma ReadFromCache_ok:
  assumes "rc_inv rc" "cached rc name = Some slot"
  shows "\<exists>rc'. ReadFromCache name rc = Inr (slot, rc') \<and> rc_inv rc' \<and> cached rc' = cached rc"
proof -
  let ?xs = "lru_abs (readCache rc)"
  from assms obtain i where i: "map_of ?xs name = Some i" "slot = containerPool rc ! i"
    by (auto simp: cached_def)
  have b: "bounded_inv CONTAINER_CACHE_SIZE (readCache rc)" using assms by (simp add: rc_inv_def)
  obtain c' where c': "lru_get name (readCache rc) = Inr (i, c')" "bounded_inv CONTAINER_CACHE_SIZE c'"
    "set (lru_abs c') = set ?xs" "lru_size c' = lru_size (readCache rc)"
    using rc_lru.get_keeps [OF b i(1)] by blast
  have "i \<in> snd ` set ?xs" using i(1) by (force dest: map_of_SomeD)
  with assms have ib: "i < length (containerPool rc)" by (auto simp: rc_inv_def)
  have len: "length (lru_abs c') = length ?xs" using rc_lru.sz_eq [OF c'(2)] rc_lru.sz_eq [OF b] c'(4) by simp
  have "card (snd ` set ?xs) = length ?xs"
    using distinct_card [of "map snd ?xs"] assms by (simp add: rc_inv_def)
  then have "distinct (map snd (lru_abs c'))"
    using c'(3) len by (intro card_distinct) simp
  then have "rc_inv (rc\<lparr>readCache := c'\<rparr>)"
    using assms c' by (auto simp: rc_inv_def)
  moreover have "map_of (lru_abs c') = map_of ?xs"
    using map_of_inject_set [of "lru_abs c'" ?xs] rc_lru.keys_distinct b c' by blast
  ultimately show ?thesis using c'(1) ib i by (auto simp: ReadFromCache_def cached_def fun_eq_iff)
qed



text \<open>
  C15: The container cache behaves as a map.  Inserting a container that is not cached makes its bytes
  readable under its name, evicts the least recently used container when all 64 slots are taken and
  changes no other entry (no two names share a slot); reading a cached name returns its slot and
  changes nothing but the recency.
\<close>

theorem ReadCache_is_map:
  assumes "rc_inv rc" "\<not> ExistsInCache name rc" "n \<le> length data" "n \<le> CONTAINER_MAX_SIZE"
  shows "\<exists>rc' slot rc''. InsertToCache name data n rc = Inr rc' \<and> rc_inv rc'
    \<and> cached rc' = ((if currentIndex rc < CONTAINER_CACHE_SIZE then cached rc
                      else (cached rc)(victim_name rc := None))(name \<mapsto> slot))
    \<and> take n slot = take n data
    \<and> ReadFromCache name rc' = Inr (slot, rc'') \<and> rc_inv rc'' \<and> cached rc'' = cached rc'"
proof -
  obtain rc' slot where r: "InsertToCache name data n rc = Inr rc'" "rc_inv rc'"
    "cached rc' = ((if currentIndex rc < CONTAINER_CACHE_SIZE then cached rc
                      else (cached rc)(victim_name rc := None))(name \<mapsto> slot))" "take n slot = take n data"
    using InsertToCache_ok [OF assms] by blast
  have "cached rc' name = Some slot" unfolding r(3) by simp
  from ReadFromCache_ok [OF r(2) this] r show ?thesis by blast
qed

theorem ReadCache_is_map_witness:
  "\<exists>rc' slot rc''. InsertToCache ''c0'' [1, 2] 2 ReadCache_new = Inr rc'
     \<and> ReadFromCache ''c0'' rc' = Inr (slot, rc'') \<and> take 2 slot = [1, 2]"
proof -
  have "\<not> ExistsInCache ''c0'' ReadCache_new" using rc_new_inv by (simp add: ExistsInCache_iff)
  from ReadCache_is_map [OF rc_new_inv(1) this, of 2 "[1, 2]"] show ?thesis
    by (auto simp: size_consts)
qed

text \<open>
  A pointer obtained from the cache stays valid over the next insertion: the slot that was read
  last is never the one that is evicted, so a delta chunk read from the cache is not overwritten while
  the container of its base chunk is loaded.
\<close>

theorem ReadFromCache_survives:
  assumes "rc_inv rc" "ReadFromCache name rc = Inr (slot, rc')" "\<not> ExistsInCache other rc'"
    and "n \<le> length data" "n \<le> CONTAINER_MAX_SIZE" "InsertToCache other data n rc' = Inr rc''"
  shows "cached rc'' name = Some slot"
proof -
  have b: "bounded_inv CONTAINER_CACHE_SIZE (readCache rc)" using assms(1) by (simp add: rc_inv_def)
  from assms(2) obtain i c' where i: "lru_get name (readCache rc) = Inr (i, c')" "rc' = rc\<lparr>readCache := c'\<rparr>"
    by (auto simp: ReadFromCache_def rbind_eq_Inr_iff split: if_splits)
  have hit: "map_of (lru_abs (readCache rc)) name = Some i"
    using i(1) rc_lru.get_absent [OF b, of name] rc_lru.get_ok [OF b, of name]
    by (cases "map_of (lru_abs (readCache rc)) name") auto
  have abs: "lru_abs c' = (name, i) # lru_drop name (lru_abs (readCache rc))" "bounded_inv CONTAINER_CACHE_SIZE c'"
    using rc_lru.get_ok [OF b hit] i(1) by auto
  obtain rc1 where r: "ReadFromCache name rc = Inr (containerPool rc ! i, rc1)" "rc_inv rc1" "cached rc1 = cached rc"
    using ReadFromCache_ok [OF assms(1), of name "containerPool rc ! i"] hit by (auto simp: cached_def)
  with assms(2) have inv': "rc_inv rc'" and c: "cached rc' name = Some slot"
    using hit by (auto simp: cached_def)
  have "victim_name rc' \<noteq> name" if full: "\<not> currentIndex rc' < CONTAINER_CACHE_SIZE"
  proof -
    have "length (lru_abs c') = CONTAINER_CACHE_SIZE"
      using inv' full rc_lru.sz_eq [OF abs(2)] i(2) by (simp add: rc_inv_def)
    then have "lru_drop name (lru_abs (readCache rc)) \<noteq> []" using abs(1) by (auto simp: size_consts)
    then have "last (lru_abs c') \<in> set (lru_drop name (lru_abs (readCache rc)))" using abs(1) by simp
    then show ?thesis using i(2) by (auto simp: victim_name_def lru_drop_def)
  qed
  moreover have "other \<noteq> name" using assms(3) c ExistsInCache_iff [OF inv', of other] by auto
  moreover obtain s where "cached rc'' = ((if currentIndex rc' < CONTAINER_CACHE_SIZE then cached rc'
      else (cached rc')(victim_name rc' := None))(other \<mapsto> s))"
    using InsertToCache_ok [OF inv' assms(3,4,5)] assms(6) by auto
  ultimately show ?thesis using c by auto
qed

theorem ReadFromCache_survives_witness:
  "\<exists>rc rc' rc'' slot. InsertToCache ''c0'' [1, 2] 2 ReadCache_new = Inr rc \<and> ReadFromCache ''c0'' rc = Inr (slot, rc')
     \<and> InsertToCache ''c1'' [3] 1 rc' = Inr rc'' \<and> cached rc'' ''c0'' = Some slot"
proof -
  have "\<not> ExistsInCache ''c0'' ReadCache_new" using rc_new_inv by (simp add: ExistsInCache_iff)
  then obtain rc s where r: "InsertToCache ''c0'' [1, 2] 2 ReadCache_new = Inr rc" "rc_inv rc"
    "cached rc = [''c0'' \<mapsto> s]"
    using InsertToCache_ok [OF rc_new_inv(1), of "''c0''" 2 "[1, 2]"] rc_new_inv(2)
    by (auto simp: size_consts ReadCache_new_def)
  then obtain rc' where r': "ReadFromCache ''c0'' rc = Inr (s, rc')" "rc_inv rc'" "cached rc' = [''c0'' \<mapsto> s]"
    using ReadFromCache_ok [of rc "''c0''" s] by auto
  then have ne: "\<not> ExistsInCache ''c1'' rc'" by (simp add: ExistsInCache_iff)
  then obtain rc'' where "InsertToCache ''c1'' [3] 1 rc' = Inr rc''"
    using InsertToCache_ok [OF r'(2), of "''c1''" 1 "[3]"] by (auto simp: size_consts)
  with ReadFromCache_survives [OF r(2) r'(1) ne, of 1 "[3]"] r r' show ?thesis
    by (auto simp: size_consts)
qed

end
