(* ===== verification/DataWrite.thy ===== *)
theory DataWrite
  imports ReadCache Tar
begin

text \<open>
  The container store, \<open>src/datawrite/datawrite.cc\<close>: chunks are appended to the current container,
  full containers are written to \<open>./Containers/<id>\<close> (a 64-bit little-endian size followed by the
  data), chunks are read back from the current container, from the container cache or from the file,
  and backups are restored from their recipes.

  \<open>containerNum\<close>, \<open>curContainer\<close> and \<open>curOffset\<close> are \<open>static\<close> in the header, so each translation unit
  has its own; the fields here are those of \<open>datawrite.cc\<close>.  \<open>fs\<close> is the file system and \<open>writable\<close>
  tells which paths can be opened for writing.  A chunk returned by \<open>Get_Chunk_Info\<close> carries the bytes
  its pointer refers to at that moment; a pointer into the cache stays valid over the next insertion
  because the slot is then the most recently used one (\<open>ReadFromCache_survives\<close>).
  Timers are left out.
\<close>

text \<open>
  The code the methods call and this development does not contain: xdelta3 (a static library) and
  OpenSSL's SHA-256, and LZ4 behind its interface (theory \<open>LZ4\<close> provides the code).  The codecs get the capacity of the output buffer
  and return nothing when they fail; SHA-256 returns nothing when one of the EVP calls fails.
\<close>

record env =
  lz4_compress :: "byte list \<Rightarrow> nat \<Rightarrow> byte list option"
  lz4_decompress :: "byte list \<Rightarrow> nat \<Rightarrow> byte list option"
  xd3_encode_memory :: "byte list \<Rightarrow> byte list \<Rightarrow> nat \<Rightarrow> byte list option"
  xd3_decode_memory :: "byte list \<Rightarrow> byte list \<Rightarrow> nat \<Rightarrow> byte list option"
  sha256 :: "byte list \<Rightarrow> byte list option"

record dataWrite =
  chunkNum :: nat
  containerSize :: nat
  filename :: string
  loadContainerTimes :: nat
  cacheHitTimes :: nat
  RecipeMap :: "string \<Rightarrow> nat list"
  RecipeMap_header :: "string \<Rightarrow> nat list"
  containerCache :: ReadCache
  chunklist :: "Chunk_t list"
  containerNum :: nat
  curContainer :: Container_t
  curOffset :: nat
  fs :: "string \<rightharpoonup> byte list"
  writable :: "string \<Rightarrow> bool"
  dw_Next_Chunk_Type :: FILE_TYPE_OPTION
  dw_Next_Chunk_Size :: u64
  dw_Big_Chunk_Size :: u64
  dw_Big_Chunk_Offset :: u64
  MultiHeaderBuffer :: "byte list"
  MultiHeaderChunkSize :: nat
  MultiHeaderOffset :: nat
  dw_normalSize :: u32
  dw_maskS :: u32
  dw_maskL :: u32

section \<open>Helpers\<close>

text \<open>\<open>to_string\<close> of an unsigned number and the file it names.\<close>

fun to_string :: "nat \<Rightarrow> string" where
  "to_string n = (if n < 10 then [] else to_string (n div 10)) @ [char_of (48 + n mod 10)]"

declare to_string.simps [simp del]

definition container_path :: "nat \<Rightarrow> string" where
  "container_path n = ''./Containers/'' @ to_string n"

text \<open>The object representation of an unsigned integer, least significant byte first.\<close>

fun le_bytes :: "nat \<Rightarrow> nat \<Rightarrow> byte list" where
  "le_bytes 0 n = []"
| "le_bytes (Suc k) n = of_nat n # le_bytes k (n div 256)"

fun of_le :: "byte list \<Rightarrow> nat" where
  "of_le [] = 0"
| "of_le (b # bs) = unat b + 256 * of_le bs"

definition dw_CompareLimit :: "u32 \<Rightarrow> u32 \<Rightarrow> u32 \<Rightarrow> u32" where
  "dw_CompareLimit input lower upper =
     (if input \<le> lower then lower else if input \<ge> upper then upper else input)"

definition dw_DivCeil :: "u32 \<Rightarrow> u32 \<Rightarrow> u32" where
  "dw_DivCeil a b = (let tmp = a div b in if a mod b = 0 then tmp else tmp + 1)"

definition dw_CalNormalSize :: "u32 \<Rightarrow> u32 \<Rightarrow> u32 \<Rightarrow> u32" where
  "dw_CalNormalSize mn av mx =
     (let off = mn + dw_DivCeil mn 2;
          off = (if off > av then av else off);
          diff = av - off
      in if diff > mx then mx else diff)"

definition dw_GenerateFastCDCMask :: "u32 \<Rightarrow> u32" where
  "dw_GenerateFastCDCMask b = push_bit (unat (dw_CompareLimit b 1 31)) 1 - 1"

section \<open>Construction\<close>

definition dataWrite_new :: "(string \<rightharpoonup> byte list) \<Rightarrow> (string \<Rightarrow> bool) \<Rightarrow> dataWrite" where
  "dataWrite_new f w =
     (let bits = of_nat (round_log2 8192) in
      \<lparr>chunkNum = 0, containerSize = 0, filename = [], loadContainerTimes = 0, cacheHitTimes = 0,
       RecipeMap = (\<lambda>_. []), RecipeMap_header = (\<lambda>_. []), containerCache = ReadCache_new, chunklist = [],
       containerNum = 0, curContainer = \<lparr>c_size = 0, c_chunkNum = 0, c_containerID = 0, c_data = []\<rparr>,
       curOffset = 0, fs = f, writable = w,
       dw_Next_Chunk_Type = FILE_HEADER, dw_Next_Chunk_Size = 0, dw_Big_Chunk_Size = 0, dw_Big_Chunk_Offset = 0,
       MultiHeaderBuffer = [], MultiHeaderChunkSize = 0, MultiHeaderOffset = 0,
       dw_normalSize = dw_CalNormalSize 4096 8192 16384,
       dw_maskS = dw_GenerateFastCDCMask (bits + 1), dw_maskL = dw_GenerateFastCDCMask (bits - 1)\<rparr>)"

definition dw_SetFilename :: "string \<Rightarrow> dataWrite \<Rightarrow> dataWrite" where
  "dw_SetFilename name dw = dw\<lparr>filename := name\<rparr>"

section \<open>Writing chunks\<close>

definition container_file :: "Container_t \<Rightarrow> byte list" where
  "container_file c = le_bytes 8 (c_size c) @ take (c_size c) (c_data c)"

text \<open>Writing the current container to its file; nothing is written when the file cannot be opened.\<close>

definition write_container :: "Container_t \<Rightarrow> dataWrite \<Rightarrow> dataWrite" where
  "write_container c dw =
     (if writable dw (container_path (c_containerID c))
      then dw\<lparr>fs := (fs dw)(container_path (c_containerID c) \<mapsto> container_file c)\<rparr> else dw)"

definition next_container :: "dataWrite \<Rightarrow> dataWrite" where
  "next_container dw =
     (let n = Suc (containerNum dw) in
      dw\<lparr>containerNum := n, containerSize := 0, curOffset := 0,
         curContainer := (curContainer dw)\<lparr>c_size := 0, c_containerID := n, c_chunkNum := 0\<rparr>\<rparr>)"

text \<open>
  The part the three insertion routines share: count the chunk, start a new container when the
  \<open>tmpSize\<close> bytes do not fit, and copy them behind the current offset.  \<open>memcpy\<close> past the source or
  past the 4 MiB array is out of bounds.  The result carries the chunk with its place.
\<close>

definition place_chunk :: "byte list \<Rightarrow> nat \<Rightarrow> Chunk_t \<Rightarrow> dataWrite \<Rightarrow> (Chunk_t \<times> dataWrite) result" where
  "place_chunk src tmpSize chunk dw =
     (let dw = dw\<lparr>chunkNum := Suc (chunkNum dw), containerSize := containerSize dw + saveSize chunk,
                  curContainer := (curContainer dw)\<lparr>c_chunkNum := Suc (c_chunkNum (curContainer dw))\<rparr>\<rparr>;
          dw = (if c_size (curContainer dw) + tmpSize > CONTAINER_MAX_SIZE
                then next_container (write_container (curContainer dw) dw) else dw);
          chunk = chunk\<lparr>containerID := containerNum dw, offset := curOffset dw\<rparr>;
          cc = curContainer dw
      in if tmpSize \<le> length src \<and> curOffset dw + tmpSize \<le> CONTAINER_MAX_SIZE
         then Inr (chunk\<lparr>chunkPtr := []\<rparr>,
                   dw\<lparr>curContainer := cc\<lparr>c_size := c_size cc + tmpSize,
                                        c_data := overwrite (curOffset dw) (take tmpSize src) (c_data cc)\<rparr>,
                      curOffset := curOffset dw + tmpSize\<rparr>)
         else Inl OutOfBounds)"

definition stored_size :: "Chunk_t \<Rightarrow> nat" where
  "stored_size chunk = (if deltaFlag chunk = NO_DELTA then chunkSize chunk else saveSize chunk)"

definition Chunk_Insert :: "Chunk_t \<Rightarrow> dataWrite \<Rightarrow> dataWrite result" where
  "Chunk_Insert chunk dw =
     rbind (place_chunk (chunkPtr chunk) (stored_size chunk) chunk dw)
       (\<lambda>(chunk, dw). Inr (dw\<lparr>chunklist := chunklist dw @ [chunk]\<rparr>))"

definition Chunk_Insert_lz4 :: "Chunk_t \<Rightarrow> byte list \<Rightarrow> dataWrite \<Rightarrow> dataWrite result" where
  "Chunk_Insert_lz4 chunk lz4Buffer dw =
     rbind (place_chunk lz4Buffer (saveSize chunk) chunk dw)
       (\<lambda>(chunk, dw). Inr (dw\<lparr>chunklist := chunklist dw @ [chunk]\<rparr>))"

text \<open>\<open>writing\<close> consumes the chunks of a queue; it places them but does not enter them in \<open>chunklist\<close>.\<close>

definition writing_chunk :: "dataWrite \<Rightarrow> Chunk_t \<Rightarrow> dataWrite result" where
  "writing_chunk dw chunk =
     rbind (place_chunk (chunkPtr chunk) (stored_size chunk) chunk dw) (\<lambda>(_, dw). Inr dw)"

definition writing :: "Chunk_t list \<Rightarrow> dataWrite \<Rightarrow> dataWrite result" where
  "writing chunks dw = rfold writing_chunk dw chunks"

definition ProcessLastContainer :: "dataWrite \<Rightarrow> dataWrite" where
  "ProcessLastContainer dw =
     (if c_size (curContainer dw) \<noteq> 0 then write_container (curContainer dw) dw else dw)"

definition writeContainers :: "Container_t list \<Rightarrow> dataWrite \<Rightarrow> dataWrite" where
  "writeContainers cs dw = fold write_container cs dw"

definition Get_Chunk_Num :: "dataWrite \<Rightarrow> nat" where
  "Get_Chunk_Num dw = chunkNum dw"

definition Get_Container_Num :: "Chunk_t \<Rightarrow> dataWrite \<Rightarrow> nat" where
  "Get_Container_Num chunk dw =
     (if containerSize dw + saveSize chunk > CONTAINER_MAX_SIZE then containerNum dw + 1 else containerNum dw)"

definition Recipe_Insert :: "nat \<Rightarrow> dataWrite \<Rightarrow> dataWrite" where
  "Recipe_Insert i dw = dw\<lparr>RecipeMap := (RecipeMap dw)(filename dw := RecipeMap dw (filename dw) @ [i])\<rparr>"

definition Recipe_Header_Insert :: "nat \<Rightarrow> dataWrite \<Rightarrow> dataWrite" where
  "Recipe_Header_Insert i dw =
     dw\<lparr>RecipeMap_header := (RecipeMap_header dw)(filename dw := RecipeMap_header dw (filename dw) @ [i])\<rparr>"

section \<open>Reading chunks\<close>

definition chunk_at :: "int \<Rightarrow> dataWrite \<Rightarrow> Chunk_t result" where
  "chunk_at i dw = (if 0 \<le> i \<and> nat i < length (chunklist dw) then Inr (chunklist dw ! nat i) else Inl OutOfBounds)"

definition Get_Chunk_MetaInfo :: "int \<Rightarrow> dataWrite \<Rightarrow> Chunk_t result" where
  "Get_Chunk_MetaInfo i dw = chunk_at i dw"

definition isLz4 :: "int \<Rightarrow> dataWrite \<Rightarrow> bool result" where
  "isLz4 i dw = rbind (chunk_at i dw) (\<lambda>ch. Inr (deltaFlag ch = NO_DELTA))"

text \<open>
  The bytes of a chunk, from the data of its container: a copy for a delta or uncompressed chunk, the
  LZ4 output otherwise.  The result of \<open>LZ4_decompress_safe\<close> is ignored by the source: when it fails
  or yields fewer bytes than the chunk has, the copy reads bytes that were never written.
\<close>

definition chunk_bytes :: "env \<Rightarrow> mc_error \<Rightarrow> Chunk_t \<Rightarrow> byte list \<Rightarrow> byte list result" where
  "chunk_bytes x e ch data =
     (if offset ch + saveSize ch \<le> length data then
        let src = slice (offset ch) (saveSize ch) data in
        if deltaFlag ch \<noteq> NO_DELTA then Inr src
        else (case lz4_decompress x src CONTAINER_MAX_SIZE of
                None \<Rightarrow> Inl Indeterminate
              | Some out \<Rightarrow> if chunkSize ch \<le> length out then Inr (take (chunkSize ch) out) else Inl Indeterminate)
      else Inl e)"

definition read_container :: "byte list \<Rightarrow> byte list result" where
  "read_container file =
     (if length file < 8 then Inl Indeterminate
      else let size = of_le (take 8 file) in Inr (zslice 8 size file))"

definition Get_Chunk_Info :: "env \<Rightarrow> int \<Rightarrow> dataWrite \<Rightarrow> (Chunk_t \<times> dataWrite) result" where
  "Get_Chunk_Info x i dw =
     rbind (chunk_at i dw) (\<lambda>ch.
     let name = to_string (containerID ch);
         finish = (\<lambda>ptr disk dw. let ch = ch\<lparr>chunkPtr := ptr, loadFromDisk := disk\<rparr>
                    in Inr (ch, dw\<lparr>chunklist := (chunklist dw)[nat i := ch]\<rparr>))
     in if ExistsInCache name (containerCache dw) then
          rbind (ReadFromCache name (containerCache dw)) (\<lambda>(slot, rc).
          rbind (chunk_bytes x Indeterminate ch slot) (\<lambda>ptr.
          finish ptr (deltaFlag ch = NO_DELTA)
            (dw\<lparr>containerCache := rc, cacheHitTimes := Suc (cacheHitTimes dw)\<rparr>)))
        else if containerID ch \<noteq> containerNum dw then
          (case fs dw (''./Containers/'' @ name) of
             None \<Rightarrow> Inl Indeterminate
           | Some file \<Rightarrow>
               rbind (read_container file) (\<lambda>container.
               rbind (chunk_bytes x OutOfBounds ch container) (\<lambda>ptr.
               rbind (InsertToCache name container (length container) (containerCache dw)) (\<lambda>rc.
               finish ptr True
                 (dw\<lparr>containerCache := rc, loadContainerTimes := Suc (loadContainerTimes dw)\<rparr>)))))
        else
          rbind (chunk_bytes x Indeterminate ch (c_data (curContainer dw))) (\<lambda>ptr.
          finish ptr (deltaFlag ch = NO_DELTA) dw))"

definition xd3_decode :: "env \<Rightarrow> byte list \<Rightarrow> byte list \<Rightarrow> byte list result" where
  "xd3_decode x inp ref =
     (case xd3_decode_memory x inp ref (CONTAINER_MAX_SIZE * 2) of
        None \<Rightarrow> Inl Indeterminate | Some out \<Rightarrow> Inr out)"

text \<open>\<open>read_ptr n xs\<close>: reading \<open>n\<close> bytes through a pointer to \<open>xs\<close>.\<close>

definition read_ptr :: "nat \<Rightarrow> byte list \<Rightarrow> byte list result" where
  "read_ptr n xs = (if n \<le> length xs then Inr (take n xs) else Inl OutOfBounds)"

section \<open>Restoring backups\<close>

text \<open>
  The block the restore routines repeat: fetch a chunk; write its bytes, or fetch its base and write
  the decoded delta.
\<close>

definition restore_chunk :: "env \<Rightarrow> int \<Rightarrow> dataWrite \<Rightarrow> (byte list \<times> Chunk_t \<times> dataWrite) result" where
  "restore_chunk x i dw =
     rbind (Get_Chunk_Info x i dw) (\<lambda>(ch, dw).
       if deltaFlag ch = NO_DELTA \<or> deltaFlag ch = NO_LZ4
       then rbind (read_ptr (chunkSize ch) (chunkPtr ch)) (\<lambda>bs. Inr (bs, ch, dw))
       else
         rbind (Get_Chunk_Info x (basechunkID ch) dw) (\<lambda>(base, dw).
         rbind (read_ptr (saveSize ch) (chunkPtr ch)) (\<lambda>inp.
         rbind (read_ptr (chunkSize base) (chunkPtr base)) (\<lambda>ref.
         rbind (xd3_decode x inp ref) (\<lambda>res.
         rbind (read_ptr (chunkSize ch) res) (\<lambda>bs. Inr (bs, ch, dw)))))))"

definition restore_path :: "string \<Rightarrow> string" where
  "restore_path name = ''./restoreFile/'' @ file_name name"

definition restore_step :: "env \<Rightarrow> byte list \<times> dataWrite \<Rightarrow> nat \<Rightarrow> (byte list \<times> dataWrite) result" where
  "restore_step x = (\<lambda>(out, dw) recipe.
     rbind (restore_chunk x (int recipe) dw) (\<lambda>(bs, _, dw). Inr (out @ bs, dw)))"

definition write_restored :: "string \<Rightarrow> byte list \<Rightarrow> dataWrite \<Rightarrow> dataWrite" where
  "write_restored name out dw =
     (if writable dw (restore_path name) then dw\<lparr>fs := (fs dw)(restore_path name \<mapsto> out)\<rparr> else dw)"

definition restoreFile :: "env \<Rightarrow> string \<Rightarrow> dataWrite \<Rightarrow> dataWrite result" where
  "restoreFile x name dw =
     rbind (rfold (restore_step x) ([], dw) (RecipeMap dw name))
       (\<lambda>(out, dw). Inr (write_restored name out dw))"

subsection \<open>Tar headers on restore\<close>

text \<open>
  \<open>dataWrite::CutPointTarFast\<close> works on 32-bit lengths; its \<open>AREGTYPE\<close> branch keeps the size field
  read without the offset of the digits, which \<open>Chunker::CutPointTarFast\<close> replaces by 0.
\<close>

definition dw_tar_raw_size :: "(nat \<Rightarrow> byte) \<Rightarrow> u64" where
  "dw_tar_raw_size src = fold (\<lambda>i n. n * 8 + ucast (src (124 + i))) [0..<11] 0"

definition dw_set_size :: "u64 \<Rightarrow> dataWrite \<Rightarrow> dataWrite" where
  "dw_set_size n dw =
     (let dw = dw\<lparr>dw_Next_Chunk_Size := n\<rparr> in
      if n \<le> of_nat CONTAINER_MAX_SIZE then dw\<lparr>dw_Next_Chunk_Type := FILE_CHUNK\<rparr>
      else dw\<lparr>dw_Next_Chunk_Type := BIG_CHUNK, dw_Big_Chunk_Size := round512 n, dw_Big_Chunk_Offset := 0\<rparr>)"

definition dw_tar_header :: "(nat \<Rightarrow> byte) \<Rightarrow> dataWrite \<Rightarrow> dataWrite" where
  "dw_tar_header src dw =
     (let flag = src 156;
          dw = dw\<lparr>dw_Next_Chunk_Size := tar_size src\<rparr>;
          dw = (if flag = REGTYPE then dw_set_size (tar_size src) dw else dw);
          dw = (if flag = AREGTYPE then dw_set_size (dw_tar_raw_size src) dw else dw)
      in if flag = XHDTYPE \<or> flag = GNUTYPE_LONGNAME then dw\<lparr>dw_Next_Chunk_Type := FILE_CHUNK\<rparr> else dw)"

definition dw_CutPointFastCDC :: "dataWrite \<Rightarrow> (nat \<Rightarrow> byte) \<Rightarrow> u32 \<Rightarrow> u32" where
  "dw_CutPointFastCDC dw src len =
     (let i = min (unat len) 4096;
          n = min (unat (dw_normalSize dw)) (unat len);
          (i, fp, ret) = cdc_scan src (dw_maskS dw) i n 0
      in if ret then of_nat i
         else let n = min 16384 (unat len);
                  (i, fp, ret) = cdc_scan src (dw_maskL dw) i n fp
              in of_nat i)"

definition dw_CutPointTarFast :: "dataWrite \<Rightarrow> (nat \<Rightarrow> byte) \<Rightarrow> u32 \<Rightarrow> u32 \<times> dataWrite" where
  "dw_CutPointTarFast dw src len =
     (case dw_Next_Chunk_Type dw of
        FILE_HEADER \<Rightarrow> (if len \<ge> 512 then 512 else len, dw_tar_header src dw)
      | FILE_CHUNK \<Rightarrow>
          (let roundedUp = ucast (round512 (dw_Next_Chunk_Size dw))
           in (if roundedUp < len then roundedUp else len,
               dw\<lparr>dw_Next_Chunk_Type := FILE_HEADER, dw_Next_Chunk_Size := 512\<rparr>))
      | BIG_CHUNK \<Rightarrow>
          (let rest = dw_Big_Chunk_Size dw - dw_Big_Chunk_Offset dw in
           if rest > 16384 then
             let cp = dw_CutPointFastCDC dw src (ucast rest)
             in (cp, dw\<lparr>dw_Big_Chunk_Offset := dw_Big_Chunk_Offset dw + ucast cp\<rparr>)
           else (ucast rest, dw\<lparr>dw_Next_Chunk_Type := FILE_HEADER\<rparr>)))"

text \<open>
  \<open>restoreHeaderFile\<close>: the loop state is the store, the two recipe pointers and the bytes written.
  The header buffer has 8192 bytes; bytes of it that were never written are indeterminate.
\<close>

type_synonym hdr_state = "dataWrite \<times> nat list \<times> nat list \<times> byte list"

definition restore_refill :: "env \<Rightarrow> dataWrite \<Rightarrow> nat list \<Rightarrow> (dataWrite \<times> nat list) result" where
  "restore_refill x dw hs =
     (case hs of
        h # hs' \<Rightarrow>
          (if MultiHeaderChunkSize dw = MultiHeaderOffset dw then
             rbind (restore_chunk x (int h) dw) (\<lambda>(bs, ch, dw).
               if chunkSize ch \<le> 16 * 512
               then Inr (dw\<lparr>MultiHeaderChunkSize := chunkSize ch, MultiHeaderOffset := 0,
                            MultiHeaderBuffer := overwrite 0 bs (MultiHeaderBuffer dw)\<rparr>, hs')
               else Inl OutOfBounds)
           else Inr (dw, hs))
      | [] \<Rightarrow> Inr (dw, hs))"

fun restore_big :: "env \<Rightarrow> u64 \<Rightarrow> nat list \<Rightarrow> dataWrite \<Rightarrow> byte list \<Rightarrow> (dataWrite \<times> nat list \<times> byte list) result" where
  "restore_big x left [] dw out = (if left = 0 then Inr (dw, [], out) else Inl OutOfBounds)"
| "restore_big x left (d # ds) dw out =
     (if left = 0 then Inr (dw, d # ds, out)
      else rbind (restore_chunk x (int d) dw) (\<lambda>(bs, ch, dw).
             restore_big x (left - of_nat (chunkSize ch)) ds dw (out @ bs)))"

definition restore_header_body :: "env \<Rightarrow> hdr_state \<Rightarrow> hdr_state result" where
  "restore_header_body x = (\<lambda>(dw, hs, ds, out).
     rbind (restore_refill x dw hs) (\<lambda>(dw, hs).
     let off = MultiHeaderOffset dw; buf = MultiHeaderBuffer dw in
     if off + HeaderSize \<le> length buf then
       let dw = snd (dw_CutPointTarFast (dw\<lparr>dw_Next_Chunk_Type := FILE_HEADER\<rparr>) (mem_at buf off)
                       (of_nat (usub64 (MultiHeaderChunkSize dw) off)));
           out = out @ slice off HeaderSize buf;
           dw = dw\<lparr>MultiHeaderOffset := off + HeaderSize\<rparr>
       in if dw_Next_Chunk_Size dw = 0 then Inr (dw, hs, ds, out)
          else (case (dw_Next_Chunk_Type dw, ds) of
                  (FILE_CHUNK, d # ds') \<Rightarrow>
                    rbind (restore_chunk x (int d) dw) (\<lambda>(bs, _, dw). Inr (dw, hs, ds', out @ bs))
                | (BIG_CHUNK, d # ds') \<Rightarrow>
                    rbind (restore_big x (dw_Big_Chunk_Size dw) ds dw out) (\<lambda>(dw, ds, out). Inr (dw, hs, ds, out))
                | _ \<Rightarrow> Inr (dw, hs, ds, out))
     else Inl (if off + HeaderSize \<le> 16 * 512 then Indeterminate else OutOfBounds)))"

definition restore_header_guard :: "hdr_state \<Rightarrow> bool" where
  "restore_header_guard = (\<lambda>(dw, hs, ds, out).
     hs \<noteq> [] \<or> ds \<noteq> [] \<or> MultiHeaderChunkSize dw \<noteq> MultiHeaderOffset dw)"

definition restoreHeaderFile :: "env \<Rightarrow> string \<Rightarrow> dataWrite \<Rightarrow> dataWrite result option" where
  "restoreHeaderFile x name dw =
     map_option (\<lambda>r. rbind r (\<lambda>(dw, _, _, out).
         Inr ((write_restored name out dw)\<lparr>dw_Next_Chunk_Type := FILE_HEADER\<rparr>)))
       (rwhile restore_header_guard (\<lambda>s. Some (restore_header_body x s))
          (dw, RecipeMap_header dw name, RecipeMap dw name, []))"

end
