(* ===== verification/Store.thy ===== *)
theory Store
  imports DataWrite
begin

text \<open>
  Correctness of the container store: the representation invariant \<open>dw_inv\<close>, the append-only content
  of the containers, and the abstract view of the store as a list of payloads that insertions extend
  and reads return.  The locale \<open>chunk_store\<close> states that view as a contract; the pipelines rely on it.
\<close>

section \<open>Names and sizes in files\<close>

lemma to_string_last: "last (to_string n) = char_of (48 + n mod 10)"
  by (simp add: to_string.simps [of n])

lemma to_string_butlast: "butlast (to_string n) = (if n < 10 then [] else to_string (n div 10))"
  by (simp add: to_string.simps [of n])

lemma to_string_ne [simp]: "to_string n \<noteq> []" "[] \<noteq> to_string n"
  by (simp_all add: to_string.simps [of n])

lemma char_digit_inj: "a < 10 \<Longrightarrow> b < 10 \<Longrightarrow> char_of (48 + a :: nat) = char_of (48 + b) \<Longrightarrow> a = b"
proof -
  assume "a < 10" "b < 10" and eq: "char_of (48 + a :: nat) = char_of (48 + b)"
  from eq have "of_char (char_of (48 + a)) = (of_char (char_of (48 + b)) :: nat)" by simp
  with \<open>a < 10\<close> \<open>b < 10\<close> show ?thesis by (simp add: take_bit_nat_eq_self)
qed

lemma to_string_inj: "to_string m = to_string n \<Longrightarrow> m = n"
proof (induction m arbitrary: n rule: to_string.induct)
  case (1 m)
  from "1.prems" have "char_of (48 + m mod 10 :: nat) = char_of (48 + n mod 10)"
    using to_string_last by metis
  then have d: "m mod 10 = n mod 10" by (rule char_digit_inj [rotated 2]) simp_all
  from "1.prems" have b: "(if m < 10 then [] else to_string (m div 10)) = (if n < 10 then [] else to_string (n div 10))"
    using to_string_butlast by metis
  show ?case
  proof (cases "m < 10")
    case True
    with b have "n < 10" by (simp split: if_splits)
    with d True show ?thesis by simp
  next
    case False
    with b have "\<not> n < 10" by (auto split: if_splits)
    with b False have "m div 10 = n div 10" using "1.IH" by simp
    with d show ?thesis by (metis div_mult_mod_eq)
  qed
qed

lemma container_path_inj [simp]: "container_path m = container_path n \<longleftrightarrow> m = n"
  by (auto simp: container_path_def dest: to_string_inj)

lemma le_bytes_length [simp]: "length (le_bytes k n) = k"
  by (induction k arbitrary: n) auto

lemma of_le_bytes: "n < 256 ^ k \<Longrightarrow> of_le (le_bytes k n) = n"
proof (induction k arbitrary: n)
  case (Suc k)
  then have "n div 256 < 256 ^ k" by (simp add: less_mult_imp_div_less mult.commute)
  with Suc.IH show ?case by (simp add: unsigned_of_nat take_bit_eq_mod)
qed simp

lemma read_container_file:
  assumes "length data \<le> CONTAINER_MAX_SIZE"
  shows "read_container (le_bytes 8 (length data) @ data) = Inr data"
proof -
  have "length data < 256 ^ 8" using assms by (simp add: size_consts)
  then show ?thesis by (simp add: read_container_def of_le_bytes zslice_def slice_def)
qed

section \<open>The invariant\<close>

definition container_data :: "dataWrite \<Rightarrow> nat \<Rightarrow> byte list" where
  "container_data dw cid =
     (if cid = containerNum dw then take (c_size (curContainer dw)) (c_data (curContainer dw))
      else case fs dw (container_path cid) of None \<Rightarrow> [] | Some file \<Rightarrow> drop 8 file)"

definition file_ok :: "dataWrite \<Rightarrow> nat \<Rightarrow> bool" where
  "file_ok dw cid \<longleftrightarrow> (\<exists>data. fs dw (container_path cid) = Some (le_bytes 8 (length data) @ data)
     \<and> length data \<le> CONTAINER_MAX_SIZE)"

definition cur_ok :: "dataWrite \<Rightarrow> bool" where
  "cur_ok dw \<longleftrightarrow> c_containerID (curContainer dw) = containerNum dw \<and> c_size (curContainer dw) = curOffset dw
     \<and> curOffset dw \<le> CONTAINER_MAX_SIZE \<and> curOffset dw \<le> length (c_data (curContainer dw))"

definition cache_ok :: "dataWrite \<Rightarrow> bool" where
  "cache_ok dw \<longleftrightarrow> rc_inv (containerCache dw) \<and> (\<forall>name slot. cached (containerCache dw) name = Some slot \<longrightarrow>
     (\<exists>cid < containerNum dw. name = to_string cid
        \<and> take (length (container_data dw cid)) slot = container_data dw cid))"

definition placed :: "dataWrite \<Rightarrow> Chunk_t \<Rightarrow> bool" where
  "placed dw ch \<longleftrightarrow> containerID ch \<le> containerNum dw
     \<and> offset ch + saveSize ch \<le> length (container_data dw (containerID ch))"

definition dw_inv :: "dataWrite \<Rightarrow> bool" where
  "dw_inv dw \<longleftrightarrow> (\<forall>cid < containerNum dw. file_ok dw cid) \<and> cur_ok dw \<and> cache_ok dw
     \<and> (\<forall>ch \<in> set (chunklist dw). placed dw ch) \<and> (\<forall>cid. writable dw (container_path cid))"

definition payload :: "dataWrite \<Rightarrow> Chunk_t \<Rightarrow> byte list" where
  "payload dw ch = slice (offset ch) (saveSize ch) (container_data dw (containerID ch))"

text \<open>What a step of the store keeps: containers only grow, and only at the end.\<close>

definition grows :: "dataWrite \<Rightarrow> dataWrite \<Rightarrow> bool" where
  "grows dw dw' \<longleftrightarrow> containerNum dw \<le> containerNum dw' \<and> (\<forall>cid \<le> containerNum dw.
     take (length (container_data dw cid)) (container_data dw' cid) = container_data dw cid)"

lemma grows_refl [simp]: "grows dw dw"
  by (simp add: grows_def)

lemma take_prefix_trans:
  "take (length a) b = a \<Longrightarrow> take (length b) c = b \<Longrightarrow> take (length a) c = a"
  by (metis (no_types, lifting) length_take min.absorb_iff2 min.cobounded1 take_take min.absorb1)

lemma grows_trans: "grows a b \<Longrightarrow> grows b c \<Longrightarrow> grows a c"
  unfolding grows_def by (metis le_trans take_prefix_trans)

lemma prefix_length: "take (length a) b = a \<Longrightarrow> length a \<le> length b"
  by (metis length_take min.cobounded1)

lemma grows_placed:
  assumes "grows dw dw'" "placed dw ch"
  shows "placed dw' ch \<and> payload dw' ch = payload dw ch"
proof -
  let ?a = "container_data dw (containerID ch)" and ?b = "container_data dw' (containerID ch)"
  have p: "take (length ?a) ?b = ?a" using assms by (auto simp: grows_def placed_def)
  then have "slice (offset ch) (saveSize ch) ?a = slice (offset ch) (saveSize ch) ?b"
    using assms(2) slice_take [of "offset ch" "saveSize ch" "length ?a" ?b] by (simp add: placed_def)
  with assms prefix_length [OF p] show ?thesis by (auto simp: grows_def placed_def payload_def)
qed

section \<open>Insertions\<close>

lemma write_container_fs:
  "writable dw (container_path (c_containerID c)) \<Longrightarrow>
   write_container c dw = dw\<lparr>fs := (fs dw)(container_path (c_containerID c) \<mapsto> container_file c)\<rparr>"
  by (simp add: write_container_def)

lemma cache_ok_grows:
  assumes "cache_ok dw" "grows dw dw'" "containerCache dw' = containerCache dw"
    and "\<And>cid. cid < containerNum dw \<Longrightarrow> container_data dw' cid = container_data dw cid"
  shows "cache_ok dw'"
  using assms unfolding cache_ok_def grows_def by (metis order_less_le_trans)

text \<open>Closing a full container keeps everything that was stored and leaves an empty container.\<close>

lemma flush_ok:
  assumes inv: "dw_inv dw"
  defines "dw' \<equiv> next_container (write_container (curContainer dw) dw)"
  shows "dw_inv dw'" "grows dw dw'" "chunklist dw' = chunklist dw" "curOffset dw' = 0"
    "RecipeMap dw' = RecipeMap dw" "RecipeMap_header dw' = RecipeMap_header dw" "filename dw' = filename dw"
    "writable dw' = writable dw"
proof -
  let ?n = "containerNum dw"
  have cur: "cur_ok dw" and w: "\<forall>cid. writable dw (container_path cid)" using inv by (simp_all add: dw_inv_def)
  let ?data = "container_data dw ?n"
  have len: "length ?data = curOffset dw" "length ?data \<le> CONTAINER_MAX_SIZE"
    using cur by (auto simp: container_data_def cur_ok_def)
  have cfile: "container_file (curContainer dw) = le_bytes 8 (length ?data) @ ?data"
    using cur len(1) by (simp add: container_file_def container_data_def cur_ok_def)
  have fs: "fs dw' = (fs dw)(container_path ?n \<mapsto> le_bytes 8 (length ?data) @ ?data)"
    and num: "containerNum dw' = Suc ?n"
    using cur w by (simp_all add: dw'_def next_container_def write_container_fs cur_ok_def cfile Let_def)
  have same: "container_data dw' cid = container_data dw cid" if "cid \<le> ?n" for cid
    using that num by (cases "cid = ?n") (simp_all add: container_data_def [of dw'] fs container_data_def [of dw])
  have empty: "container_data dw' (Suc ?n) = []"
    by (simp add: container_data_def dw'_def next_container_def write_container_def Let_def)
  show g: "grows dw dw'" using same num by (simp add: grows_def)
  show l: "chunklist dw' = chunklist dw" "curOffset dw' = 0" "RecipeMap dw' = RecipeMap dw"
    "RecipeMap_header dw' = RecipeMap_header dw" "filename dw' = filename dw"
    by (simp_all add: dw'_def next_container_def write_container_def Let_def)
  have "file_ok dw' cid" if "cid < Suc ?n" for cid
  proof (cases "cid = ?n")
    case True
    with len fs show ?thesis by (auto simp: file_ok_def)
  next
    case False
    with that inv fs show ?thesis by (simp add: dw_inv_def file_ok_def less_Suc_eq)
  qed
  moreover have "cur_ok dw'"
    by (simp add: cur_ok_def dw'_def next_container_def write_container_def Let_def)
  moreover have "cache_ok dw'"
  proof (rule cache_ok_grows [OF _ g _ same])
    show "cache_ok dw" using inv by (simp add: dw_inv_def)
    show "containerCache dw' = containerCache dw"
      by (simp add: dw'_def next_container_def write_container_def Let_def)
  qed simp
  moreover have "placed dw' ch" if "ch \<in> set (chunklist dw')" for ch
    using that inv l(1) grows_placed [OF g] by (simp add: dw_inv_def)
  moreover show wr: "writable dw' = writable dw"
    by (simp add: dw'_def next_container_def write_container_def Let_def)
  ultimately show "dw_inv dw'" using w num wr by (simp add: dw_inv_def)
qed

lemma append_ok:
  assumes inv: "dw_inv dw" and fit: "curOffset dw + n \<le> CONTAINER_MAX_SIZE" and src: "n \<le> length src"
  defines "dw' \<equiv> dw\<lparr>curContainer := (curContainer dw)\<lparr>c_size := c_size (curContainer dw) + n,
      c_data := overwrite (curOffset dw) (take n src) (c_data (curContainer dw))\<rparr>, curOffset := curOffset dw + n\<rparr>"
  shows "dw_inv dw'" "grows dw dw'"
    "slice (curOffset dw) n (container_data dw' (containerNum dw)) = take n src"
    "length (container_data dw' (containerNum dw)) = curOffset dw + n"
proof -
  let ?n = "containerNum dw" and ?cc = "curContainer dw"
  have cur: "cur_ok dw" using inv by (simp add: dw_inv_def)
  have data: "container_data dw' ?n = container_data dw ?n @ take n src"
    using cur src take_overwrite [of "curOffset dw" "c_data ?cc" "take n src"]
    by (simp add: container_data_def dw'_def cur_ok_def)
  have len: "length (container_data dw ?n) = curOffset dw"
    using cur by (simp add: container_data_def cur_ok_def)
  have other: "container_data dw' cid = container_data dw cid" if "cid \<noteq> ?n" for cid
    using that by (simp add: container_data_def dw'_def)
  show g: "grows dw dw'"
    unfolding grows_def
  proof (intro conjI allI impI)
    show "containerNum dw \<le> containerNum dw'" by (simp add: dw'_def)
    fix cid show "take (length (container_data dw cid)) (container_data dw' cid) = container_data dw cid"
      by (cases "cid = ?n") (simp_all add: data other)
  qed
  show "slice (curOffset dw) n (container_data dw' ?n) = take n src"
    using len src by (simp add: data slice_def)
  show "length (container_data dw' ?n) = curOffset dw + n" using len src by (simp add: data)
  have "file_ok dw' cid = file_ok dw cid" for cid by (simp add: file_ok_def dw'_def)
  moreover have "cur_ok dw'"
    using cur fit src by (auto simp: cur_ok_def dw'_def overwrite_def)
  moreover have "cache_ok dw'"
  proof (rule cache_ok_grows [OF _ g _ other])
    show "cache_ok dw" using inv by (simp add: dw_inv_def)
    show "containerCache dw' = containerCache dw" by (simp add: dw'_def)
  qed simp
  moreover have "placed dw' ch" if "ch \<in> set (chunklist dw')" for ch
    using that inv grows_placed [OF g] by (simp add: dw_inv_def dw'_def)
  ultimately show "dw_inv dw'" using inv by (simp add: dw_inv_def) (simp add: dw'_def)
qed

lemma container_data_counters [simp]:
  "container_data (dw\<lparr>chunkNum := a, containerSize := b, curContainer := (curContainer dw)\<lparr>c_chunkNum := d\<rparr>\<rparr>)
    = container_data dw"
  by (auto simp: container_data_def fun_eq_iff)

lemma dw_inv_counters [simp]:
  "dw_inv (dw\<lparr>chunkNum := a, containerSize := b, curContainer := (curContainer dw)\<lparr>c_chunkNum := d\<rparr>\<rparr>) = dw_inv dw"
  by (simp add: dw_inv_def cur_ok_def cache_ok_def placed_def) (simp add: file_ok_def)

lemma grows_counters:
  "grows dw (dw\<lparr>chunkNum := a, containerSize := b, curContainer := (curContainer dw)\<lparr>c_chunkNum := d\<rparr>\<rparr>)"
  by (simp add: grows_def)

lemma place_chunk_ok:
  assumes inv: "dw_inv dw" and n: "n \<le> CONTAINER_MAX_SIZE" "n \<le> length src" and sv: "saveSize ch = n"
  shows "\<exists>ch' dw'. place_chunk src n ch dw = Inr (ch', dw') \<and> dw_inv dw' \<and> grows dw dw'
    \<and> chunklist dw' = chunklist dw \<and> RecipeMap dw' = RecipeMap dw \<and> RecipeMap_header dw' = RecipeMap_header dw
    \<and> filename dw' = filename dw \<and> writable dw' = writable dw \<and> placed dw' ch' \<and> payload dw' ch' = take n src
    \<and> (\<exists>c off. ch' = ch\<lparr>containerID := c, offset := off, chunkPtr := []\<rparr>)"
proof -
  let ?dw0 = "dw\<lparr>chunkNum := Suc (chunkNum dw), containerSize := containerSize dw + saveSize ch,
    curContainer := (curContainer dw)\<lparr>c_chunkNum := Suc (c_chunkNum (curContainer dw))\<rparr>\<rparr>"
  define dw1 where "dw1 = (if c_size (curContainer ?dw0) + n > CONTAINER_MAX_SIZE
    then next_container (write_container (curContainer ?dw0) ?dw0) else ?dw0)"
  have inv0: "dw_inv ?dw0" using inv by simp
  have d1: "dw_inv dw1" "grows dw dw1" "chunklist dw1 = chunklist dw" "RecipeMap dw1 = RecipeMap dw"
    "RecipeMap_header dw1 = RecipeMap_header dw" "filename dw1 = filename dw" "writable dw1 = writable dw"
    "curOffset dw1 + n \<le> CONTAINER_MAX_SIZE"
  proof -
    have "c_size (curContainer ?dw0) = curOffset ?dw0" using inv0 by (simp add: dw_inv_def cur_ok_def)
    then show "dw_inv dw1" "grows dw dw1" "chunklist dw1 = chunklist dw" "RecipeMap dw1 = RecipeMap dw"
      "RecipeMap_header dw1 = RecipeMap_header dw" "filename dw1 = filename dw" "writable dw1 = writable dw"
      "curOffset dw1 + n \<le> CONTAINER_MAX_SIZE"
      using flush_ok [OF inv0] inv0 n(1) grows_counters grows_trans [OF grows_counters flush_ok(2) [OF inv0]]
      unfolding dw1_def by auto
  qed
  let ?dw2 = "dw1\<lparr>curContainer := (curContainer dw1)\<lparr>c_size := c_size (curContainer dw1) + n,
      c_data := overwrite (curOffset dw1) (take n src) (c_data (curContainer dw1))\<rparr>, curOffset := curOffset dw1 + n\<rparr>"
  let ?ch = "ch\<lparr>containerID := containerNum dw1, offset := curOffset dw1, chunkPtr := []\<rparr>"
  note a = append_ok [OF d1(1,8) n(2)]
  have "place_chunk src n ch dw = Inr (?ch, ?dw2)"
    using n(2) d1(8) unfolding place_chunk_def Let_def dw1_def [symmetric] by simp
  moreover have "placed ?dw2 ?ch" "payload ?dw2 ?ch = take n src"
    using a(3,4) sv by (simp_all add: placed_def payload_def)
  moreover have "grows dw ?dw2" by (rule grows_trans [OF d1(2) a(2)])
  moreover have "chunklist ?dw2 = chunklist dw" "RecipeMap ?dw2 = RecipeMap dw"
    "RecipeMap_header ?dw2 = RecipeMap_header dw" "filename ?dw2 = filename dw" "writable ?dw2 = writable dw"
    using d1(3-7) by simp_all
  ultimately show ?thesis using a(1) by blast
qed

section \<open>The store as a list of payloads\<close>

text \<open>The description of a chunk without its place and its pointer.\<close>

definition core :: "Chunk_t \<Rightarrow> Chunk_t" where
  "core ch = ch\<lparr>chunkPtr := [], loadFromDisk := False, containerID := 0, offset := 0\<rparr>"

lemma core_sel [simp]:
  "deltaFlag (core ch) = deltaFlag ch" "chunkSize (core ch) = chunkSize ch" "saveSize (core ch) = saveSize ch"
  "basechunkID (core ch) = basechunkID ch" "chunkID (core ch) = chunkID ch" "HeaderFlag (core ch) = HeaderFlag ch"
  by (simp_all add: core_def)

lemma core_eqD:
  "core a = core b \<Longrightarrow> deltaFlag a = deltaFlag b \<and> chunkSize a = chunkSize b \<and> saveSize a = saveSize b
    \<and> basechunkID a = basechunkID b \<and> chunkID a = chunkID b \<and> HeaderFlag a = HeaderFlag b"
  by (metis core_sel)

definition entry :: "dataWrite \<Rightarrow> Chunk_t \<Rightarrow> Chunk_t \<times> byte list" where
  "entry dw ch = (core ch, payload dw ch)"

definition store_abs :: "dataWrite \<Rightarrow> (Chunk_t \<times> byte list) list" where
  "store_abs dw = map (entry dw) (chunklist dw)"

lemma store_abs_grows:
  assumes "dw_inv dw" "grows dw dw'" "chunklist dw' = chunklist dw"
  shows "store_abs dw' = store_abs dw"
  using assms grows_placed [OF assms(2)] by (simp add: store_abs_def entry_def dw_inv_def)

lemma dw_inv_push:
  assumes "dw_inv dw" "placed dw ch"
  shows "dw_inv (dw\<lparr>chunklist := chunklist dw @ [ch]\<rparr>)"
    and "store_abs (dw\<lparr>chunklist := chunklist dw @ [ch]\<rparr>) = store_abs dw @ [(core ch, payload dw ch)]"
proof -
  have d: "container_data (dw\<lparr>chunklist := l\<rparr>) = container_data dw" for l
    by (auto simp: container_data_def fun_eq_iff)
  show "dw_inv (dw\<lparr>chunklist := chunklist dw @ [ch]\<rparr>)"
    using assms by (auto simp: dw_inv_def cur_ok_def cache_ok_def placed_def file_ok_def d)
  show "store_abs (dw\<lparr>chunklist := chunklist dw @ [ch]\<rparr>) = store_abs dw @ [(core ch, payload dw ch)]"
    by (simp add: store_abs_def entry_def payload_def d)
qed

definition recipes_same :: "dataWrite \<Rightarrow> dataWrite \<Rightarrow> bool" where
  "recipes_same dw dw' \<longleftrightarrow> RecipeMap dw' = RecipeMap dw \<and> RecipeMap_header dw' = RecipeMap_header dw
     \<and> filename dw' = filename dw \<and> writable dw' = writable dw"

lemma insert_ok:
  assumes inv: "dw_inv dw" and n: "saveSize ch \<le> CONTAINER_MAX_SIZE" "saveSize ch \<le> length src"
  shows "\<exists>dw'. rbind (place_chunk src (saveSize ch) ch dw) (\<lambda>(ch, dw). Inr (dw\<lparr>chunklist := chunklist dw @ [ch]\<rparr>)) = Inr dw'
    \<and> dw_inv dw' \<and> store_abs dw' = store_abs dw @ [(core ch, take (saveSize ch) src)] \<and> recipes_same dw dw'"
proof -
  obtain ch' dw1 where p: "place_chunk src (saveSize ch) ch dw = Inr (ch', dw1)" "dw_inv dw1" "grows dw dw1"
    "chunklist dw1 = chunklist dw" "recipes_same dw dw1" "placed dw1 ch'"
    "payload dw1 ch' = take (saveSize ch) src" "core ch' = core ch"
    using place_chunk_ok [OF inv n refl] by (auto simp: recipes_same_def core_def)
  with dw_inv_push [OF p(2,6)] store_abs_grows [OF inv p(3,4)] show ?thesis
    by (auto simp: recipes_same_def)
qed

section \<open>Reads\<close>

definition decode :: "env \<Rightarrow> Chunk_t \<Rightarrow> byte list \<Rightarrow> byte list result" where
  "decode x k p =
     (if deltaFlag k \<noteq> NO_DELTA then Inr p
      else case lz4_decompress x p CONTAINER_MAX_SIZE of
             None \<Rightarrow> Inl Indeterminate
           | Some out \<Rightarrow> if chunkSize k \<le> length out then Inr (take (chunkSize k) out) else Inl Indeterminate)"

lemma decode_core [simp]: "decode x (core ch) p = decode x ch p"
  by (simp add: decode_def split: option.split)

lemma chunk_bytes_payload:
  assumes "placed dw ch" "take (length (container_data dw (containerID ch))) data = container_data dw (containerID ch)"
  shows "chunk_bytes x e ch data = decode x ch (payload dw ch)"
proof -
  let ?cd = "container_data dw (containerID ch)"
  have "slice (offset ch) (saveSize ch) data = payload dw ch"
    using assms slice_take [of "offset ch" "saveSize ch" "length ?cd" data] by (simp add: placed_def payload_def)
  moreover have "offset ch + saveSize ch \<le> length data"
    using assms prefix_length [OF assms(2)] by (simp add: placed_def)
  ultimately show ?thesis by (simp add: chunk_bytes_def decode_def Let_def)
qed

text \<open>The part of the state a read leaves alone.\<close>

definition same_containers :: "dataWrite \<Rightarrow> dataWrite \<Rightarrow> bool" where
  "same_containers dw dw' \<longleftrightarrow> containerNum dw' = containerNum dw \<and> curContainer dw' = curContainer dw
     \<and> curOffset dw' = curOffset dw \<and> fs dw' = fs dw \<and> writable dw' = writable dw"

lemma same_containers_data: "same_containers dw dw' \<Longrightarrow> container_data dw' = container_data dw"
  by (auto simp: same_containers_def container_data_def fun_eq_iff)

lemma read_keeps:
  assumes inv: "dw_inv dw" and i: "i < length (chunklist dw)" and same: "same_containers dw dw'" "recipes_same dw dw'"
    and cache: "rc_inv (containerCache dw')"
      "\<And>name slot. cached (containerCache dw') name = Some slot \<Longrightarrow>
        (\<exists>cid < containerNum dw. name = to_string cid
          \<and> take (length (container_data dw cid)) slot = container_data dw cid)"
    and l: "chunklist dw' = (chunklist dw)[i := (chunklist dw ! i)\<lparr>chunkPtr := p, loadFromDisk := b\<rparr>]"
  shows "dw_inv dw' \<and> store_abs dw' = store_abs dw"
proof -
  note d = same_containers_data [OF same(1)]
  let ?ch = "(chunklist dw ! i)\<lparr>chunkPtr := p, loadFromDisk := b\<rparr>"
  have e: "entry dw' = entry dw" by (simp add: entry_def payload_def d fun_eq_iff)
  have ch: "entry dw ?ch = entry dw (chunklist dw ! i)" "placed dw ?ch = placed dw (chunklist dw ! i)"
    by (simp_all add: entry_def payload_def core_def placed_def)
  have "store_abs dw' = (store_abs dw)[i := entry dw (chunklist dw ! i)]"
    by (simp add: store_abs_def l e map_update ch)
  also have "\<dots> = store_abs dw" using i by (simp add: store_abs_def list_update_same_conv)
  finally have abs: "store_abs dw' = store_abs dw" .
  have "placed dw c" if "c \<in> set (chunklist dw')" for c
    using that inv ch i unfolding l by (auto simp: dw_inv_def dest: set_update_subset_insert [THEN subsetD])
  then have "\<forall>c \<in> set (chunklist dw'). placed dw' c"
    using same(1) by (simp add: placed_def d same_containers_def)
  moreover have "file_ok dw' cid = file_ok dw cid" for cid
    using same(1) by (simp add: file_ok_def same_containers_def)
  moreover have "cur_ok dw'" using inv same(1) by (simp add: dw_inv_def cur_ok_def same_containers_def)
  moreover have "cache_ok dw'" using cache same(1) unfolding cache_ok_def d same_containers_def by auto
  ultimately show ?thesis using inv same(1) abs by (simp add: dw_inv_def same_containers_def)
qed

lemma Get_Chunk_Info_ok:
  assumes inv: "dw_inv dw" and i: "i < length (chunklist dw)"
    and dec: "decode x (chunklist dw ! i) (payload dw (chunklist dw ! i)) = Inr bytes"
  shows "\<exists>b dw'. Get_Chunk_Info x (int i) dw = Inr ((chunklist dw ! i)\<lparr>chunkPtr := bytes, loadFromDisk := b\<rparr>, dw')
    \<and> dw_inv dw' \<and> store_abs dw' = store_abs dw \<and> recipes_same dw dw' \<and> same_containers dw dw'"
proof -
  let ?ch = "chunklist dw ! i" and ?rc = "containerCache dw"
  let ?name = "to_string (containerID ?ch)" and ?cd = "container_data dw (containerID ?ch)"
  have pl: "placed dw ?ch" and cok: "cache_ok dw" and rc: "rc_inv ?rc"
    using inv i by (auto simp: dw_inv_def cache_ok_def)
  note bytes = chunk_bytes_payload [OF pl, of _ x]
  let ?upd = "\<lambda>b. (chunklist dw)[i := ?ch\<lparr>chunkPtr := bytes, loadFromDisk := b\<rparr>]"
  have at: "chunk_at (int i) dw = Inr ?ch" using i by (simp add: chunk_at_def)
  consider (hit) slot where "cached ?rc ?name = Some slot"
    | (disk) "cached ?rc ?name = None" "containerID ?ch \<noteq> containerNum dw"
    | (cur) "cached ?rc ?name = None" "containerID ?ch = containerNum dw"
    by (cases "cached ?rc ?name"; cases "containerID ?ch = containerNum dw") blast+
  then show ?thesis
  proof cases
    case (hit slot)
    then have "take (length ?cd) slot = ?cd" using cok by (auto simp: cache_ok_def dest: to_string_inj)
    then have cb: "chunk_bytes x Indeterminate ?ch slot = Inr bytes" using bytes dec by simp
    obtain rc' where r: "ReadFromCache ?name ?rc = Inr (slot, rc')" "rc_inv rc'" "cached rc' = cached ?rc"
      using ReadFromCache_ok [OF rc hit] by blast
    have ex: "ExistsInCache ?name ?rc" using hit ExistsInCache_iff [OF rc, of ?name] by auto
    let ?b = "deltaFlag ?ch = NO_DELTA"
    let ?dw = "dw\<lparr>containerCache := rc', cacheHitTimes := Suc (cacheHitTimes dw), chunklist := ?upd ?b\<rparr>"
    have "Get_Chunk_Info x (int i) dw = Inr (?ch\<lparr>chunkPtr := bytes, loadFromDisk := ?b\<rparr>, ?dw)"
      using at r(1) cb ex by (simp add: Get_Chunk_Info_def Let_def)
    moreover have "dw_inv ?dw \<and> store_abs ?dw = store_abs dw"
      using cok r by (intro read_keeps [OF inv i, where p = bytes and b = ?b])
        (auto simp: same_containers_def recipes_same_def cache_ok_def)
    ultimately show ?thesis by (auto simp: recipes_same_def same_containers_def)
  next
    case disk
    with pl have lt: "containerID ?ch < containerNum dw" by (simp add: placed_def)
    then obtain data where cf: "fs dw (container_path (containerID ?ch)) = Some (le_bytes 8 (length data) @ data)"
      "length data \<le> CONTAINER_MAX_SIZE" using inv by (auto simp: dw_inv_def file_ok_def)
    then have cd: "?cd = data" using disk by (simp add: container_data_def)
    then have cb: "chunk_bytes x OutOfBounds ?ch data = Inr bytes" using bytes dec by simp
    have miss: "\<not> ExistsInCache ?name ?rc" using ExistsInCache_iff [OF rc, of ?name] disk(1) by auto
    obtain rc' slot where r: "InsertToCache ?name data (length data) ?rc = Inr rc'" "rc_inv rc'"
      "cached rc' = ((if currentIndex ?rc < CONTAINER_CACHE_SIZE then cached ?rc
        else (cached ?rc)(victim_name ?rc := None))(?name \<mapsto> slot))" "take (length data) slot = data"
      using InsertToCache_ok [OF rc miss order_refl cf(2)] by auto
    let ?dw = "dw\<lparr>containerCache := rc', loadContainerTimes := Suc (loadContainerTimes dw), chunklist := ?upd True\<rparr>"
    have "Get_Chunk_Info x (int i) dw = Inr (?ch\<lparr>chunkPtr := bytes, loadFromDisk := True\<rparr>, ?dw)"
      using at miss disk(2) cf cb r(1) by (simp add: Get_Chunk_Info_def container_path_def read_container_file Let_def)
    moreover have "dw_inv ?dw \<and> store_abs ?dw = store_abs dw"
      using cok r lt cd by (intro read_keeps [OF inv i, where p = bytes and b = True])
        (auto simp: same_containers_def recipes_same_def cache_ok_def split: if_splits)
    ultimately show ?thesis by (auto simp: recipes_same_def same_containers_def)
  next
    case cur
    then have "take (length ?cd) (c_data (curContainer dw)) = ?cd"
      using inv by (simp add: container_data_def dw_inv_def cur_ok_def)
    then have cb: "chunk_bytes x Indeterminate ?ch (c_data (curContainer dw)) = Inr bytes" using bytes dec by simp
    have miss: "\<not> ExistsInCache ?name ?rc" using ExistsInCache_iff [OF rc, of ?name] cur(1) by auto
    let ?b = "deltaFlag ?ch = NO_DELTA"
    let ?dw = "dw\<lparr>chunklist := ?upd ?b\<rparr>"
    have "Get_Chunk_Info x (int i) dw = Inr (?ch\<lparr>chunkPtr := bytes, loadFromDisk := ?b\<rparr>, ?dw)"
      using at miss cur(2) cb by (simp add: Get_Chunk_Info_def Let_def)
    moreover have "dw_inv ?dw \<and> store_abs ?dw = store_abs dw"
      using cok rc by (intro read_keeps [OF inv i, where p = bytes and b = ?b])
        (auto simp: same_containers_def recipes_same_def cache_ok_def)
    ultimately show ?thesis by (auto simp: recipes_same_def same_containers_def)
  qed
qed

section \<open>The contract of the store\<close>

text \<open>
  What the compression methods rely on: insertions append an entry, reads return the bytes of an entry
  and change nothing a client can see.  \<open>rec\<close> is the part with the recipes and file permissions.
\<close>

locale chunk_store =
  fixes put_raw :: "Chunk_t \<Rightarrow> 's \<Rightarrow> 's result" and put_lz4 :: "Chunk_t \<Rightarrow> byte list \<Rightarrow> 's \<Rightarrow> 's result"
    and get :: "int \<Rightarrow> 's \<Rightarrow> (Chunk_t \<times> 's) result" and inv :: "'s \<Rightarrow> bool"
    and abs :: "'s \<Rightarrow> (Chunk_t \<times> byte list) list" and dec :: "Chunk_t \<Rightarrow> byte list \<Rightarrow> byte list result"
    and rec :: "'s \<Rightarrow> 'r"
  assumes raw_ok: "inv s \<Longrightarrow> deltaFlag ch \<noteq> NO_DELTA \<Longrightarrow> saveSize ch \<le> CONTAINER_MAX_SIZE \<Longrightarrow>
      saveSize ch \<le> length (chunkPtr ch) \<Longrightarrow>
      \<exists>s'. put_raw ch s = Inr s' \<and> inv s' \<and> abs s' = abs s @ [(core ch, take (saveSize ch) (chunkPtr ch))] \<and> rec s' = rec s"
    and lz4_ok: "inv s \<Longrightarrow> saveSize ch \<le> CONTAINER_MAX_SIZE \<Longrightarrow> saveSize ch \<le> length buf \<Longrightarrow>
      \<exists>s'. put_lz4 ch buf s = Inr s' \<and> inv s' \<and> abs s' = abs s @ [(core ch, take (saveSize ch) buf)] \<and> rec s' = rec s"
    and get_ok: "inv s \<Longrightarrow> i < length (abs s) \<Longrightarrow> dec (fst (abs s ! i)) (snd (abs s ! i)) = Inr bytes \<Longrightarrow>
      \<exists>ch s'. get (int i) s = Inr (ch, s') \<and> core ch = fst (abs s ! i) \<and> chunkPtr ch = bytes \<and> inv s'
        \<and> abs s' = abs s \<and> rec s' = rec s"
begin

lemma lz4_read_back:
  assumes "inv s" "saveSize ch \<le> CONTAINER_MAX_SIZE" "saveSize ch \<le> length buf"
    and "dec (core ch) (take (saveSize ch) buf) = Inr bytes"
  shows "\<exists>s' ch' s''. put_lz4 ch buf s = Inr s' \<and> get (int (length (abs s))) s' = Inr (ch', s'')
    \<and> core ch' = core ch \<and> chunkPtr ch' = bytes \<and> inv s'' \<and> abs s'' = abs s'"
proof -
  obtain s' where s': "put_lz4 ch buf s = Inr s'" "inv s'" "abs s' = abs s @ [(core ch, take (saveSize ch) buf)]"
    using lz4_ok [OF assms(1-3)] by blast
  then have "abs s' ! length (abs s) = (core ch, take (saveSize ch) buf)" "length (abs s) < length (abs s')" by simp_all
  with get_ok [OF s'(2), of "length (abs s)" bytes] assms(4) s' show ?thesis by auto
qed

lemma get_stable:
  assumes "inv s" "i < length (abs s)" "dec (fst (abs s ! i)) (snd (abs s ! i)) = Inr bytes"
    and "inv s'" "take (length (abs s)) (abs s') = abs s"
  shows "\<exists>ch t. get (int i) s' = Inr (ch, t) \<and> core ch = fst (abs s ! i) \<and> chunkPtr ch = bytes"
proof -
  have "abs s' ! i = abs s ! i" "i < length (abs s')"
    using assms(2,5) nth_take [of i "length (abs s)" "abs s'"] prefix_length [OF assms(5)] by auto
  with get_ok [OF assms(4), of i bytes] assms(3) show ?thesis by auto
qed

end

definition recipes :: "dataWrite \<Rightarrow> (string \<Rightarrow> nat list) \<times> (string \<Rightarrow> nat list) \<times> string \<times> (string \<Rightarrow> bool)" where
  "recipes dw = (RecipeMap dw, RecipeMap_header dw, filename dw, writable dw)"

lemma recipes_same_eq: "recipes_same dw dw' \<longleftrightarrow> recipes dw' = recipes dw"
  by (auto simp: recipes_same_def recipes_def)

interpretation store: chunk_store Chunk_Insert Chunk_Insert_lz4 "Get_Chunk_Info x" dw_inv store_abs "decode x" recipes
  for x
proof unfold_locales
  fix dw and ch :: Chunk_t
  assume "dw_inv dw" "deltaFlag ch \<noteq> NO_DELTA" "saveSize ch \<le> CONTAINER_MAX_SIZE" "saveSize ch \<le> length (chunkPtr ch)"
  with insert_ok [of dw ch "chunkPtr ch"]
  show "\<exists>s'. Chunk_Insert ch dw = Inr s' \<and> dw_inv s'
      \<and> store_abs s' = store_abs dw @ [(core ch, take (saveSize ch) (chunkPtr ch))] \<and> recipes s' = recipes dw"
    by (auto simp: Chunk_Insert_def stored_size_def recipes_same_eq)
next
  fix dw and ch :: Chunk_t and buf :: "byte list"
  assume "dw_inv dw" "saveSize ch \<le> CONTAINER_MAX_SIZE" "saveSize ch \<le> length buf"
  with insert_ok [of dw ch buf]
  show "\<exists>s'. Chunk_Insert_lz4 ch buf dw = Inr s' \<and> dw_inv s'
      \<and> store_abs s' = store_abs dw @ [(core ch, take (saveSize ch) buf)] \<and> recipes s' = recipes dw"
    by (auto simp: Chunk_Insert_lz4_def recipes_same_eq)
next
  fix dw i bytes
  assume inv: "dw_inv dw" and i: "i < length (store_abs dw)"
    and d: "decode x (fst (store_abs dw ! i)) (snd (store_abs dw ! i)) = Inr bytes"
  then have "decode x (chunklist dw ! i) (payload dw (chunklist dw ! i)) = Inr bytes"
    by (simp add: store_abs_def entry_def)
  from Get_Chunk_Info_ok [OF inv _ this] i
  show "\<exists>ch s'. Get_Chunk_Info x (int i) dw = Inr (ch, s') \<and> core ch = fst (store_abs dw ! i)
      \<and> chunkPtr ch = bytes \<and> dw_inv s' \<and> store_abs s' = store_abs dw \<and> recipes s' = recipes dw"
    by (fastforce simp: store_abs_def entry_def core_def recipes_same_eq)
qed

section \<open>Restoring from recipes\<close>

text \<open>The content of an entry as the restore routines see it: directly, or a delta against its base.\<close>

definition content :: "env \<Rightarrow> (Chunk_t \<times> byte list) list \<Rightarrow> nat \<Rightarrow> byte list result" where
  "content x es i =
     (let (k, p) = es ! i in
      if deltaFlag k = NO_DELTA \<or> deltaFlag k = NO_LZ4 then rbind (decode x k p) (read_ptr (chunkSize k))
      else let (bk, bp) = es ! nat (basechunkID k) in
        rbind (decode x bk bp) (\<lambda>b. rbind (read_ptr (chunkSize bk) b) (\<lambda>ref.
        rbind (read_ptr (saveSize k) p) (\<lambda>inp.
        rbind (xd3_decode x inp ref) (read_ptr (chunkSize k))))))"

definition base_ok :: "(Chunk_t \<times> byte list) list \<Rightarrow> nat \<Rightarrow> bool" where
  "base_ok es i \<longleftrightarrow> i < length es \<and> (deltaFlag (fst (es ! i)) \<in> {NO_DELTA, NO_LZ4}
     \<or> 0 \<le> basechunkID (fst (es ! i)) \<and> nat (basechunkID (fst (es ! i))) < length es)"

lemma restore_chunk_ok:
  assumes inv: "dw_inv dw" and b: "base_ok (store_abs dw) i" and c: "content x (store_abs dw) i = Inr bs"
  shows "\<exists>ch dw'. restore_chunk x (int i) dw = Inr (bs, ch, dw') \<and> core ch = fst (store_abs dw ! i)
    \<and> dw_inv dw' \<and> store_abs dw' = store_abs dw \<and> recipes dw' = recipes dw"
proof -
  obtain k p where kp: "store_abs dw ! i = (k, p)" by (cases "store_abs dw ! i")
  have i: "i < length (store_abs dw)" using b by (simp add: base_ok_def)
  show ?thesis
  proof (cases "deltaFlag k = NO_DELTA \<or> deltaFlag k = NO_LZ4")
    case True
    with c kp obtain bytes where d: "decode x k p = Inr bytes" "read_ptr (chunkSize k) bytes = Inr bs"
      by (auto simp: content_def rbind_eq_Inr_iff)
    with store.get_ok [OF inv i, of x bytes] kp obtain ch dw' where
      g: "Get_Chunk_Info x (int i) dw = Inr (ch, dw')" "core ch = k" "chunkPtr ch = bytes" "dw_inv dw'"
      "store_abs dw' = store_abs dw" "recipes dw' = recipes dw" by auto
    with True d core_sel [of ch] show ?thesis by (auto simp: restore_chunk_def kp)
  next
    case False
    let ?j = "nat (basechunkID k)"
    obtain bk bp where bkp: "store_abs dw ! ?j = (bk, bp)" by (cases "store_abs dw ! ?j")
    have j: "?j < length (store_abs dw)" "int ?j = basechunkID k" using b False kp by (auto simp: base_ok_def)
    from c kp bkp False obtain base ref inp res where
      d: "decode x bk bp = Inr base" "read_ptr (chunkSize bk) base = Inr ref" "read_ptr (saveSize k) p = Inr inp"
      "xd3_decode x inp ref = Inr res" "read_ptr (chunkSize k) res = Inr bs"
      by (auto simp: content_def rbind_eq_Inr_iff)
    have "decode x k p = Inr p" using False by (simp add: decode_def)
    with store.get_ok [OF inv i, of x p] kp obtain ch dw1 where
      g: "Get_Chunk_Info x (int i) dw = Inr (ch, dw1)" "core ch = k" "chunkPtr ch = p" "dw_inv dw1"
      "store_abs dw1 = store_abs dw" "recipes dw1 = recipes dw" by auto
    with store.get_ok [OF g(4), of ?j x base] j bkp d(1) obtain bch dw2 where
      h: "Get_Chunk_Info x (int ?j) dw1 = Inr (bch, dw2)" "core bch = bk" "chunkPtr bch = base" "dw_inv dw2"
      "store_abs dw2 = store_abs dw" "recipes dw2 = recipes dw" by auto
    have "restore_chunk x (int i) dw = Inr (bs, ch, dw2)"
      using g(1-3) h(1-3) False d(2-5) j(2) core_sel [of ch] core_sel [of bch]
      by (auto simp: restore_chunk_def)
    with g(2) h kp show ?thesis by auto
  qed
qed

lemma restore_fold_ok:
  assumes "dw_inv dw" "\<forall>i \<in> set is. base_ok (store_abs dw) i \<and> content x (store_abs dw) i = Inr (bs i)"
  shows "\<exists>dw'. rfold (restore_step x) (out, dw) is = Inr (out @ concat (map bs is), dw')
    \<and> dw_inv dw' \<and> store_abs dw' = store_abs dw \<and> recipes dw' = recipes dw"
  using assms
proof (induction "is" arbitrary: dw out)
  case (Cons i "is")
  then obtain ch dw1 where "restore_chunk x (int i) dw = Inr (bs i, ch, dw1)" "dw_inv dw1"
    "store_abs dw1 = store_abs dw" "recipes dw1 = recipes dw"
    using restore_chunk_ok [of dw i x "bs i"] by auto
  with Cons.IH [of dw1 "out @ bs i"] Cons.prems show ?case by (auto simp: restore_step_def)
qed simp

section \<open>Correctness\<close>

lemma dataWrite_new_inv:
  assumes "\<forall>cid. w (container_path cid)"
  shows "dw_inv (dataWrite_new f w)" "store_abs (dataWrite_new f w) = []"
  using assms rc_new_inv
  by (simp_all add: dataWrite_new_def Let_def dw_inv_def cur_ok_def cache_ok_def store_abs_def)

text \<open>
  C8: The store refines an append-only list of payloads.  Both insertions append the stored bytes of
  the chunk, whether or not they close the current container, and keep the invariant and the recipes;
  \<open>Get_Chunk_Info\<close> returns the decoded bytes of any entry, from the current container, the cache or
  the container file, and changes neither the entries nor the recipes.
\<close>

theorem store_refines_payload_list:
  assumes "dw_inv dw"
  shows "(deltaFlag ch \<noteq> NO_DELTA \<and> saveSize ch \<le> CONTAINER_MAX_SIZE \<and> saveSize ch \<le> length (chunkPtr ch) \<longrightarrow>
      (\<exists>dw'. Chunk_Insert ch dw = Inr dw' \<and> dw_inv dw'
        \<and> store_abs dw' = store_abs dw @ [(core ch, take (saveSize ch) (chunkPtr ch))] \<and> recipes dw' = recipes dw))
    \<and> (saveSize ch \<le> CONTAINER_MAX_SIZE \<and> saveSize ch \<le> length buf \<longrightarrow>
      (\<exists>dw'. Chunk_Insert_lz4 ch buf dw = Inr dw' \<and> dw_inv dw'
        \<and> store_abs dw' = store_abs dw @ [(core ch, take (saveSize ch) buf)] \<and> recipes dw' = recipes dw))
    \<and> (i < length (store_abs dw) \<and> decode x (fst (store_abs dw ! i)) (snd (store_abs dw ! i)) = Inr bytes \<longrightarrow>
      (\<exists>ch' dw'. Get_Chunk_Info x (int i) dw = Inr (ch', dw') \<and> core ch' = fst (store_abs dw ! i)
        \<and> chunkPtr ch' = bytes \<and> dw_inv dw' \<and> store_abs dw' = store_abs dw \<and> recipes dw' = recipes dw))"
proof (intro conjI impI; elim conjE)
  assume "deltaFlag ch \<noteq> NO_DELTA" "saveSize ch \<le> CONTAINER_MAX_SIZE" "saveSize ch \<le> length (chunkPtr ch)"
  from store.raw_ok [OF assms this] show "\<exists>dw'. Chunk_Insert ch dw = Inr dw' \<and> dw_inv dw'
      \<and> store_abs dw' = store_abs dw @ [(core ch, take (saveSize ch) (chunkPtr ch))] \<and> recipes dw' = recipes dw" .
next
  assume "saveSize ch \<le> CONTAINER_MAX_SIZE" "saveSize ch \<le> length buf"
  from store.lz4_ok [OF assms this] show "\<exists>dw'. Chunk_Insert_lz4 ch buf dw = Inr dw' \<and> dw_inv dw'
      \<and> store_abs dw' = store_abs dw @ [(core ch, take (saveSize ch) buf)] \<and> recipes dw' = recipes dw" .
next
  assume "i < length (store_abs dw)" "decode x (fst (store_abs dw ! i)) (snd (store_abs dw ! i)) = Inr bytes"
  from store.get_ok [OF assms this] show "\<exists>ch' dw'. Get_Chunk_Info x (int i) dw = Inr (ch', dw')
      \<and> core ch' = fst (store_abs dw ! i) \<and> chunkPtr ch' = bytes \<and> dw_inv dw' \<and> store_abs dw' = store_abs dw
      \<and> recipes dw' = recipes dw" .
qed

definition plain_env :: env where
  "plain_env = \<lparr>lz4_compress = (\<lambda>xs n. if length xs < n then Some (0 # xs) else None),
     lz4_decompress = (\<lambda>xs n. if xs \<noteq> [] \<and> length xs \<le> Suc n then Some (tl xs) else None),
     xd3_encode_memory = (\<lambda>t b n. if length t \<le> n then Some t else None),
     xd3_decode_memory = (\<lambda>i b n. if length i \<le> n then Some i else None),
     sha256 = (\<lambda>xs. Some (take 32 (xs @ replicate 32 0)))\<rparr>"

theorem store_refines_payload_list_witness:
  "\<exists>dw'. Chunk_Insert_lz4 ((new_Chunk [1, 2] 2 False)\<lparr>saveSize := 3\<rparr>) [0, 1, 2] (dataWrite_new Map.empty (\<lambda>_. True)) = Inr dw'
     \<and> map snd (store_abs dw') = [[0, 1, 2]]"
proof -
  have "dw_inv (dataWrite_new Map.empty (\<lambda>_. True))" by (rule dataWrite_new_inv) simp
  from store_refines_payload_list [OF this, of "(new_Chunk [1, 2] 2 False)\<lparr>saveSize := 3\<rparr>" "[0, 1, 2]"]
  show ?thesis using dataWrite_new_inv(2) [of "\<lambda>_. True" Map.empty] by (auto simp: size_consts)
qed


definition one_chunk_store :: dataWrite where
  "one_chunk_store = (case Chunk_Insert_lz4 ((new_Chunk [1, 2] 2 False)\<lparr>saveSize := 3\<rparr>) [0, 1, 2]
      (dataWrite_new Map.empty (\<lambda>_. True)) of Inr dw \<Rightarrow> dw | Inl _ \<Rightarrow> dataWrite_new Map.empty (\<lambda>_. True))"

lemma one_chunk_store:
  "dw_inv one_chunk_store"
  "store_abs one_chunk_store = [(core ((new_Chunk [1, 2] 2 False)\<lparr>saveSize := 3\<rparr>), [0, 1, 2])]"
  using store.lz4_ok [OF dataWrite_new_inv(1), of "\<lambda>_. True" "(new_Chunk [1, 2] 2 False)\<lparr>saveSize := 3\<rparr>"
      "[0, 1, 2]" Map.empty] dataWrite_new_inv(2) [of "\<lambda>_. True" Map.empty]
  by (auto simp: size_consts one_chunk_store_def)

lemma one_chunk_decode: "decode plain_env (core ((new_Chunk [1, 2] 2 False)\<lparr>saveSize := 3\<rparr>)) [0, 1, 2] = Inr [1, 2]"
  by (simp add: decode_def plain_env_def new_Chunk_def size_consts)




text \<open>
  The chunker and the restore routine read the header of an old-style entry (type flag NUL)
  differently: with an all-zero octal size the chunker announces an empty part, the restore routine a
  big chunk that it then reads from the data recipe.
\<close>

theorem aregtype_headers_disagree:
  assumes "src 156 = AREGTYPE" "\<forall>i<11. src (124 + i) = 48"
    and "Next_Chunk_Type c = FILE_HEADER" "dw_Next_Chunk_Type dw = FILE_HEADER"
  shows "Next_Chunk_Type (snd (CutPointTarFast c src len)) = FILE_CHUNK
    \<and> part_left (snd (CutPointTarFast c src len)) = 0
    \<and> dw_Next_Chunk_Type (snd (dw_CutPointTarFast dw src len')) = BIG_CHUNK"
proof -
  have u: "[0..<11] = [0, 1, 2, 3, 4, 5, 6, 7, 8, 9, 10 :: nat]" by (simp add: upt_rec)
  have d: "src 124 = 48" "src 125 = 48" "src 126 = 48" "src 127 = 48" "src 128 = 48" "src 129 = 48"
    "src 130 = 48" "src 131 = 48" "src 132 = 48" "src 133 = 48" "src 134 = 48"
    using assms(2) [rule_format, of 0] assms(2) [rule_format, of 1] assms(2) [rule_format, of 2]
      assms(2) [rule_format, of 3] assms(2) [rule_format, of 4] assms(2) [rule_format, of 5]
      assms(2) [rule_format, of 6] assms(2) [rule_format, of 7] assms(2) [rule_format, of 8]
      assms(2) [rule_format, of 9] assms(2) [rule_format, of 10] by simp_all
  have "\<not> dw_tar_raw_size src \<le> of_nat CONTAINER_MAX_SIZE"
    by (simp add: dw_tar_raw_size_def u d size_consts)
  then have "dw_Next_Chunk_Type (snd (dw_CutPointTarFast dw src len')) = BIG_CHUNK"
    using assms(1,4) by (simp add: dw_CutPointTarFast_def dw_tar_header_def dw_set_size_def Let_def tar_flags)
  moreover have "Next_Chunk_Type (tar_header src c) = FILE_CHUNK" "part_left (tar_header src c) = 0"
    using tar_header_next [OF assms(3), of src] assms(1) by (simp_all add: tar_next_def tar_flags Let_def)
  ultimately show ?thesis using assms(3) by (simp add: CutPointTarFast_def)
qed

theorem aregtype_headers_disagree_witness:
  "dw_Next_Chunk_Type (snd (dw_CutPointTarFast (dataWrite_new Map.empty (\<lambda>_. True))
     (\<lambda>i. if i < 156 then 48 else 0) 512)) = BIG_CHUNK"
  using aregtype_headers_disagree [of "\<lambda>i. if i < 156 then 48 else 0" "Chunker_fields TAR"
      "dataWrite_new Map.empty (\<lambda>_. True)" 512 512]
  by (simp add: AREGTYPE_def Chunker_fields_def dataWrite_new_def Let_def)

end
