(* ===== verification/AbsMethod.thy ===== *)
theory AbsMethod
  imports Store
begin

text \<open>
  The base class of the compression methods, \<open>src/method/absMethod.cc\<close>: the natural order of backup
  names, the fingerprint and super-feature indexes, the Finesse features (\<open>GetSF\<close>), delta encoding,
  statistics, and the block compression of the merged files.

  Sizes summed in the statistics are 64-bit words; numbers of chunks, which are also the
  chunk identifiers, are naturals.  \<open>tu_containerNum\<close> is the method's own copy of the \<open>static\<close> variable
  \<open>containerNum\<close> of the header \<open>datawrite.h\<close>.  Timers are left out.
\<close>

record AbsMethod =
  chunker :: Chunker
  ads_Version :: nat
  am_filename :: string
  dataWrite :: dataWrite
  logicalchunkNum :: nat
  uniquechunkNum :: nat
  basechunkNum :: nat
  deltachunkNum :: nat
  finessehit :: nat
  DCESum :: nat
  SFnum :: nat
  computeSFtimes :: nat
  FPindex :: "byte list \<rightharpoonup> int"
  SFindex :: "nat \<Rightarrow> byte list \<Rightarrow> int list"
  preLogicalchunkiSize :: u64
  logicalchunkSize :: u64
  preuniquechunkSize :: u64
  uniquechunkSize :: u64
  basechunkOriSize :: u64
  basechunkSize :: u64
  deltachunkSize :: u64
  deltachunkOriSize :: u64
  localchunkSize :: u64
  ContainerSize :: u64
  tu_containerNum :: nat
  DedupReduct :: u64
  DeltaReduct :: u64
  LocalReduct :: u64
  LocalityReduct :: u64
  FeatureReduct :: u64
  hashTable :: "int \<Rightarrow> Chunk_t list"
  insertionOrder :: "int list"
  oriLCSize :: u64
  MLCSize :: u64

section \<open>Construction\<close>

text \<open>The member \<open>chunker_\<close> is a FastCDC chunker reconfigured for an average size of 4096.\<close>

definition AbsMethod_new :: "dataWrite \<Rightarrow> AbsMethod" where
  "AbsMethod_new dw =
     \<lparr>chunker = ChunkerInit (changeChunkSize 4096 (ChunkerInit (Chunker_fields FASTCDC))),
      ads_Version = 0, am_filename = [], dataWrite = dw, logicalchunkNum = 0, uniquechunkNum = 0,
      basechunkNum = 0, deltachunkNum = 0, finessehit = 0, DCESum = 0, SFnum = 0, computeSFtimes = 0, FPindex = Map.empty,
      SFindex = (\<lambda>_ _. []), preLogicalchunkiSize = 0, logicalchunkSize = 0, preuniquechunkSize = 0,
      uniquechunkSize = 0, basechunkOriSize = 0, basechunkSize = 0, deltachunkSize = 0, deltachunkOriSize = 0, localchunkSize = 0,
      ContainerSize = 0, tu_containerNum = 0, DedupReduct = 0, DeltaReduct = 0, LocalReduct = 0, LocalityReduct = 0,
      FeatureReduct = 0, hashTable = (\<lambda>_. []), insertionOrder = [], oriLCSize = 0, MLCSize = 0\<rparr>"

definition am_SetFilename :: "string \<Rightarrow> 'z AbsMethod_scheme \<Rightarrow> 'z AbsMethod_scheme" where
  "am_SetFilename name m = m\<lparr>am_filename := name\<rparr>"

section \<open>The order of backup names\<close>

definition isdigit :: "char \<Rightarrow> bool" where
  "isdigit ch \<longleftrightarrow> 48 \<le> (of_char ch :: nat) \<and> of_char ch \<le> (57 :: nat)"

definition toupper :: "char \<Rightarrow> nat" where
  "toupper ch = (let n = of_char ch in if 97 \<le> n \<and> n \<le> 122 then n - 32 else n)"

text \<open>
  \<open>iss >> i\<close> on a string that begins with a digit: the value of the leading digits, and what
  \<open>getline\<close> then delivers.  A value above \<open>INT_MAX\<close> sets the stream's fail state: \<open>i\<close> is \<open>INT_MAX\<close> and
  \<open>getline\<close> delivers nothing.
\<close>

definition digits_value :: "string \<Rightarrow> nat" where
  "digits_value ds = foldl (\<lambda>n ch. n * 10 + (of_char ch - 48)) 0 ds"

definition read_int :: "string \<Rightarrow> nat \<times> string" where
  "read_int s =
     (let ds = takeWhile isdigit s; n = digits_value ds in
      if n > 2147483647 then (2147483647, []) else (n, takeWhile (\<lambda>ch. ch \<noteq> char_of (10 :: nat)) (dropWhile isdigit s)))"

lemma read_int_shorter: "s \<noteq> [] \<Longrightarrow> isdigit (hd s) \<Longrightarrow> length (snd (read_int s)) < length s"
proof -
  assume s: "s \<noteq> []" "isdigit (hd s)"
  then have "length (dropWhile isdigit s) < length s"
    by (cases s) (auto simp: less_Suc_eq_le length_dropWhile_le)
  moreover have "length (takeWhile P xs) \<le> length xs" for P and xs :: string
    by (rule length_takeWhile_le)
  ultimately show ?thesis using s(1) by (auto simp: read_int_def Let_def intro: le_less_trans)
qed

function compareNat :: "string \<Rightarrow> string \<Rightarrow> bool" where
  "compareNat a b =
     (if a = [] then True
      else if b = [] then False
      else if isdigit (hd a) \<and> \<not> isdigit (hd b) then True
      else if \<not> isdigit (hd a) \<and> isdigit (hd b) then False
      else if \<not> isdigit (hd a) \<and> \<not> isdigit (hd b) then
        if toupper (hd a) = toupper (hd b) then compareNat (tl a) (tl b)
        else toupper (hd a) < toupper (hd b)
      else
        let (ia, anew) = read_int a; (ib, bnew) = read_int b
        in if ia \<noteq> ib then ia < ib else compareNat anew bnew)"
  by pat_completeness auto
termination
proof (relation "measure (length \<circ> fst)", goal_cases)
  case (3 a b xa anew xb ib bnew)
  then have "length (snd (read_int a)) < length a" by (intro read_int_shorter) auto
  with 3 show ?case by (metis comp_apply fst_conv in_measure snd_conv)
qed auto

declare compareNat.simps [simp del]

section \<open>Hashes and indexes\<close>

definition GenerateHash :: "env \<Rightarrow> byte list \<Rightarrow> byte list result" where
  "GenerateHash x data =
     (case sha256 x data of
        None \<Rightarrow> Inl ExitFailure
      | Some h \<Rightarrow> if length h \<noteq> CHUNK_HASH_SIZE then Inl ExitFailure else Inr h)"

definition FP_Find :: "byte list \<Rightarrow> 'z AbsMethod_scheme \<Rightarrow> int" where
  "FP_Find fp m = (case FPindex m fp of Some i \<Rightarrow> i | None \<Rightarrow> - 1)"

definition FP_Insert :: "byte list \<Rightarrow> int \<Rightarrow> 'z AbsMethod_scheme \<Rightarrow> 'z AbsMethod_scheme" where
  "FP_Insert fp i m = m\<lparr>FPindex := (FPindex m)(fp \<mapsto> i)\<rparr>"

text \<open>The \<open>i\<close>-th key inside the buffer of super-features; entries are never empty once present.\<close>

definition sf_key :: "byte list \<Rightarrow> nat \<Rightarrow> byte list" where
  "sf_key key i = slice (i * CHUNK_HASH_SIZE) CHUNK_HASH_SIZE key"

fun SF_Find_from :: "byte list \<Rightarrow> nat list \<Rightarrow> 'z AbsMethod_scheme \<Rightarrow> int" where
  "SF_Find_from key [] m = - 1"
| "SF_Find_from key (i # is) m =
     (if SFindex m i (sf_key key i) \<noteq> [] then last (SFindex m i (sf_key key i)) else SF_Find_from key is m)"

definition SF_Find :: "byte list \<Rightarrow> 'z AbsMethod_scheme \<Rightarrow> int" where
  "SF_Find key m = SF_Find_from key [0..<FINESSE_SF_NUM] m"

definition SF_Insert :: "byte list \<Rightarrow> int \<Rightarrow> 'z AbsMethod_scheme \<Rightarrow> 'z AbsMethod_scheme" where
  "SF_Insert key i m =
     m\<lparr>SFindex := (\<lambda>j k. if j < FINESSE_SF_NUM \<and> k = sf_key key j then SFindex m j k @ [i] else SFindex m j k)\<rparr>"

section \<open>The Finesse features\<close>

text \<open>
  \<open>GetSF\<close> cuts the chunk into 12 subchunks, takes the maximal Rabin fingerprint of the 48-byte windows
  of each (modulo the prime \<open>SF_MOD\<close>), sorts the features in groups of three and hashes three
  super-features of four features each.  The multipliers \<open>TRANSPOSE_M\<close> and \<open>TRANSPOSE_A\<close> are never used.
\<close>

definition SF_A :: nat where "SF_A = 37"
definition SF_MOD :: nat where "SF_MOD = 1000000007"
definition WINDOW_SIZE :: nat where "WINDOW_SIZE = 48"
definition FEATURE_NUM :: nat where "FEATURE_NUM = 12"

lemmas sf_consts = SF_A_def SF_MOD_def WINDOW_SIZE_def FEATURE_NUM_def

definition Apower :: nat where
  "Apower = fold (\<lambda>_ a. a * SF_A mod SF_MOD) [0..<WINDOW_SIZE - 1] 1"

definition subchunkIndex :: "nat \<Rightarrow> nat \<Rightarrow> nat" where
  "subchunkIndex n i = n * i div FEATURE_NUM"

definition window_fp :: "(nat \<Rightarrow> nat) \<Rightarrow> nat \<Rightarrow> nat" where
  "window_fp src s = fold (\<lambda>j fp. (fp * SF_A + src j) mod SF_MOD) [s..<s + WINDOW_SIZE] 0"

text \<open>
  The sliding loop over \<open>j\<close> up to \<open>e - WINDOW_SIZE\<close>.  The fingerprint and what is subtracted from it are
  below the modulus, so the loop \<open>while (fp < 0)\<close> adds it at most once.
\<close>

function roll :: "(nat \<Rightarrow> nat) \<Rightarrow> nat \<Rightarrow> nat \<Rightarrow> nat \<Rightarrow> nat \<Rightarrow> nat" where
  "roll src e j fp feature =
     (if j + WINDOW_SIZE < e + 1 then
        let feature = (if fp > feature then fp else feature);
            out = src j * Apower mod SF_MOD;
            fp = (if fp < out then fp + SF_MOD - out else fp - out);
            fp = (if j + WINDOW_SIZE \<noteq> e then (fp * SF_A + src (j + WINDOW_SIZE)) mod SF_MOD else fp)
        in roll src e (j + 1) fp feature
      else feature)"
  by pat_completeness auto
termination
  by (relation "measure (\<lambda>(src, e, j, fp, feature). e + 1 - j)") (auto simp: sf_consts)

declare roll.simps [simp del]

definition subchunk_feature :: "byte list \<Rightarrow> nat \<Rightarrow> nat result" where
  "subchunk_feature data i =
     (let s = subchunkIndex (length data) i; e = subchunkIndex (length data) (i + 1);
          src = (\<lambda>j. unat (data ! j))
      in if s + WINDOW_SIZE \<le> length data then Inr (roll src e s (window_fp src s) 0) else Inl OutOfBounds)"

definition sort_groups :: "nat list \<Rightarrow> nat list" where
  "sort_groups feats = concat (map (\<lambda>i. sort (slice (i * FINESSE_SF_NUM) FINESSE_SF_NUM feats)) [0..<FEATURE_NUM div FINESSE_SF_NUM])"

definition sf_input :: "nat list \<Rightarrow> nat \<Rightarrow> byte list" where
  "sf_input feats i = concat (map (\<lambda>j. le_bytes 8 (feats ! (j * FINESSE_SF_NUM + i))) [0..<FEATURE_NUM div FINESSE_SF_NUM])"

definition GetSF :: "env \<Rightarrow> byte list \<Rightarrow> byte list result" where
  "GetSF x data =
     rbind (rfold (\<lambda>feats i. rbind (subchunk_feature data i) (\<lambda>v. Inr (feats @ [v]))) [] [0..<FEATURE_NUM]) (\<lambda>feats.
     let feats = sort_groups feats in
     rfold (\<lambda>sf i. rbind (GenerateHash x (sf_input feats i)) (\<lambda>h. Inr (sf @ h))) [] [0..<FINESSE_SF_NUM])"

section \<open>Delta encoding and statistics\<close>

definition xd3_encode :: "env \<Rightarrow> byte list \<Rightarrow> byte list \<Rightarrow> byte list result" where
  "xd3_encode x target base =
     (case xd3_encode_memory x target base (CONTAINER_MAX_SIZE * 2) of
        None \<Rightarrow> Inl Indeterminate | Some d \<Rightarrow> Inr d)"

definition StatsDelta :: "Chunk_t \<Rightarrow> 'z AbsMethod_scheme \<Rightarrow> 'z AbsMethod_scheme result" where
  "StatsDelta ch m =
     (if saveSize ch = 0 then Inl DivideByZero
      else Inr (m\<lparr>deltachunkOriSize := deltachunkOriSize m + of_nat (chunkSize ch),
                  deltachunkSize := deltachunkSize m + of_nat (saveSize ch),
                  deltachunkNum := Suc (deltachunkNum m),
                  DeltaReduct := DeltaReduct m + (of_nat (chunkSize ch) - of_nat (saveSize ch)),
                  DCESum := DCESum m + chunkSize ch div saveSize ch\<rparr>))"

definition StatsDeltaFeature :: "Chunk_t \<Rightarrow> 'z AbsMethod_scheme \<Rightarrow> 'z AbsMethod_scheme result" where
  "StatsDeltaFeature ch m =
     rbind (StatsDelta ch m) (\<lambda>m.
       Inr (m\<lparr>FeatureReduct := FeatureReduct m + (of_nat (chunkSize ch) - of_nat (saveSize ch))\<rparr>))"

definition StatsDeltaLocality :: "Chunk_t \<Rightarrow> 'z AbsMethod_scheme \<Rightarrow> 'z AbsMethod_scheme result" where
  "StatsDeltaLocality ch m =
     rbind (StatsDelta ch m) (\<lambda>m.
       Inr (m\<lparr>LocalityReduct := LocalityReduct m + (of_nat (chunkSize ch) - of_nat (saveSize ch))\<rparr>))"

text \<open>The state \<open>Version_log\<close> keeps for the next version; the two overloads differ in it.\<close>

definition Version_log :: "'z AbsMethod_scheme \<Rightarrow> 'z AbsMethod_scheme" where
  "Version_log m = m\<lparr>preLogicalchunkiSize := logicalchunkSize m\<rparr>"

definition Version_log_chunktime :: "'z AbsMethod_scheme \<Rightarrow> 'z AbsMethod_scheme" where
  "Version_log_chunktime m =
     m\<lparr>preLogicalchunkiSize := logicalchunkSize m, preuniquechunkSize := uniquechunkSize m\<rparr>"

section \<open>Merging and compressing whole files\<close>

text \<open>
  \<open>OriGenerate\<close>: the first \<open>backupNum\<close> files that can be opened, one behind the other, in \<open>ori\<close>.  The
  argument \<open>w\<close> tells which paths can be opened for writing.
\<close>

fun ori_collect :: "(string \<rightharpoonup> byte list) \<Rightarrow> string list \<Rightarrow> nat \<Rightarrow> nat \<Rightarrow> byte list" where
  "ori_collect f [] cnt n = []"
| "ori_collect f (p # ps) cnt n =
     (if cnt \<ge> n then []
      else case f p of None \<Rightarrow> ori_collect f ps cnt n
           | Some data \<Rightarrow> data @ ori_collect f ps (cnt + 1) n)"

definition OriGenerate :: "(string \<Rightarrow> bool) \<Rightarrow> string list \<Rightarrow> nat \<Rightarrow> (string \<rightharpoonup> byte list) \<Rightarrow> string \<rightharpoonup> byte list" where
  "OriGenerate w ps n f = (if w ''ori'' then f(''ori'' \<mapsto> ori_collect (f(''ori'' \<mapsto> [])) ps 0 n) else f)"

definition lc_blockSize :: nat where "lc_blockSize = 128 * 1024 * 1024"

definition LZ4_compressBound :: "nat \<Rightarrow> nat" where
  "LZ4_compressBound n = (if n > 0x7E000000 then 0 else n + n div 255 + 16)"

text \<open>
  \<open>CompressLargeFile\<close>: the bytes written (for each block the compressed size as a 32-bit integer and
  the compressed data) and the sum of the compressed sizes; a failed block ends it with the result 0.
\<close>

function lc_blocks :: "env \<Rightarrow> byte list \<Rightarrow> byte list \<Rightarrow> u64 \<Rightarrow> byte list \<times> u64" where
  "lc_blocks x inp out ans =
     (if inp = [] then (out, ans)
      else case lz4_compress x (take lc_blockSize inp) (LZ4_compressBound lc_blockSize) of
             None \<Rightarrow> (out, 0)
           | Some c \<Rightarrow>
               if c = [] then (out, 0)
               else lc_blocks x (drop lc_blockSize inp) (out @ le_bytes 4 (length c) @ c) (ans + of_nat (length c)))"
  by pat_completeness auto
termination
  by (relation "measure (\<lambda>(x, inp, out, ans). length inp)") (auto simp: lc_blockSize_def)

declare lc_blocks.simps [simp del]

definition CompressLargeFile :: "env \<Rightarrow> (string \<Rightarrow> bool) \<Rightarrow> string \<Rightarrow> string \<Rightarrow> (string \<rightharpoonup> byte list) \<Rightarrow> u64 \<times> (string \<rightharpoonup> byte list)" where
  "CompressLargeFile x w inPath outPath f =
     (case f inPath of
        None \<Rightarrow> (0, f)
      | Some inp \<Rightarrow>
          if w outPath then let (out, ans) = lc_blocks x inp [] 0 in (ans, f(outPath \<mapsto> out)) else (0, f))"

definition OriLC :: "env \<Rightarrow> (string \<Rightarrow> bool) \<Rightarrow> string \<Rightarrow> (string \<rightharpoonup> byte list) \<Rightarrow> 'z AbsMethod_scheme \<Rightarrow> 'z AbsMethod_scheme \<times> (string \<rightharpoonup> byte list)" where
  "OriLC x w inPath f m =
     (let (n, f) = CompressLargeFile x w inPath ''ori.lz4'' f in (m\<lparr>oriLCSize := n\<rparr>, f))"

section \<open>The largest subchunk\<close>

text \<open>
  \<open>ThirdCutPointHashMin\<close>: the first longest chunk of the FastCDC partition of a buffer.  The state is the
  offset, the largest cut so far and its start.
\<close>

definition third_step :: "Chunker \<Rightarrow> (nat \<Rightarrow> byte) \<Rightarrow> nat \<Rightarrow> nat \<times> nat \<times> nat \<Rightarrow> nat \<times> nat \<times> nat" where
  "third_step c src len = (\<lambda>(off, mx, start).
     let cp = CutPointFastCDC c (\<lambda>i. src (off + i)) (len - off)
     in if cp > mx then (off + cp, cp, off) else (off + cp, mx, start))"

definition ThirdCutPointHashMin :: "Chunker \<Rightarrow> (nat \<Rightarrow> byte) \<Rightarrow> nat \<Rightarrow> (nat \<times> nat) option" where
  "ThirdCutPointHashMin c src len =
     map_option (\<lambda>(_, mx, start). (start, start + mx))
       (while_option (\<lambda>(off, _, _). off < len) (third_step c src len) (0, 0, 0))"

section \<open>Correctness\<close>

subsection \<open>The rolling fingerprint\<close>

text \<open>The polynomial of the bytes \<open>j\<close> to \<open>j + n - 1\<close>, without the modulus.\<close>

fun horner :: "(nat \<Rightarrow> nat) \<Rightarrow> nat \<Rightarrow> nat \<Rightarrow> nat" where
  "horner src j 0 = 0"
| "horner src j (Suc n) = horner src j n * SF_A + src (j + n)"

lemma horner_front: "horner src j (Suc n) = src j * SF_A ^ n + horner src (Suc j) n"
  by (induction n) (simp_all add: algebra_simps)

lemma fold_horner:
  "fold (\<lambda>j fp. (fp * SF_A + src j) mod SF_MOD) [s..<s + n] 0 = horner src s n mod SF_MOD"
proof (induction n)
  case (Suc n)
  then show ?case by (simp add: mod_simps) (metis mod_add_left_eq mod_mult_left_eq)
qed simp

lemma window_fp_horner: "window_fp src s = horner src s WINDOW_SIZE mod SF_MOD"
  unfolding window_fp_def by (rule fold_horner)

lemma fold_power: "fold (\<lambda>_ a. a * SF_A mod SF_MOD) [0..<n] 1 = SF_A ^ n mod SF_MOD"
proof (induction n)
  case 0
  then show ?case by (simp add: sf_consts)
next
  case (Suc n)
  then show ?case by (simp add: mod_mult_right_eq mult.commute)
qed

lemma Apower_eq: "Apower = SF_A ^ (WINDOW_SIZE - 1) mod SF_MOD"
  unfolding Apower_def by (rule fold_power)

lemma window_lt: "window_fp src s < SF_MOD"
  unfolding window_fp_horner by (simp add: sf_consts)

lemma window_slide:
  fixes src j
  defines "out \<equiv> src j * Apower mod SF_MOD" and "fp \<equiv> window_fp src j"
  shows "((if fp < out then fp + SF_MOD - out else fp - out) * SF_A + src (j + WINDOW_SIZE)) mod SF_MOD
    = window_fp src (Suc j)"
proof -
  let ?d = "if fp < out then fp + SF_MOD - out else fp - out" and ?n = "WINDOW_SIZE - 1"
  have n: "WINDOW_SIZE = Suc ?n" by (simp add: sf_consts)
  have h: "horner src j WINDOW_SIZE = src j * SF_A ^ ?n + horner src (Suc j) ?n"
    using horner_front [of src j ?n] n by simp
  have lt: "out < SF_MOD" "fp < SF_MOD" unfolding out_def fp_def by (simp_all add: sf_consts window_lt [unfolded sf_consts])
  have "int ?d mod int SF_MOD = (int fp - int out) mod int SF_MOD"
  proof -
    have "int ?d = int fp - int out \<or> int ?d = int fp - int out + int SF_MOD" using lt by (auto simp: of_nat_diff)
    then show ?thesis by (elim disjE) (simp_all only: mod_add_self2)
  qed
  also have "\<dots> = (int (horner src j WINDOW_SIZE) - int (src j * SF_A ^ ?n)) mod int SF_MOD"
    unfolding fp_def out_def window_fp_horner Apower_eq by (simp add: zmod_int mod_simps)
  also have "\<dots> = int (horner src (Suc j) ?n) mod int SF_MOD" unfolding h by simp
  finally have d: "?d mod SF_MOD = horner src (Suc j) ?n mod SF_MOD"
    by (metis of_nat_eq_iff zmod_int)
  have "(?d * SF_A + src (j + WINDOW_SIZE)) mod SF_MOD
      = (horner src (Suc j) ?n * SF_A + src (j + WINDOW_SIZE)) mod SF_MOD"
    using d by (metis mod_add_cong mod_mult_cong)
  also have "\<dots> = horner src (Suc j) WINDOW_SIZE mod SF_MOD"
  proof -
    have "horner src (Suc j) WINDOW_SIZE = horner src (Suc j) ?n * SF_A + src (Suc j + ?n)"
      by (subst n) (rule horner.simps(2))
    moreover have "Suc j + ?n = j + WINDOW_SIZE" using n by simp
    ultimately show ?thesis by simp
  qed
  finally show ?thesis by (simp add: window_fp_horner)
qed

lemma roll_eq:
  "j + WINDOW_SIZE \<le> e + 1 \<Longrightarrow> (j + WINDOW_SIZE \<le> e \<Longrightarrow> fp = window_fp src j) \<Longrightarrow>
   roll src e j fp best = fold (\<lambda>i b. max b (window_fp src i)) [j..<e + 1 - WINDOW_SIZE] best"
proof (induction "e + 1 - j" arbitrary: j fp best rule: less_induct)
  case less
  show ?case
  proof (cases "j + WINDOW_SIZE < e + 1")
    case False
    then show ?thesis by (simp add: roll.simps [of src e j])
  next
    case True
    then have fp: "fp = window_fp src j" using less.prems(2) by simp
    let ?out = "src j * Apower mod SF_MOD"
    let ?fp1 = "if fp < ?out then fp + SF_MOD - ?out else fp - ?out"
    let ?fp2 = "if j + WINDOW_SIZE \<noteq> e then (?fp1 * SF_A + src (j + WINDOW_SIZE)) mod SF_MOD else ?fp1"
    have nxt: "Suc j + WINDOW_SIZE \<le> e \<Longrightarrow> ?fp2 = window_fp src (Suc j)"
      using window_slide [of src j] unfolding fp by simp
    have "roll src e j fp best = roll src e (Suc j) ?fp2 (max best fp)"
      using True by (simp add: roll.simps [of src e j fp best] Let_def max_def)
    also have "\<dots> = fold (\<lambda>i b. max b (window_fp src i)) [Suc j..<e + 1 - WINDOW_SIZE] (max best fp)"
      by (rule less.hyps) (use True nxt in \<open>auto simp: sf_consts\<close>)
    finally show ?thesis using True fp by (simp add: upt_conv_Cons [of j])
  qed
qed

text \<open>
  C27: The rolling computation of \<open>GetSF\<close> is right: the feature of a subchunk is the maximum of the
  fingerprints of all its 48-byte windows, each computed from scratch, and 0 when it has none.
\<close>

theorem subchunk_feature_is_max:
  assumes "s = subchunkIndex (length data) i" "e = subchunkIndex (length data) (i + 1)"
    and "s + WINDOW_SIZE \<le> length data" "s + WINDOW_SIZE \<le> e + 1"
  shows "subchunk_feature data i
    = Inr (Max (insert 0 (window_fp (\<lambda>j. unat (data ! j)) ` {j. s \<le> j \<and> j + WINDOW_SIZE \<le> e})))"
proof -
  let ?src = "\<lambda>j. unat (data ! j)"
  have "set [s..<e + 1 - WINDOW_SIZE] = {j. s \<le> j \<and> j + WINDOW_SIZE \<le> e}" by auto
  then show ?thesis
    using assms roll_eq [of s e "window_fp ?src s" ?src 0]
    by (simp add: subchunk_feature_def Let_def fold_max_list [where b = 0])
qed

theorem subchunk_feature_is_max_witness:
  "subchunk_feature (replicate 576 1) 2 = Inr (Max (insert 0 (window_fp (\<lambda>j. unat (replicate 576 (1 :: byte) ! j))
     ` {j. 96 \<le> j \<and> j + WINDOW_SIZE \<le> 144})))"
  by (rule subchunk_feature_is_max) (simp_all add: subchunkIndex_def sf_consts)

subsection \<open>The order of names\<close>

lemma compareNat_refl: "compareNat a a"
proof (induction a rule: length_induct)
  case (1 a)
  show ?case
  proof (cases "a = [] \<or> \<not> isdigit (hd a)")
    case True
    have "length (tl a) < length a" if "a \<noteq> []" using that by simp
    with 1 True show ?thesis by (subst compareNat.simps) auto
  next
    case False
    then have "length (snd (read_int a)) < length a" by (intro read_int_shorter) auto
    with 1 False show ?thesis by (auto simp: compareNat.simps [of a a] split: prod.split)
  qed
qed

lemma compareNat_linear: "compareNat a b \<or> compareNat b a"
proof (induction a b rule: compareNat.induct)
  case (1 a b)
  obtain ia anew where ra: "read_int a = (ia, anew)" by (cases "read_int a")
  obtain ib bnew where rb: "read_int b = (ib, bnew)" by (cases "read_int b")
  show ?case
  proof (cases "a = [] \<or> b = [] \<or> isdigit (hd a) \<noteq> isdigit (hd b)")
    case True
    then show ?thesis by (auto simp: compareNat.simps [of a b] compareNat.simps [of b a])
  next
    case ne: False
    show ?thesis
    proof (cases "isdigit (hd a)")
      case True
      have "compareNat anew bnew \<or> compareNat bnew anew" if "ia = ib"
        using "1.IH"(2) [OF _ _ _ _ _ ra [symmetric] refl rb [symmetric] refl] ne True that by simp
      with True ne show ?thesis
        by (auto simp: compareNat.simps [of a b] compareNat.simps [of b a] ra rb)
    next
      case False
      with "1.IH"(1) ne show ?thesis
        by (auto simp: compareNat.simps [of a b] compareNat.simps [of b a])
    qed
  qed
qed

text \<open>
  C28: \<open>compareNat\<close>, the comparator given to \<open>std::sort\<close> for the list of backups, is total and reflexive:
  it always terminates and orders any two names, but \<open>compareNat(a, a)\<close> is true, so it is not the
  strict ordering \<open>std::sort\<close> requires.
\<close>

theorem compareNat_total_not_strict: "(compareNat a b \<or> compareNat b a) \<and> compareNat a a"
  using compareNat_linear compareNat_refl by blast

subsection \<open>Block compression\<close>

text \<open>What the methods rely on in LZ4: a compressed block is not empty, fits, and decompresses to the input.\<close>

definition lz4_law :: "env \<Rightarrow> bool" where
  "lz4_law x \<longleftrightarrow> (\<forall>xs n c. lz4_compress x xs n = Some c \<longrightarrow> c \<noteq> [] \<and> length c \<le> n
     \<and> (\<forall>m \<ge> length xs. lz4_decompress x c m = Some xs))"

definition lz4_bound_law :: "env \<Rightarrow> bool" where
  "lz4_bound_law x \<longleftrightarrow> (\<forall>xs n. length xs \<le> n \<and> n \<le> 0x7E000000 \<longrightarrow> lz4_compress x xs (LZ4_compressBound n) \<noteq> None)"

lemma plain_env_laws: "lz4_law plain_env" "lz4_bound_law plain_env"
  by (auto simp: lz4_law_def lz4_bound_law_def plain_env_def LZ4_compressBound_def split: if_splits)

text \<open>The inverse of the block format.\<close>

fun lc_decode :: "env \<Rightarrow> nat \<Rightarrow> byte list \<Rightarrow> byte list option" where
  "lc_decode x 0 out = (if out = [] then Some [] else None)"
| "lc_decode x (Suc fuel) out =
     (if out = [] then Some []
      else let n = of_le (take 4 out) in
        case lz4_decompress x (slice 4 n out) lc_blockSize of
          None \<Rightarrow> None
        | Some b \<Rightarrow> map_option ((@) b) (lc_decode x fuel (drop (4 + n) out)))"

lemma lc_decode_fuel: "lc_decode x n out = Some bs \<Longrightarrow> n \<le> m \<Longrightarrow> lc_decode x m out = Some bs"
proof (induction x n out arbitrary: m bs rule: lc_decode.induct)
  case (1 x out)
  then show ?case by (cases m) (auto split: if_splits)
next
  case (2 x fuel out)
  then obtain k where m: "m = Suc k" "fuel \<le> k" by (cases m) auto
  show ?case
  proof (cases "out = []")
    case False
    let ?n = "of_le (take 4 out)"
    from "2.prems"(1) False obtain b r where d: "lz4_decompress x (slice 4 ?n out) lc_blockSize = Some b"
      "lc_decode x fuel (drop (4 + ?n) out) = Some r" "bs = b @ r"
      by (auto simp: Let_def split: option.splits)
    from "2.IH" [OF False refl d(1,2) m(2)] d False m(1) show ?thesis by simp
  qed (use "2.prems" m in simp)
qed

lemma lc_blocks_ok:
  assumes "lz4_law x" "lz4_bound_law x"
  shows "\<exists>enc n. lc_blocks x inp out ans = (out @ enc, ans + of_nat n) \<and> lc_decode x (length inp) enc = Some inp
    \<and> n + 4 * ((length inp + lc_blockSize - 1) div lc_blockSize) = length enc"
proof (induction "length inp" arbitrary: inp out ans rule: less_induct)
  case less
  show ?case
  proof (cases "inp = []")
    case True
    then show ?thesis by (simp add: lc_blocks.simps lc_blockSize_def)
  next
    case False
    let ?b = "take lc_blockSize inp" and ?r = "drop lc_blockSize inp"
    have "lz4_compress x ?b (LZ4_compressBound lc_blockSize) \<noteq> None"
      using assms(2) by (auto simp: lz4_bound_law_def lc_blockSize_def)
    then obtain c where c: "lz4_compress x ?b (LZ4_compressBound lc_blockSize) = Some c" by auto
    with assms(1) have c': "c \<noteq> []" "length c \<le> LZ4_compressBound lc_blockSize"
      "lz4_decompress x c lc_blockSize = Some ?b" by (auto simp: lz4_law_def)
    have rl: "length ?r < length inp" using False by (simp add: lc_blockSize_def)
    from less.hyps [OF rl, of "out @ le_bytes 4 (length c) @ c" "ans + of_nat (length c)"]
    obtain enc n where e: "lc_blocks x ?r (out @ le_bytes 4 (length c) @ c) (ans + of_nat (length c))
        = ((out @ le_bytes 4 (length c) @ c) @ enc, ans + of_nat (length c) + of_nat n)"
      "lc_decode x (length ?r) enc = Some ?r"
      "n + 4 * ((length ?r + lc_blockSize - 1) div lc_blockSize) = length enc" by blast
    have lc: "of_le (le_bytes 4 (length c)) = length c"
      using c'(2) by (intro of_le_bytes) (simp add: LZ4_compressBound_def lc_blockSize_def)
    have "lc_decode x (Suc (length ?r)) (le_bytes 4 (length c) @ c @ enc) = Some (?b @ ?r)"
      using c'(1,3) e(2) lc by (simp add: Let_def slice_def)
    then have "lc_decode x (length inp) (le_bytes 4 (length c) @ c @ enc) = Some inp"
      using lc_decode_fuel [of x "Suc (length ?r)" _ "?b @ ?r" "length inp"] rl by simp
    moreover have "lc_blocks x inp out ans = (out @ (le_bytes 4 (length c) @ c @ enc), ans + of_nat (length c + n))"
      using False c c'(1) e(1) by (simp add: lc_blocks.simps [of x inp] add.assoc)
    moreover have "(length inp + lc_blockSize - 1) div lc_blockSize = Suc ((length ?r + lc_blockSize - 1) div lc_blockSize)"
    proof (cases "length inp \<ge> lc_blockSize")
      case True
      then have "length inp + lc_blockSize - 1 = (length ?r + lc_blockSize - 1) + lc_blockSize"
        by (simp add: lc_blockSize_def)
      then show ?thesis by (simp only: div_add_self2 [of lc_blockSize]) (simp add: lc_blockSize_def)
    next
      case small: False
      with False have "0 < length inp" by simp
      then have "length inp + lc_blockSize - 1 = (length inp - 1) + lc_blockSize" by linarith
      moreover have "(length inp - 1) div lc_blockSize = 0" using small \<open>0 < length inp\<close> by simp
      moreover have "(length ?r + lc_blockSize - 1) div lc_blockSize = 0" using small by (simp add: lc_blockSize_def)
      ultimately show ?thesis by (simp only: div_add_self2 [of lc_blockSize]) (simp add: lc_blockSize_def)
    qed
    ultimately show ?thesis using e(3)
      by (intro exI [of _ "le_bytes 4 (length c) @ c @ enc"] exI [of _ "length c + n"]) simp
  qed
qed

lemma CompressLargeFile_ok:
  assumes "lz4_law x" "lz4_bound_law x" "f inPath = Some inp" "w outPath"
  shows "\<exists>out n. CompressLargeFile x w inPath outPath f = (of_nat n, f(outPath \<mapsto> out))
    \<and> n + 4 * ((length inp + lc_blockSize - 1) div lc_blockSize) = length out \<and> lc_decode x (length inp) out = Some inp"
proof -
  obtain enc n where e: "lc_blocks x inp [] 0 = (enc, of_nat n)" "lc_decode x (length inp) enc = Some inp"
    "n + 4 * ((length inp + lc_blockSize - 1) div lc_blockSize) = length enc"
    using lc_blocks_ok [OF assms(1,2), of inp "[]" 0] by auto
  then show ?thesis
    by (intro exI [of _ enc] exI [of _ n]) (simp add: CompressLargeFile_def assms(3,4))
qed



subsection \<open>The largest subchunk\<close>

text \<open>The FastCDC partition of a buffer from an offset on: starts and sizes.\<close>

function cdc_parts :: "Chunker \<Rightarrow> (nat \<Rightarrow> byte) \<Rightarrow> nat \<Rightarrow> nat \<Rightarrow> (nat \<times> nat) list" where
  "cdc_parts c src len off =
     (let cp = CutPointFastCDC c (\<lambda>i. src (off + i)) (len - off)
      in if off < len \<and> 0 < cp then (off, cp) # cdc_parts c src len (off + cp) else [])"
  by pat_completeness auto
termination
  by (relation "measure (\<lambda>(c, src, len, off). len - off)") auto

declare cdc_parts.simps [simp del]

definition longer :: "nat \<times> nat \<Rightarrow> nat \<times> nat \<Rightarrow> nat \<times> nat" where
  "longer = (\<lambda>(off, cp) (mx, start). if cp > mx then (cp, off) else (mx, start))"

lemma cdc_pos:
  "cdc_ok c \<Longrightarrow> 0 < n \<Longrightarrow> 0 < CutPointFastCDC c src n \<and> CutPointFastCDC c src n \<le> n"
  using CutPointFastCDC_bounds [of c n src] by (auto simp: cdc_ok_def)

lemma third_loop:
  assumes "cdc_ok c" "off \<le> len"
  shows "while_option (\<lambda>(off, _, _). off < len) (third_step c src len) (off, mx, start)
    = Some (len, fold longer (cdc_parts c src len off) (mx, start))"
  using assms(2)
proof (induction "len - off" arbitrary: off mx start rule: less_induct)
  case less
  show ?case
  proof (cases "off < len")
    case False
    with less.prems show ?thesis by (simp add: while_option_unfold cdc_parts.simps)
  next
    case True
    let ?cp = "CutPointFastCDC c (\<lambda>i. src (off + i)) (len - off)"
    have cp: "0 < ?cp" "?cp \<le> len - off" using cdc_pos [OF assms(1), of "len - off"] True by auto
    have IH: "while_option (\<lambda>(off, _, _). off < len) (third_step c src len) (off + ?cp, mx', start')
      = Some (len, fold longer (cdc_parts c src len (off + ?cp)) (mx', start'))" for mx' start'
      using True cp by (intro less.hyps) auto
    have parts: "cdc_parts c src len off = (off, ?cp) # cdc_parts c src len (off + ?cp)"
      using True cp by (simp add: cdc_parts.simps [of c src len off] Let_def)
    have "third_step c src len (off, mx, start) = (if ?cp > mx then (off + ?cp, ?cp, off) else (off + ?cp, mx, start))"
      "longer (off, ?cp) (mx, start) = (if ?cp > mx then (?cp, off) else (mx, start))"
      by (simp_all add: third_step_def longer_def Let_def)
    with True show ?thesis by (subst while_option_unfold) (simp add: IH parts)
  qed
qed

lemma cdc_parts_in:
  assumes "cdc_ok c" "p \<in> set (cdc_parts c src len off)"
  shows "fst p + snd p \<le> len"
  using assms
proof (induction c src len off rule: cdc_parts.induct)
  case (1 c src len off)
  let ?cp = "CutPointFastCDC c (\<lambda>i. src (off + i)) (len - off)"
  from "1.prems"(2) have g: "off < len \<and> 0 < ?cp"
    by (subst (asm) cdc_parts.simps) (auto simp: Let_def split: if_splits)
  with "1.prems"(2) have "p = (off, ?cp) \<or> p \<in> set (cdc_parts c src len (off + ?cp))"
    by (subst (asm) cdc_parts.simps) (simp add: Let_def)
  moreover have "?cp \<le> len - off" using cdc_pos [OF "1.prems"(1), of "len - off"] g by simp
  ultimately show ?case using "1.IH" [OF refl g "1.prems"(1)] g by auto
qed

lemma fold_longer:
  "fold longer ps (mx, start) = (m, s) \<Longrightarrow>
   (\<forall>p \<in> set ps. snd p \<le> m) \<and> mx \<le> m \<and> ((m, s) = (mx, start) \<or> (s, m) \<in> set ps)"
proof (induction ps arbitrary: mx start)
  case (Cons p ps)
  obtain off cp where p: "p = (off, cp)" by (cases p)
  show ?case
    using Cons.prems Cons.IH [of cp off] Cons.IH [of mx start] by (auto simp: p longer_def split: if_splits)
qed simp

lemma ThirdCutPoint_longest:
  assumes "cdc_ok c" "0 < len"
  shows "\<exists>s m. ThirdCutPointHashMin c src len = Some (s, s + m) \<and> (s, m) \<in> set (cdc_parts c src len 0)
    \<and> 0 < m \<and> s + m \<le> len \<and> (\<forall>p \<in> set (cdc_parts c src len 0). snd p \<le> m)"
proof -
  obtain m s where f: "fold longer (cdc_parts c src len 0) (0, 0) = (m, s)"
    by (cases "fold longer (cdc_parts c src len 0) (0, 0)")
  let ?cp = "CutPointFastCDC c src len"
  have cp: "0 < ?cp" "?cp \<le> len" using cdc_pos [OF assms] by auto
  then have "(0, ?cp) \<in> set (cdc_parts c src len 0)" using assms(2) by (simp add: cdc_parts.simps [of c src len 0] Let_def)
  with fold_longer [OF f] cp(1) have m: "0 < m" "(s, m) \<in> set (cdc_parts c src len 0)"
    "\<forall>p \<in> set (cdc_parts c src len 0). snd p \<le> m" by auto
  have "s + m \<le> len" using cdc_parts_in [OF assms(1) m(2)] by simp
  moreover have "ThirdCutPointHashMin c src len = Some (s, s + m)"
    using third_loop [OF assms(1), of 0 len src 0 0] f by (simp add: ThirdCutPointHashMin_def)
  ultimately show ?thesis using m by blast
qed

lemma ThirdCutPointHashMin_returns: "cdc_ok c \<Longrightarrow> 0 < len \<Longrightarrow> \<exists>s e. ThirdCutPointHashMin c src len = Some (s, e)"
  using ThirdCutPoint_longest by blast

text \<open>
  C29: \<open>ThirdCutPointHashMin\<close> returns on every non-empty buffer and delivers a longest chunk of its
  FastCDC partition, so the delivered range is not empty and inside the buffer.
\<close>

theorem ThirdCutPointHashMin_longest:
  assumes "cdc_ok c" "0 < len"
  shows "\<exists>s m. ThirdCutPointHashMin c src len = Some (s, s + m) \<and> (s, m) \<in> set (cdc_parts c src len 0)
    \<and> 0 < m \<and> s + m \<le> len \<and> (\<forall>p \<in> set (cdc_parts c src len 0). snd p \<le> m)"
  by (rule ThirdCutPoint_longest [OF assms])

theorem ThirdCutPointHashMin_longest_witness:
  "\<exists>s m. ThirdCutPointHashMin fastcdc0 (\<lambda>_. 0) 5000 = Some (s, s + m) \<and> 0 < m \<and> s + m \<le> 5000"
  using ThirdCutPointHashMin_longest [OF fastcdc0_ok, of 5000 "\<lambda>_. 0"] by auto

end
