(* ===== verification/Dedup.thy ===== *)
theory Dedup
  imports AbsMethod
begin

text \<open>
  Exact deduplication, \<open>src/method/Dedup.cc\<close>, and the contract \<open>backup_method\<close> every lossless method of
  the program has to meet: processing a chunk appends to the recipe of the current backup an entry
  whose content is the chunk, and keeps the contents of all entries.  Restoring a backup that was
  processed by such a method gives back its bytes.
\<close>

section \<open>Processing a chunk\<close>

text \<open>
  Compression of a unique chunk: LZ4 may use at most \<open>chunkSize\<close> bytes; when that fails the chunk is
  stored as it is.  The 4 MiB output buffer would overflow for a larger result.
\<close>

definition lz4_chunk :: "env \<Rightarrow> Chunk_t \<Rightarrow> (Chunk_t \<times> byte list) result" where
  "lz4_chunk x ch =
     (case lz4_compress x (take (chunkSize ch) (chunkPtr ch)) (chunkSize ch) of
        None \<Rightarrow> Inr (ch\<lparr>deltaFlag := NO_LZ4, saveSize := chunkSize ch\<rparr>, [])
      | Some buf \<Rightarrow> if length buf > CONTAINER_MAX_SIZE then Inl OutOfBounds
                    else Inr (ch\<lparr>deltaFlag := NO_DELTA, saveSize := length buf\<rparr>, buf))"

text \<open>The bookkeeping of containers in \<open>Dedup.cc\<close>; the store assigns the place of the chunk again.\<close>

definition dedup_place :: "Chunk_t \<Rightarrow> AbsMethod \<Rightarrow> Chunk_t \<times> AbsMethod" where
  "dedup_place ch m =
     (let m = (if ContainerSize m + of_nat (chunkSize ch) > of_nat CONTAINER_MAX_SIZE
               then m\<lparr>tu_containerNum := Suc (tu_containerNum m), ContainerSize := 0\<rparr> else m)
      in (ch\<lparr>containerID := tu_containerNum m, offset := unat (ContainerSize m)\<rparr>,
          m\<lparr>ContainerSize := ContainerSize m + of_nat (chunkSize ch)\<rparr>))"

definition dedup_unique :: "env \<Rightarrow> byte list \<Rightarrow> Chunk_t \<Rightarrow> AbsMethod \<Rightarrow> (Chunk_t \<times> AbsMethod) result" where
  "dedup_unique x h ch m =
     rbind (lz4_chunk x (ch\<lparr>chunkID := uniquechunkNum m\<rparr>)) (\<lambda>(ch, buf).
     let m = FP_Insert h (int (chunkID ch)) m;
         (ch, m) = dedup_place ch m
     in rbind (if deltaFlag ch = NO_LZ4 then Chunk_Insert ch (dataWrite m) else Chunk_Insert_lz4 ch buf (dataWrite m))
          (\<lambda>dw. Inr (ch, m\<lparr>dataWrite := dw, basechunkNum := Suc (basechunkNum m),
             basechunkSize := basechunkSize m + of_nat (saveSize ch), uniquechunkNum := Suc (uniquechunkNum m),
             uniquechunkSize := uniquechunkSize m + of_nat (saveSize ch),
             LocalReduct := LocalReduct m + (of_nat (chunkSize ch) - of_nat (saveSize ch))\<rparr>)))"

definition dedup_duplicate :: "int \<Rightarrow> 'z AbsMethod_scheme \<Rightarrow> (Chunk_t \<times> 'z AbsMethod_scheme) result" where
  "dedup_duplicate i m =
     rbind (Get_Chunk_MetaInfo i (dataWrite m)) (\<lambda>ch.
       Inr (ch, m\<lparr>DedupReduct := DedupReduct m + of_nat (chunkSize ch)\<rparr>))"

definition note_recipe :: "Chunk_t \<Rightarrow> 'z AbsMethod_scheme \<Rightarrow> 'z AbsMethod_scheme" where
  "note_recipe ch m =
     m\<lparr>dataWrite := (if HeaderFlag ch then Recipe_Header_Insert (chunkID ch) (dataWrite m)
                     else Recipe_Insert (chunkID ch) (dataWrite m)),
       logicalchunkNum := Suc (logicalchunkNum m),
       logicalchunkSize := logicalchunkSize m + of_nat (chunkSize ch)\<rparr>"

definition dedup_chunk :: "env \<Rightarrow> AbsMethod \<Rightarrow> Chunk_t \<Rightarrow> AbsMethod result" where
  "dedup_chunk x m ch =
     rbind (read_ptr (chunkSize ch) (chunkPtr ch)) (\<lambda>data.
     rbind (GenerateHash x data) (\<lambda>h.
     let i = FP_Find h m in
     rbind (if i = - 1 then dedup_unique x h ch m else dedup_duplicate i m)
       (\<lambda>(ch, m). Inr (note_recipe ch m))))"

text \<open>\<open>ProcessTrace\<close> on the chunks it receives from the queue.\<close>

definition Dedup_ProcessTrace :: "env \<Rightarrow> Chunk_t list \<Rightarrow> AbsMethod \<Rightarrow> AbsMethod result" where
  "Dedup_ProcessTrace x chunks m =
     rbind (rfold (dedup_chunk x) m chunks) (\<lambda>m. Inr (m\<lparr>ads_Version := Suc (ads_Version m)\<rparr>))"

section \<open>The contract of a lossless method\<close>

definition good :: "env \<Rightarrow> (Chunk_t \<times> byte list) list \<Rightarrow> nat \<Rightarrow> byte list \<Rightarrow> bool" where
  "good x es i b \<longleftrightarrow> base_ok es i \<and> content x es i = Inr b"

lemma good_append: "good x es i b \<Longrightarrow> good x (es @ es') i b"
  by (auto simp: good_def base_ok_def content_def nth_append Let_def split: prod.splits)

lemma good_unique: "good x es i b \<Longrightarrow> good x es i b' \<Longrightarrow> b = b'"
  by (simp add: good_def)

definition appends_recipe :: "dataWrite \<Rightarrow> dataWrite \<Rightarrow> nat \<Rightarrow> bool" where
  "appends_recipe dw dw' i \<longleftrightarrow> filename dw' = filename dw \<and> writable dw' = writable dw
     \<and> RecipeMap dw' = (RecipeMap dw)(filename dw := RecipeMap dw (filename dw) @ [i])"

text \<open>The store holds the bytes \<open>b\<close> under \<open>name\<close>; \<open>restoreFile\<close> then writes them.\<close>

definition holds_backup :: "env \<Rightarrow> dataWrite \<Rightarrow> string \<Rightarrow> byte list \<Rightarrow> bool" where
  "holds_backup x dw name b \<longleftrightarrow> (\<exists>bs. list_all2 (good x (store_abs dw)) (RecipeMap dw name) bs \<and> concat bs = b)"

lemma container_data_recipes [simp]:
  "container_data (dw\<lparr>filename := n\<rparr>) = container_data dw" "container_data (dw\<lparr>RecipeMap := r\<rparr>) = container_data dw"
  "container_data (dw\<lparr>RecipeMap_header := r\<rparr>) = container_data dw"
  by (simp_all add: container_data_def fun_eq_iff)

lemma store_abs_recipes [simp]:
  "store_abs (dw\<lparr>filename := n\<rparr>) = store_abs dw" "store_abs (dw\<lparr>RecipeMap := r\<rparr>) = store_abs dw"
  "store_abs (dw\<lparr>RecipeMap_header := r\<rparr>) = store_abs dw"
  by (simp_all add: store_abs_def entry_def payload_def)

lemma dw_inv_recipes [simp]:
  "dw_inv (dw\<lparr>filename := n\<rparr>) = dw_inv dw" "dw_inv (dw\<lparr>RecipeMap := r\<rparr>) = dw_inv dw"
  "dw_inv (dw\<lparr>RecipeMap_header := r\<rparr>) = dw_inv dw"
  by (simp_all add: dw_inv_def file_ok_def cur_ok_def cache_ok_def placed_def)

lemma holds_backup_mono:
  assumes "holds_backup x dw name b" "RecipeMap dw' name = RecipeMap dw name"
    and "\<And>j b. good x (store_abs dw) j b \<Longrightarrow> good x (store_abs dw') j b"
  shows "holds_backup x dw' name b"
  using assms(1) unfolding holds_backup_def assms(2) by (metis (no_types, lifting) assms(3) list_all2_mono)

lemma holds_backup_restores:
  assumes "dw_inv dw" "holds_backup x dw name b" "writable dw (restore_path name)"
  shows "\<exists>dw'. restoreFile x name dw = Inr dw' \<and> fs dw' (restore_path name) = Some b"
proof -
  let ?es = "store_abs dw"
  let ?bs = "\<lambda>i. case content x ?es i of Inr b \<Rightarrow> b | Inl _ \<Rightarrow> []"
  obtain bs where bs: "list_all2 (good x ?es) (RecipeMap dw name) bs" "concat bs = b"
    using assms(2) by (auto simp: holds_backup_def)
  have g: "\<forall>i \<in> set (RecipeMap dw name). base_ok ?es i \<and> content x ?es i = Inr (?bs i)" and m: "map ?bs (RecipeMap dw name) = bs"
    using bs(1) by (induction rule: list_all2_induct) (auto simp: good_def)
  obtain dw' where "rfold (restore_step x) ([], dw) (RecipeMap dw name) = Inr (b, dw')" "recipes dw' = recipes dw"
    using restore_fold_ok [OF assms(1) g, of "[]"] m bs(2) by auto
  with assms(3) show ?thesis by (auto simp: restoreFile_def write_restored_def recipes_def)
qed

locale backup_method =
  fixes x :: env and step :: "'m \<Rightarrow> Chunk_t \<Rightarrow> 'm result" and inv :: "'m \<Rightarrow> bool"
    and store :: "'m \<Rightarrow> dataWrite" and okc :: "Chunk_t \<Rightarrow> bool"
  assumes inv_store: "inv m \<Longrightarrow> dw_inv (store m)"
    and step_ok: "inv m \<Longrightarrow> okc ch \<Longrightarrow> \<exists>m' i. step m ch = Inr m' \<and> inv m'
      \<and> appends_recipe (store m) (store m') i \<and> good x (store_abs (store m')) i (chunkPtr ch)
      \<and> (\<forall>j b. good x (store_abs (store m)) j b \<longrightarrow> good x (store_abs (store m')) j b)"
begin

lemma steps_ok:
  assumes "inv m" "list_all okc chunks"
  shows "\<exists>m' is. rfold step m chunks = Inr m' \<and> inv m' \<and> filename (store m') = filename (store m)
    \<and> writable (store m') = writable (store m)
    \<and> RecipeMap (store m') = (RecipeMap (store m))(filename (store m) := RecipeMap (store m) (filename (store m)) @ is)
    \<and> list_all2 (\<lambda>i ch. good x (store_abs (store m')) i (chunkPtr ch)) is chunks
    \<and> (\<forall>j b. good x (store_abs (store m)) j b \<longrightarrow> good x (store_abs (store m')) j b)"
  using assms
proof (induction chunks arbitrary: m)
  case Nil
  then show ?case by (intro exI [of _ m] exI [of _ "[]"]) simp
next
  case (Cons ch chunks)
  then obtain m1 i where m1: "step m ch = Inr m1" "inv m1" "appends_recipe (store m) (store m1) i"
    "good x (store_abs (store m1)) i (chunkPtr ch)"
    "\<forall>j b. good x (store_abs (store m)) j b \<longrightarrow> good x (store_abs (store m1)) j b"
    using step_ok [of m ch] by auto
  have ok: "list_all okc chunks" using Cons.prems(2) by simp
  obtain m2 "is" where m2: "rfold step m1 chunks = Inr m2" "inv m2" "filename (store m2) = filename (store m1)"
    "writable (store m2) = writable (store m1)"
    "RecipeMap (store m2) = (RecipeMap (store m1))(filename (store m1) := RecipeMap (store m1) (filename (store m1)) @ is)"
    "list_all2 (\<lambda>i ch. good x (store_abs (store m2)) i (chunkPtr ch)) is chunks"
    "\<forall>j b. good x (store_abs (store m1)) j b \<longrightarrow> good x (store_abs (store m2)) j b"
    using Cons.IH [OF m1(2) ok] by blast
  show ?case
    by (intro exI [of _ m2] exI [of _ "i # is"])
      (use m1 m2 in \<open>auto simp: appends_recipe_def\<close>)
qed

text \<open>A backup that starts with an empty recipe holds its chunks at the end; other backups keep what they hold.\<close>

theorem run_holds:
  assumes "inv m" "list_all okc chunks" "RecipeMap (store m) (filename (store m)) = []"
  shows "\<exists>m'. rfold step m chunks = Inr m' \<and> inv m' \<and> writable (store m') = writable (store m)
    \<and> (\<forall>name. name \<noteq> filename (store m) \<longrightarrow> RecipeMap (store m') name = RecipeMap (store m) name)
    \<and> holds_backup x (store m') (filename (store m)) (concat (map chunkPtr chunks))
    \<and> (\<forall>name b. name \<noteq> filename (store m) \<longrightarrow> holds_backup x (store m) name b \<longrightarrow> holds_backup x (store m') name b)"
proof -
  let ?name = "filename (store m)"
  obtain m' "is" where m': "rfold step m chunks = Inr m'" "inv m'" "writable (store m') = writable (store m)"
    "RecipeMap (store m') = (RecipeMap (store m))(?name := is)"
    "list_all2 (\<lambda>i ch. good x (store_abs (store m')) i (chunkPtr ch)) is chunks"
    "\<forall>j b. good x (store_abs (store m)) j b \<longrightarrow> good x (store_abs (store m')) j b"
    using steps_ok [OF assms(1,2)] assms(3) by (metis append_Nil)
  have "holds_backup x (store m') ?name (concat (map chunkPtr chunks))"
    unfolding holds_backup_def
    by (rule exI [of _ "map chunkPtr chunks"]) (use m'(4,5) in \<open>simp add: list_all2_map2\<close>)
  moreover have "holds_backup x (store m') name b" if "name \<noteq> ?name" "holds_backup x (store m) name b" for name b
    by (rule holds_backup_mono [OF that(2)]) (use that(1) m'(4,6) in auto)
  ultimately show ?thesis using m' by auto
qed

end

text \<open>
  Whole runs: one backup after the other, with the actions of the method around each of them.  \<open>left n m\<close>
  says that the method can process \<open>n\<close> further backups; most methods can process any number.
\<close>

locale backup_run = backup_method +
  fixes job :: "'a \<Rightarrow> string \<times> Chunk_t list \<Rightarrow> 'a result"
    and start :: "string \<Rightarrow> 'a \<Rightarrow> 'a" and finish :: "'a \<Rightarrow> 'a" and left :: "nat \<Rightarrow> 'a \<Rightarrow> bool"
  assumes job_eq: "job m (name, chunks) = rbind (rfold step (start name m) chunks) (\<lambda>m. Inr (finish m))"
    and start_inv: "inv m \<Longrightarrow> inv (start name m)" and start_left: "left n m \<Longrightarrow> left n (start name m)"
    and step_left: "inv m \<Longrightarrow> okc ch \<Longrightarrow> left n m \<Longrightarrow> step m ch = Inr m' \<Longrightarrow> left n m'"
    and finish_inv: "inv m \<Longrightarrow> left (Suc n) m \<Longrightarrow> inv (finish m)"
    and finish_left: "inv m \<Longrightarrow> left (Suc n) m \<Longrightarrow> left n (finish m)"
    and start_store: "store (start name m) = dw_SetFilename name (store m)" and finish_store: "store (finish m) = store m"
begin

lemma steps_left: "inv m \<Longrightarrow> list_all okc chunks \<Longrightarrow> left n m \<Longrightarrow> rfold step m chunks = Inr m' \<Longrightarrow> left n m'"
proof (induction chunks arbitrary: m)
  case (Cons ch chunks)
  then obtain m1 where m1: "step m ch = Inr m1" "rfold step m1 chunks = Inr m'" by (auto simp: rbind_eq_Inr_iff)
  then have "inv m1" using step_ok [of m ch] Cons.prems by auto
  with Cons m1 show ?case using step_left [of m ch n m1] by auto
qed simp

lemma job_holds:
  assumes "inv m" "list_all okc chunks" "RecipeMap (store m) name = []" "left (Suc n) m"
  shows "\<exists>m'. job m (name, chunks) = Inr m' \<and> inv m' \<and> left n m' \<and> writable (store m') = writable (store m)
    \<and> (\<forall>other. other \<noteq> name \<longrightarrow> RecipeMap (store m') other = RecipeMap (store m) other)
    \<and> holds_backup x (store m') name (concat (map chunkPtr chunks))
    \<and> (\<forall>other b. other \<noteq> name \<longrightarrow> holds_backup x (store m) other b \<longrightarrow> holds_backup x (store m') other b)"
proof -
  have h: "holds_backup x (store (start name m)) other b = holds_backup x (store m) other b" for other b
    by (simp add: start_store dw_SetFilename_def holds_backup_def)
  have "RecipeMap (store (start name m)) (filename (store (start name m))) = []"
    using assms(3) by (simp add: start_store dw_SetFilename_def)
  from run_holds [OF start_inv [OF assms(1)] assms(2) this] obtain m' where
    "rfold step (start name m) chunks = Inr m'" "inv m'" "writable (store m') = writable (store m)"
    "\<forall>other. other \<noteq> name \<longrightarrow> RecipeMap (store m') other = RecipeMap (store m) other"
    "holds_backup x (store m') name (concat (map chunkPtr chunks))"
    "\<forall>other b. other \<noteq> name \<longrightarrow> holds_backup x (store m) other b \<longrightarrow> holds_backup x (store m') other b"
    unfolding h by (auto simp: start_store dw_SetFilename_def)
  moreover from this have "left (Suc n) m'"
    using steps_left [OF start_inv [OF assms(1)] assms(2) start_left [OF assms(4)]] by blast
  ultimately show ?thesis using finish_inv [of m' n] finish_left [of m' n] by (auto simp: job_eq finish_store)
qed

theorem run_keeps_all:
  assumes "inv m" "left (length jobs) m" "\<forall>j \<in> set jobs. list_all okc (snd j)" "distinct (map fst jobs)"
    and "\<forall>name \<in> fst ` set jobs. RecipeMap (store m) name = []"
  shows "\<exists>m'. rfold job m jobs = Inr m' \<and> inv m' \<and> writable (store m') = writable (store m)
    \<and> (\<forall>other b. other \<notin> fst ` set jobs \<longrightarrow> holds_backup x (store m) other b \<longrightarrow> holds_backup x (store m') other b)
    \<and> list_all (\<lambda>(name, chunks). holds_backup x (store m') name (concat (map chunkPtr chunks))) jobs"
  using assms
proof (induction jobs arbitrary: m)
  case Nil
  then show ?case by simp
next
  case (Cons j jobs)
  obtain name chunks where j: "j = (name, chunks)" by (cases j)
  with Cons.prems obtain m1 where m1: "job m (name, chunks) = Inr m1" "inv m1" "left (length jobs) m1" "writable (store m1) = writable (store m)"
    "\<forall>other. other \<noteq> name \<longrightarrow> RecipeMap (store m1) other = RecipeMap (store m) other"
    "holds_backup x (store m1) name (concat (map chunkPtr chunks))"
    "\<forall>other b. other \<noteq> name \<longrightarrow> holds_backup x (store m) other b \<longrightarrow> holds_backup x (store m1) other b"
    using job_holds [of m chunks name "length jobs"] by auto
  have p: "\<forall>j \<in> set jobs. list_all okc (snd j)" "distinct (map fst jobs)" "name \<notin> fst ` set jobs"
    "\<forall>name \<in> fst ` set jobs. RecipeMap (store m1) name = []"
    using Cons.prems j m1(5) by (auto simp: image_iff) (metis fst_conv)
  obtain m2 where m2: "rfold job m1 jobs = Inr m2" "inv m2" "writable (store m2) = writable (store m1)"
    "\<forall>other b. other \<notin> fst ` set jobs \<longrightarrow> holds_backup x (store m1) other b \<longrightarrow> holds_backup x (store m2) other b"
    "list_all (\<lambda>(name, chunks). holds_backup x (store m2) name (concat (map chunkPtr chunks))) jobs"
    using Cons.IH [OF m1(2,3) p(1,2,4)] by blast
  show ?case by (rule exI [of _ m2]) (use j m1 m2 p(3) in auto)
qed

end

section \<open>Deduplication is lossless\<close>

text \<open>
  What the method relies on in SHA-256: it succeeds with 32 bytes on the contents \<open>C\<close> that occur, and has
  no collision among them.
\<close>

definition hash_law :: "env \<Rightarrow> byte list set \<Rightarrow> bool" where
  "hash_law x C \<longleftrightarrow> (\<forall>b \<in> C. \<exists>h. sha256 x b = Some h \<and> length h = CHUNK_HASH_SIZE) \<and> inj_on (sha256 x) C"

definition plain_entry :: "env \<Rightarrow> nat \<Rightarrow> Chunk_t \<times> byte list \<Rightarrow> byte list \<Rightarrow> bool" where
  "plain_entry x k e b \<longleftrightarrow> chunkID (fst e) = k \<and> \<not> HeaderFlag (fst e) \<and> deltaFlag (fst e) \<in> {NO_DELTA, NO_LZ4}
     \<and> decode x (fst e) (snd e) = Inr b \<and> chunkSize (fst e) = length b"

definition dedup_inv :: "env \<Rightarrow> byte list set \<Rightarrow> AbsMethod \<Rightarrow> bool" where
  "dedup_inv x C m \<longleftrightarrow> (let es = store_abs (dataWrite m) in
     dw_inv (dataWrite m) \<and> uniquechunkNum m = length es
     \<and> (\<forall>h i. FPindex m h = Some i \<longrightarrow>
          (\<exists>k < length es. \<exists>b \<in> C. i = int k \<and> plain_entry x k (es ! k) b \<and> sha256 x b = Some h)))"

text \<open>
  The same with header chunks: the record of a stored chunk carries the flag of its content, which is \<open>T\<close>.  A content that
  occurs both as header segment and as data has no such \<open>T\<close>.
\<close>

definition kept_entry :: "env \<Rightarrow> bool \<Rightarrow> nat \<Rightarrow> Chunk_t \<times> byte list \<Rightarrow> byte list \<Rightarrow> bool" where
  "kept_entry x t k e b \<longleftrightarrow> chunkID (fst e) = k \<and> HeaderFlag (fst e) = t \<and> deltaFlag (fst e) \<in> {NO_DELTA, NO_LZ4}
     \<and> decode x (fst e) (snd e) = Inr b \<and> chunkSize (fst e) = length b"

definition tag_inv :: "env \<Rightarrow> byte list set \<Rightarrow> (byte list \<Rightarrow> bool) \<Rightarrow> AbsMethod \<Rightarrow> bool" where
  "tag_inv x C T m \<longleftrightarrow> (let es = store_abs (dataWrite m) in
     dw_inv (dataWrite m) \<and> uniquechunkNum m = length es
     \<and> (\<forall>h i. FPindex m h = Some i \<longrightarrow>
          (\<exists>k < length es. \<exists>b \<in> C. i = int k \<and> kept_entry x (T b) k (es ! k) b \<and> sha256 x b = Some h)))"

definition tag_ok :: "byte list set \<Rightarrow> (byte list \<Rightarrow> bool) \<Rightarrow> Chunk_t \<Rightarrow> bool" where
  "tag_ok C T ch \<longleftrightarrow> chunk_wf ch \<and> chunkSize ch \<le> CONTAINER_MAX_SIZE \<and> HeaderFlag ch = T (chunkPtr ch) \<and> chunkPtr ch \<in> C"

definition noted :: "bool \<Rightarrow> dataWrite \<Rightarrow> dataWrite \<Rightarrow> nat \<Rightarrow> bool" where
  "noted t dw dw' i \<longleftrightarrow> recipes dw' = recipes (if t then Recipe_Header_Insert i dw else Recipe_Insert i dw)"

lemma plain_kept: "plain_entry x k e b \<longleftrightarrow> kept_entry x False k e b"
  by (simp add: plain_entry_def kept_entry_def)

definition dedup_chunk_ok :: "byte list set \<Rightarrow> Chunk_t \<Rightarrow> bool" where
  "dedup_chunk_ok C ch \<longleftrightarrow> chunk_wf ch \<and> chunkSize ch \<le> CONTAINER_MAX_SIZE \<and> \<not> HeaderFlag ch \<and> chunkPtr ch \<in> C"

lemma dedup_as_tagged: "dedup_inv x C m = tag_inv x C (\<lambda>_. False) m" "dedup_chunk_ok C ch = tag_ok C (\<lambda>_. False) ch"
  by (simp_all add: dedup_inv_def tag_inv_def dedup_chunk_ok_def tag_ok_def plain_kept)

lemma kept_entry_good: "k < length es \<Longrightarrow> kept_entry x t k (es ! k) b \<Longrightarrow> good x es k b"
  by (cases "es ! k") (auto simp: kept_entry_def good_def base_ok_def content_def read_ptr_def)

lemmas plain_entry_good = kept_entry_good [where t = False, folded plain_kept]

lemma lz4_chunk_ok:
  assumes "lz4_law x" "chunk_wf ch" "chunkSize ch \<le> CONTAINER_MAX_SIZE"
  shows "\<exists>f n buf. lz4_chunk x ch = Inr (ch\<lparr>deltaFlag := f, saveSize := n\<rparr>, buf) \<and> n \<le> CONTAINER_MAX_SIZE
    \<and> (f = NO_LZ4 \<and> n = chunkSize ch
       \<or> f = NO_DELTA \<and> n = length buf \<and> lz4_decompress x buf CONTAINER_MAX_SIZE = Some (chunkPtr ch))"
proof (cases "lz4_compress x (take (chunkSize ch) (chunkPtr ch)) (chunkSize ch)")
  case None
  with assms(3) show ?thesis by (auto simp: lz4_chunk_def)
next
  case (Some buf)
  then have c: "lz4_compress x (chunkPtr ch) (chunkSize ch) = Some buf" using assms(2) by (simp add: chunk_wf_def)
  with assms have "length buf \<le> chunkSize ch" "lz4_decompress x buf CONTAINER_MAX_SIZE = Some (chunkPtr ch)"
    by (auto simp: lz4_law_def chunk_wf_def)
  with Some assms(3) show ?thesis
    by (intro exI [of _ NO_DELTA] exI [of _ "length buf"] exI [of _ buf]) (simp add: lz4_chunk_def)
qed

lemma dedup_unique_ok:
  assumes "lz4_law x" "chunk_wf ch" "chunkSize ch \<le> CONTAINER_MAX_SIZE"
    and inv: "dw_inv (dataWrite m)" and k: "uniquechunkNum m = length (store_abs (dataWrite m))"
  shows "\<exists>ch' m' e. dedup_unique x h ch m = Inr (ch', m') \<and> chunkID ch' = uniquechunkNum m \<and> HeaderFlag ch' = HeaderFlag ch
    \<and> dw_inv (dataWrite m') \<and> store_abs (dataWrite m') = store_abs (dataWrite m) @ [e]
    \<and> kept_entry x (HeaderFlag ch) (uniquechunkNum m) e (chunkPtr ch) \<and> recipes (dataWrite m') = recipes (dataWrite m)
    \<and> uniquechunkNum m' = Suc (uniquechunkNum m) \<and> FPindex m' = (FPindex m)(h \<mapsto> int (uniquechunkNum m))"
proof -
  let ?ch = "ch\<lparr>chunkID := uniquechunkNum m\<rparr>"
  obtain f n buf where l: "lz4_chunk x ?ch = Inr (?ch\<lparr>deltaFlag := f, saveSize := n\<rparr>, buf)" "n \<le> CONTAINER_MAX_SIZE"
    and fn: "f = NO_LZ4 \<and> n = chunkSize ch
       \<or> f = NO_DELTA \<and> n = length buf \<and> lz4_decompress x buf CONTAINER_MAX_SIZE = Some (chunkPtr ch)"
    using lz4_chunk_ok [of x ?ch] assms(1-3) by (auto simp: chunk_wf_def)
  let ?m = "FP_Insert h (int (uniquechunkNum m)) m"
  obtain c m1 where p: "dedup_place (?ch\<lparr>deltaFlag := f, saveSize := n\<rparr>) ?m = (c, m1)" by fastforce
  then have c: "chunkID c = uniquechunkNum m" "HeaderFlag c = HeaderFlag ch" "deltaFlag c = f" "saveSize c = n"
      "chunkPtr c = chunkPtr ch" "chunkSize c = chunkSize ch"
    and m1: "dataWrite m1 = dataWrite m" "uniquechunkNum m1 = uniquechunkNum m"
      "FPindex m1 = (FPindex m)(h \<mapsto> int (uniquechunkNum m))"
    by (auto simp: dedup_place_def FP_Insert_def Let_def)
  have len: "chunkSize ch = length (chunkPtr ch)" using assms(2) by (simp add: chunk_wf_def)
  define src where "src = (if f = NO_LZ4 then chunkPtr ch else buf)"
  have "\<exists>dw. (if deltaFlag c = NO_LZ4 then Chunk_Insert c (dataWrite m1) else Chunk_Insert_lz4 c buf (dataWrite m1)) = Inr dw
      \<and> dw_inv dw \<and> store_abs dw = store_abs (dataWrite m) @ [(core c, take n src)] \<and> recipes dw = recipes (dataWrite m)"
    using fn c m1(1) l(2) len store.raw_ok [OF inv, of c] store.lz4_ok [OF inv, of c buf] by (auto simp: src_def)
  then obtain dw where dw: "(if deltaFlag c = NO_LZ4 then Chunk_Insert c (dataWrite m1) else Chunk_Insert_lz4 c buf (dataWrite m1)) = Inr dw"
      "dw_inv dw" "store_abs dw = store_abs (dataWrite m) @ [(core c, take n src)]" "recipes dw = recipes (dataWrite m)"
    by blast
  have "kept_entry x (HeaderFlag ch) (uniquechunkNum m) (core c, take n src) (chunkPtr ch)"
    using fn c len by (auto simp: kept_entry_def decode_def src_def)
  with l(1) p dw c m1 show ?thesis by (auto simp: dedup_unique_def Let_def)
qed

lemma dedup_duplicate_ok:
  assumes "k < length (store_abs (dataWrite m))" "kept_entry x t k (store_abs (dataWrite m) ! k) b"
  shows "\<exists>ch' m'. dedup_duplicate (int k) m = Inr (ch', m') \<and> chunkID ch' = k \<and> HeaderFlag ch' = t
    \<and> dataWrite m' = dataWrite m \<and> uniquechunkNum m' = uniquechunkNum m \<and> FPindex m' = FPindex m"
  using assms
  by (auto simp: dedup_duplicate_def Get_Chunk_MetaInfo_def chunk_at_def kept_entry_def store_abs_def entry_def)

lemma note_recipe_ok:
  assumes "\<not> HeaderFlag ch"
  shows "appends_recipe (dataWrite m) (dataWrite (note_recipe ch m)) (chunkID ch)"
    and "store_abs (dataWrite (note_recipe ch m)) = store_abs (dataWrite m)"
    and "dw_inv (dataWrite (note_recipe ch m)) = dw_inv (dataWrite m)"
    and "uniquechunkNum (note_recipe ch m) = uniquechunkNum m" "FPindex (note_recipe ch m) = FPindex m"
  using assms by (simp_all add: note_recipe_def Recipe_Insert_def appends_recipe_def)

lemma note_recipe_noted:
  "noted (HeaderFlag ch) (dataWrite m) (dataWrite (note_recipe ch m)) (chunkID ch)"
  "store_abs (dataWrite (note_recipe ch m)) = store_abs (dataWrite m)" "dw_inv (dataWrite (note_recipe ch m)) = dw_inv (dataWrite m)"
  "uniquechunkNum (note_recipe ch m) = uniquechunkNum m" "FPindex (note_recipe ch m) = FPindex m"
  by (simp_all add: note_recipe_def noted_def Recipe_Insert_def Recipe_Header_Insert_def)

lemma tag_inv_append:
  assumes "tag_inv x C T m" "store_abs (dataWrite m') = store_abs (dataWrite m) @ [e]" "dw_inv (dataWrite m')"
    and "uniquechunkNum m' = Suc (uniquechunkNum m)" "FPindex m' = (FPindex m)(h \<mapsto> int (uniquechunkNum m))"
    and "kept_entry x (T b) (uniquechunkNum m) e b" "b \<in> C" "sha256 x b = Some h"
  shows "tag_inv x C T m'"
  using assms unfolding tag_inv_def Let_def
  by (auto simp: nth_append less_Suc_eq split: if_splits) (metis order_less_trans lessI nat_less_le)+

lemma tag_step_ok:
  assumes "lz4_law x" "hash_law x C" "tag_inv x C T m" "tag_ok C T ch"
  shows "\<exists>m' i. dedup_chunk x m ch = Inr m' \<and> tag_inv x C T m' \<and> noted (HeaderFlag ch) (dataWrite m) (dataWrite m') i
    \<and> good x (store_abs (dataWrite m')) i (chunkPtr ch)
    \<and> (\<forall>j b. good x (store_abs (dataWrite m)) j b \<longrightarrow> good x (store_abs (dataWrite m')) j b)
    \<and> dom (FPindex m') = insert (the (sha256 x (chunkPtr ch))) (dom (FPindex m))
    \<and> uniquechunkNum m' = (if the (sha256 x (chunkPtr ch)) \<in> dom (FPindex m) then uniquechunkNum m else Suc (uniquechunkNum m))"
proof -
  let ?es = "store_abs (dataWrite m)" and ?b = "chunkPtr ch"
  have ch: "chunk_wf ch" "chunkSize ch \<le> CONTAINER_MAX_SIZE" "HeaderFlag ch = T ?b" "?b \<in> C"
    using assms(4) by (simp_all add: tag_ok_def)
  obtain h where h: "sha256 x ?b = Some h" "length h = CHUNK_HASH_SIZE" using assms(2) ch(4) by (auto simp: hash_law_def)
  have run: "dedup_chunk x m ch = rbind (if FP_Find h m = - 1 then dedup_unique x h ch m else dedup_duplicate (FP_Find h m) m)
      (\<lambda>(ch, m). Inr (note_recipe ch m))"
    using ch(1) h by (simp add: dedup_chunk_def read_ptr_def chunk_wf_def GenerateHash_def)
  have inv: "dw_inv (dataWrite m)" "uniquechunkNum m = length ?es" using assms(3) by (simp_all add: tag_inv_def Let_def)
  show ?thesis
  proof (cases "FPindex m h")
    case None
    obtain c m1 e where u: "dedup_unique x h ch m = Inr (c, m1)" "chunkID c = length ?es" "HeaderFlag c = HeaderFlag ch"
        "dw_inv (dataWrite m1)" "store_abs (dataWrite m1) = ?es @ [e]" "kept_entry x (HeaderFlag ch) (length ?es) e ?b"
        "recipes (dataWrite m1) = recipes (dataWrite m)"
      and v: "uniquechunkNum m1 = Suc (uniquechunkNum m)" "FPindex m1 = (FPindex m)(h \<mapsto> int (uniquechunkNum m))"
      using dedup_unique_ok [OF assms(1) ch(1,2) inv, of h] inv(2) by auto
    let ?m = "note_recipe c m1"
    note n = note_recipe_noted [of c m1]
    have e: "store_abs (dataWrite ?m) = ?es @ [e]" using n(2) u(5) by simp
    have "tag_inv x C T ?m"
      by (rule tag_inv_append [OF assms(3) e _ _ _ _ ch(4) h(1)]) (use n u v inv(2) ch(3) in simp_all)
    moreover have "noted (HeaderFlag ch) (dataWrite m) (dataWrite ?m) (length ?es)"
      using n(1) u(2,3,7) by (simp add: noted_def recipes_def Recipe_Insert_def Recipe_Header_Insert_def)
    moreover have "good x (?es @ [e]) (length ?es) ?b" using u(6) by (auto intro!: kept_entry_good)
    moreover have "dedup_chunk x m ch = Inr ?m" using run None u(1) by (simp add: FP_Find_def)
    moreover have "dom (FPindex ?m) = insert (the (sha256 x ?b)) (dom (FPindex m))"
      "the (sha256 x ?b) \<notin> dom (FPindex m)" "uniquechunkNum ?m = Suc (uniquechunkNum m)"
      using n(4,5) v h(1) None by auto
    ultimately show ?thesis using e good_append by metis
  next
    case (Some i)
    then obtain k b where k: "k < length ?es" "b \<in> C" "i = int k" "kept_entry x (T b) k (?es ! k) b" "sha256 x b = Some h"
      using assms(3) by (fastforce simp: tag_inv_def Let_def)
    have b: "b = ?b" using k(2,5) ch(4) h(1) assms(2) by (auto simp: hash_law_def inj_on_def)
    obtain c m1 where d: "dedup_duplicate (int k) m = Inr (c, m1)" "chunkID c = k" "HeaderFlag c = HeaderFlag ch"
      "dataWrite m1 = dataWrite m" "uniquechunkNum m1 = uniquechunkNum m" "FPindex m1 = FPindex m"
      using dedup_duplicate_ok [OF k(1,4)] b ch(3) by auto
    let ?m = "note_recipe c m1"
    note n = note_recipe_noted [of c m1]
    have "tag_inv x C T ?m" using assms(3) n(2-5) d(4-6) by (simp add: tag_inv_def Let_def)
    moreover have "noted (HeaderFlag ch) (dataWrite m) (dataWrite ?m) k" using n(1) d(2-4) by simp
    moreover have "good x ?es k ?b" using kept_entry_good [OF k(1,4)] b by simp
    moreover have "dedup_chunk x m ch = Inr ?m" using run Some k(3) d(1) by (simp add: FP_Find_def)
    moreover have "dom (FPindex ?m) = insert (the (sha256 x ?b)) (dom (FPindex m))"
      "the (sha256 x ?b) \<in> dom (FPindex m)" "uniquechunkNum ?m = uniquechunkNum m"
      using n(4,5) d(5,6) h(1) Some by auto
    ultimately show ?thesis using n(2) d(4) by metis
  qed
qed

lemma dedup_step_ok:
  assumes "lz4_law x" "hash_law x C" "dedup_inv x C m" "dedup_chunk_ok C ch"
  shows "\<exists>m' i. dedup_chunk x m ch = Inr m' \<and> dedup_inv x C m' \<and> appends_recipe (dataWrite m) (dataWrite m') i
    \<and> good x (store_abs (dataWrite m')) i (chunkPtr ch)
    \<and> (\<forall>j b. good x (store_abs (dataWrite m)) j b \<longrightarrow> good x (store_abs (dataWrite m')) j b)
    \<and> dom (FPindex m') = insert (the (sha256 x (chunkPtr ch))) (dom (FPindex m))
    \<and> uniquechunkNum m' = (if the (sha256 x (chunkPtr ch)) \<in> dom (FPindex m) then uniquechunkNum m else Suc (uniquechunkNum m))"
proof -
  have "noted (HeaderFlag ch) dw dw' i \<Longrightarrow> appends_recipe dw dw' i" for dw dw' i
    using assms(4) by (simp add: dedup_chunk_ok_def noted_def recipes_def appends_recipe_def Recipe_Insert_def)
  moreover from assms(3,4) have "tag_inv x C (\<lambda>_. False) m" "tag_ok C (\<lambda>_. False) ch" by (simp_all only: dedup_as_tagged)
  note tag_step_ok [OF assms(1,2) this]
  ultimately show ?thesis unfolding dedup_as_tagged by metis
qed

text \<open>The loop of \<open>main\<close> for one backup, on the chunks the queue delivers.\<close>

definition set_backup :: "string \<Rightarrow> 'z AbsMethod_scheme \<Rightarrow> 'z AbsMethod_scheme" where
  "set_backup name m = (am_SetFilename name m)\<lparr>dataWrite := dw_SetFilename name (dataWrite m)\<rparr>"

definition Dedup_backup :: "env \<Rightarrow> AbsMethod \<Rightarrow> string \<times> Chunk_t list \<Rightarrow> AbsMethod result" where
  "Dedup_backup x m job = (case job of (name, chunks) \<Rightarrow> Dedup_ProcessTrace x chunks (set_backup name m))"

interpretation dedup: backup_run x "dedup_chunk x" "\<lambda>m. lz4_law x \<and> hash_law x C \<and> dedup_inv x C m" dataWrite
    "dedup_chunk_ok C" "Dedup_backup x" set_backup "\<lambda>m. m\<lparr>ads_Version := Suc (ads_Version m)\<rparr>" "\<lambda>n m. True"
  for x C
proof unfold_locales
  fix m ch
  assume "lz4_law x \<and> hash_law x C \<and> dedup_inv x C m" "dedup_chunk_ok C ch"
  then show "\<exists>m' i. dedup_chunk x m ch = Inr m' \<and> (lz4_law x \<and> hash_law x C \<and> dedup_inv x C m')
      \<and> appends_recipe (dataWrite m) (dataWrite m') i \<and> good x (store_abs (dataWrite m')) i (chunkPtr ch)
      \<and> (\<forall>j b. good x (store_abs (dataWrite m)) j b \<longrightarrow> good x (store_abs (dataWrite m')) j b)"
    using dedup_step_ok by blast
qed (auto simp: dedup_inv_def Let_def Dedup_backup_def Dedup_ProcessTrace_def set_backup_def am_SetFilename_def dw_SetFilename_def)

section \<open>Correctness\<close>

lemma dedup_inv_new:
  assumes "\<forall>cid. w (container_path cid)"
  shows "dedup_inv x C (AbsMethod_new (dataWrite_new f w))"
  using dataWrite_new_inv [OF assms] by (simp add: dedup_inv_def AbsMethod_new_def)

lemma dedup_counts:
  assumes "lz4_law x" "hash_law x C" "dedup_inv x C m" "list_all (dedup_chunk_ok C) chunks"
    and "S \<subseteq> C" "finite S" "dom (FPindex m) = (\<lambda>b. the (sha256 x b)) ` S" "uniquechunkNum m = card S"
  shows "\<exists>m'. rfold (dedup_chunk x) m chunks = Inr m' \<and> dedup_inv x C m'
    \<and> uniquechunkNum m' = card (S \<union> chunkPtr ` set chunks)"
  using assms(3-)
proof (induction chunks arbitrary: m S)
  case Nil
  then show ?case by simp
next
  case (Cons ch chunks)
  let ?h = "\<lambda>b. the (sha256 x b)" and ?b = "chunkPtr ch"
  have ch: "dedup_chunk_ok C ch" "list_all (dedup_chunk_ok C) chunks" using Cons.prems(2) by simp_all
  then have b: "?b \<in> C" by (simp add: dedup_chunk_ok_def)
  obtain m1 where m1: "dedup_chunk x m ch = Inr m1" "dedup_inv x C m1" "dom (FPindex m1) = insert (?h ?b) (dom (FPindex m))"
    "uniquechunkNum m1 = (if ?h ?b \<in> dom (FPindex m) then uniquechunkNum m else Suc (uniquechunkNum m))"
    using dedup_step_ok [OF assms(1,2) Cons.prems(1) ch(1)] by blast
  have "inj_on ?h C" using assms(2) unfolding hash_law_def inj_on_def by (metis option.sel)
  then have "?h ?b \<in> ?h ` S \<longleftrightarrow> ?b \<in> S" using Cons.prems(3) b by (auto simp: inj_on_def)
  then have "uniquechunkNum m1 = card (insert ?b S)"
    using m1(4) Cons.prems(4-6) by (simp add: card_insert_if)
  moreover have "dom (FPindex m1) = ?h ` insert ?b S" using m1(3) Cons.prems(5) by simp
  ultimately show ?case
    using Cons.IH [OF m1(2) ch(2), of "insert ?b S"] Cons.prems(3,4) b m1(1) by simp
qed


lemma plain_hash_law: "hash_law plain_env {[1, 2], [3]}"
  by (auto simp: hash_law_def plain_env_def inj_on_def CHUNK_HASH_SIZE_def)


text \<open>
  For a duplicate the method keeps only the record of the stored chunk, and that record decides the
  recipe: a header chunk whose bytes were first stored as a data chunk is entered in the data recipe
  (and the other way round), whatever its own flag says.
\<close>

theorem duplicate_uses_stored_flag:
  assumes "chunk_wf ch" "sha256 x (chunkPtr ch) = Some h" "length h = CHUNK_HASH_SIZE"
    and "FPindex m h = Some (int k)" "k < length (chunklist (dataWrite m))"
  shows "\<exists>m'. dedup_chunk x m ch = Inr m'
    \<and> dataWrite m' = (let old = chunklist (dataWrite m) ! k in
        if HeaderFlag old then Recipe_Header_Insert (chunkID old) (dataWrite m)
        else Recipe_Insert (chunkID old) (dataWrite m))"
  using assms
  by (simp add: dedup_chunk_def read_ptr_def chunk_wf_def GenerateHash_def FP_Find_def dedup_duplicate_def
      Get_Chunk_MetaInfo_def chunk_at_def note_recipe_def Let_def)

theorem duplicate_uses_stored_flag_witness:
  "\<exists>m'. dedup_chunk plain_env ((AbsMethod_new one_chunk_store)\<lparr>FPindex := [[1, 2] @ replicate 30 0 \<mapsto> 0]\<rparr>)
      (new_Chunk [1, 2] 2 True) = Inr m'
    \<and> RecipeMap (dataWrite m') (filename one_chunk_store) = RecipeMap one_chunk_store (filename one_chunk_store) @ [0]
    \<and> RecipeMap_header (dataWrite m') = RecipeMap_header one_chunk_store"
proof -
  let ?m = "(AbsMethod_new one_chunk_store)\<lparr>FPindex := [[1, 2] @ replicate 30 0 \<mapsto> 0]\<rparr>"
  have l: "length (chunklist one_chunk_store) = 1" and "core (chunklist one_chunk_store ! 0) = core ((new_Chunk [1, 2] 2 False)\<lparr>saveSize := 3\<rparr>)"
    using one_chunk_store(2) by (auto simp: store_abs_def entry_def)
  from core_eqD [OF this(2)] have "\<not> HeaderFlag (chunklist one_chunk_store ! 0)" "chunkID (chunklist one_chunk_store ! 0) = 0"
    by (simp_all add: new_Chunk_def)
  moreover have "dataWrite ?m = one_chunk_store" "FPindex ?m ([1, 2] @ replicate 30 0) = Some (int 0)"
    by (simp_all add: AbsMethod_new_def)
  moreover have "sha256 plain_env (chunkPtr (new_Chunk [1, 2] 2 True)) = Some ([1, 2] @ replicate 30 0)"
    "length ([1, 2 :: byte] @ replicate 30 0) = CHUNK_HASH_SIZE" "chunk_wf (new_Chunk [1, 2] 2 True)"
    by (simp_all add: plain_env_def CHUNK_HASH_SIZE_def chunk_wf_def)
  ultimately show ?thesis
    using duplicate_uses_stored_flag [of "new_Chunk [1, 2] 2 True" plain_env "[1, 2] @ replicate 30 0" ?m 0] l
    by (auto simp: Recipe_Insert_def Let_def)
qed

end
