(* ===== verification/LZ4Mem.thy ===== *)
theory LZ4Mem
  imports Prelude
begin

text \<open>
  The copy routines of \<open>src/util/lz4.c\<close> on buffers with bounds: an access outside a buffer is \<open>OutOfBounds\<close>
  and a \<open>memcpy\<close> between overlapping regions is \<open>Overlap\<close>.  Pointers into a buffer are positions.  The
  routines may write past the end they are asked for; \<open>keeps\<close> and \<open>shifted\<close> say what can be relied on: the
  bytes before the destination are kept, and each byte up to the end repeats the byte \<open>off\<close> positions
  before it, which is how an LZ4 match is expanded although source and destination overlap.
\<close>

section \<open>Memory\<close>

definition rd :: "nat \<Rightarrow> nat \<Rightarrow> byte list \<Rightarrow> byte list result" where
  "rd p n m = (if p + n \<le> length m then Inr (slice p n m) else Inl OutOfBounds)"

definition wr :: "nat \<Rightarrow> byte list \<Rightarrow> byte list \<Rightarrow> byte list result" where
  "wr p bs m = (if p + length bs \<le> length m then Inr (overwrite p bs m) else Inl OutOfBounds)"

text \<open>\<open>LZ4_memcpy\<close> from another buffer, and inside one buffer.\<close>

definition memcpy_from :: "byte list \<Rightarrow> nat \<Rightarrow> nat \<Rightarrow> nat \<Rightarrow> byte list \<Rightarrow> byte list result" where
  "memcpy_from src d s n m = rbind (rd s n src) (\<lambda>bs. wr d bs m)"

definition memcpy_in :: "nat \<Rightarrow> nat \<Rightarrow> nat \<Rightarrow> byte list \<Rightarrow> byte list result" where
  "memcpy_in d s n m =
     (if s < d + n \<and> d < s + n then Inl Overlap else rbind (rd s n m) (\<lambda>bs. wr d bs m))"

type_synonym copier = "nat \<Rightarrow> nat \<Rightarrow> nat \<Rightarrow> byte list \<Rightarrow> byte list result"

function LZ4_wildCopy8 :: "copier \<Rightarrow> nat \<Rightarrow> nat \<Rightarrow> nat \<Rightarrow> byte list \<Rightarrow> byte list result" where
  "LZ4_wildCopy8 cp d s e m =
     rbind (cp d s 8 m) (\<lambda>m. if d + 8 < e then LZ4_wildCopy8 cp (d + 8) (s + 8) e m else Inr m)"
  by pat_completeness auto
termination by (relation "measure (\<lambda>(cp, d, s, e, m). e - d)") auto

function LZ4_wildCopy32 :: "copier \<Rightarrow> nat \<Rightarrow> nat \<Rightarrow> nat \<Rightarrow> byte list \<Rightarrow> byte list result" where
  "LZ4_wildCopy32 cp d s e m =
     rbind (cp d s 16 m) (\<lambda>m.
     rbind (cp (d + 16) (s + 16) 16 m) (\<lambda>m.
       if d + 32 < e then LZ4_wildCopy32 cp (d + 32) (s + 32) e m else Inr m))"
  by pat_completeness auto
termination by (relation "measure (\<lambda>(cp, d, s, e, m). e - d)") auto

declare LZ4_wildCopy8.simps [simp del] LZ4_wildCopy32.simps [simp del]

text \<open>Copying byte by byte, from low to high addresses.\<close>

fun copy_bytes :: "nat \<Rightarrow> nat \<Rightarrow> nat \<Rightarrow> byte list \<Rightarrow> byte list result" where
  "copy_bytes 0 d s m = Inr m"
| "copy_bytes (Suc n) d s m = rbind (rd s 1 m) (\<lambda>b. rbind (wr d b m) (copy_bytes n (d + 1) (s + 1)))"

definition inc32table :: "nat list" where "inc32table = [0, 1, 2, 1, 0, 4, 4, 4]"
definition dec64table :: "int list" where "dec64table = [0, 0, 0, - 1, - 4, 1, 2, 3]"

text \<open>
  The first eight bytes of a match at distance \<open>off\<close>, and the position from which the copy goes on; both the
  decoder and \<open>LZ4_memcpy_using_offset_base\<close> contain this code.
\<close>

definition copy8_offset :: "nat \<Rightarrow> nat \<Rightarrow> nat \<Rightarrow> byte list \<Rightarrow> (byte list \<times> nat) result" where
  "copy8_offset d s off m =
     (if off < 8 then
        rbind (wr d [0, 0, 0, 0] m) (\<lambda>m.
        rbind (copy_bytes 4 d s m) (\<lambda>m.
        let s = s + inc32table ! off in
        rbind (memcpy_in (d + 4) s 4 m) (\<lambda>m. Inr (m, nat (int s - dec64table ! off)))))
      else rbind (memcpy_in d s 8 m) (\<lambda>m. Inr (m, s + 8)))"

definition LZ4_memcpy_using_offset_base :: "nat \<Rightarrow> nat \<Rightarrow> nat \<Rightarrow> nat \<Rightarrow> byte list \<Rightarrow> byte list result" where
  "LZ4_memcpy_using_offset_base d s e off m =
     rbind (copy8_offset d s off m) (\<lambda>(m, s). LZ4_wildCopy8 memcpy_in (d + 8) s e m)"

function fill8 :: "byte list \<Rightarrow> nat \<Rightarrow> nat \<Rightarrow> byte list \<Rightarrow> byte list result" where
  "fill8 v d e m = (if d < e then rbind (wr d v m) (fill8 v (d + 8) e) else Inr m)"
  by pat_completeness auto
termination by (relation "measure (\<lambda>(v, d, e, m). e - d)") auto

declare fill8.simps [simp del]

definition LZ4_memcpy_using_offset :: "nat \<Rightarrow> nat \<Rightarrow> nat \<Rightarrow> nat \<Rightarrow> byte list \<Rightarrow> byte list result" where
  "LZ4_memcpy_using_offset d s e off m =
     (if off \<in> {1, 2, 4} then
        rbind (rd s off m) (\<lambda>bs.
        let v = concat (replicate (8 div off) bs) in
        rbind (wr d v m) (fill8 v (d + 8) e))
      else LZ4_memcpy_using_offset_base d s e off m)"

section \<open>What the copies guarantee\<close>

definition keeps :: "nat \<Rightarrow> byte list \<Rightarrow> byte list \<Rightarrow> bool" where
  "keeps d m m' \<longleftrightarrow> length m' = length m \<and> (\<forall>i < d. m' ! i = m ! i)"

definition shifted :: "nat \<Rightarrow> nat \<Rightarrow> nat \<Rightarrow> byte list \<Rightarrow> bool" where
  "shifted off d e m \<longleftrightarrow> (\<forall>i. d \<le> i \<and> i < e \<longrightarrow> m ! i = m ! (i - off))"

lemma keeps_refl [simp]: "keeps d m m" by (simp add: keeps_def)

lemma keeps_trans: "keeps d m m' \<Longrightarrow> keeps d' m' m'' \<Longrightarrow> d \<le> d' \<Longrightarrow> keeps d m m''"
  by (simp add: keeps_def)

lemma keeps_length: "keeps d m m' \<Longrightarrow> length m' = length m" by (simp add: keeps_def)

lemma keeps_take: "keeps d m m' \<Longrightarrow> d \<le> length m \<Longrightarrow> take d m' = take d m"
  by (rule nth_equalityI) (simp_all add: keeps_def)

lemma shifted_keeps: "shifted off d e m \<Longrightarrow> keeps e m m' \<Longrightarrow> shifted off d e m'"
  unfolding shifted_def keeps_def by (metis diff_le_self le_less_trans)

lemma shifted_mono: "shifted off d e m \<Longrightarrow> d \<le> d' \<Longrightarrow> e' \<le> e \<Longrightarrow> shifted off d' e' m"
  by (simp add: shifted_def)

lemma shifted_join: "shifted off d p m \<Longrightarrow> shifted off p e m \<Longrightarrow> shifted off d e m"
  unfolding shifted_def by (metis not_le)

text \<open>Repeating at a multiple of the distance, behind a part that already repeats, repeats at the distance.\<close>

lemma shifted_extend:
  assumes "shifted off d p m" "shifted (k * off) p e m" "0 < off" "0 < k" "k * off - off \<le> p - d" "d \<le> p"
  shows "shifted off d e m"
proof -
  have "m ! i = m ! (i - off)" if "d \<le> i" "i < e" for i
    using that
  proof (induction i rule: less_induct)
    case (less i)
    show ?case
    proof (cases "i < p")
      case True
      with less.prems assms(1) show ?thesis by (simp add: shifted_def)
    next
      case False
      have chain: "j < k \<Longrightarrow> m ! (i - off) = m ! (i - Suc j * off)" for j
      proof (induction j)
        case (Suc j)
        have "Suc j * off \<le> (k - 1) * off" using Suc.prems by (intro mult_le_mono1) simp
        also have "\<dots> = k * off - off" by (simp add: diff_mult_distrib)
        finally have "Suc j * off \<le> k * off - off" .
        then have "d \<le> i - Suc j * off" "i - Suc j * off < i" using False assms(3,5,6) by auto
        then have "m ! (i - Suc j * off) = m ! (i - Suc j * off - off)" using less by simp
        with Suc show ?case by (simp add: diff_diff_eq add.commute)
      qed simp
      from assms(4) have "Suc (k - 1) = k" by simp
      with chain [of "k - 1"] assms(4) have "m ! (i - off) = m ! (i - k * off)" by simp
      moreover have "m ! i = m ! (i - k * off)" using assms(2) False less.prems by (simp add: shifted_def)
      ultimately show ?thesis by simp
    qed
  qed
  then show ?thesis by (simp add: shifted_def)
qed

lemma nth_overwrite:
  "p + length bs \<le> length m \<Longrightarrow> i < length m \<Longrightarrow> overwrite p bs m ! i = (if p \<le> i \<and> i < p + length bs then bs ! (i - p) else m ! i)"
  by (auto simp: overwrite_def nth_append min_def)

lemma nth_slice: "i < n \<Longrightarrow> p + n \<le> length m \<Longrightarrow> slice p n m ! i = m ! (p + i)"
  by (simp add: slice_def)

lemma wr_ok:
  assumes "p + length bs \<le> length m"
  shows "\<exists>m'. wr p bs m = Inr m' \<and> keeps p m m' \<and> (\<forall>i < length bs. m' ! (p + i) = bs ! i)"
  using assms by (simp add: wr_def keeps_def nth_overwrite buf_simps)

lemma memcpy_from_ok:
  assumes "s + n \<le> length src" "d + n \<le> length m"
  shows "\<exists>m'. memcpy_from src d s n m = Inr m' \<and> keeps d m m' \<and> (\<forall>i < n. m' ! (d + i) = src ! (s + i))"
  using assms wr_ok [of d "slice s n src" m] by (simp add: memcpy_from_def rd_def buf_simps nth_slice)

lemma memcpy_in_ok:
  assumes "off \<le> d" "n \<le> off" "d + n \<le> length m"
  shows "\<exists>m'. memcpy_in d (d - off) n m = Inr m' \<and> keeps d m m' \<and> shifted off d (d + n) m'"
proof -
  have r: "memcpy_in d (d - off) n m = wr d (slice (d - off) n m) m"
    using assms by (auto simp: memcpy_in_def rd_def)
  obtain m' where m': "wr d (slice (d - off) n m) m = Inr m'" "keeps d m m'" "\<forall>i < n. m' ! (d + i) = m ! (d - off + i)"
    using wr_ok [of d "slice (d - off) n m" m] assms by (auto simp: buf_simps nth_slice)
  have "m' ! i = m' ! (i - off)" if "d \<le> i" "i < d + n" for i
  proof -
    have "m' ! (d + (i - d)) = m ! (d - off + (i - d))" using m'(3) that by (metis add_less_cancel_left le_add_diff_inverse)
    moreover have "d - off + (i - d) = i - off" "i - off < d" using assms that by auto
    ultimately show ?thesis using m'(2) that(1) by (simp add: keeps_def)
  qed
  with r m' show ?thesis by (auto simp: shifted_def)
qed

text \<open>
  The contract of a block copy: from where the destination position \<open>d\<close> is filled, where enough source bytes
  are available (\<open>inside\<close>), the largest block, and what a filled stretch satisfies (\<open>R\<close>).  The wild copies
  are proved once for both kinds.
\<close>

locale block_copy =
  fixes cp :: copier and from_pos :: "nat \<Rightarrow> nat" and inside :: "nat \<Rightarrow> nat \<Rightarrow> bool"
    and R :: "nat \<Rightarrow> nat \<Rightarrow> byte list \<Rightarrow> bool" and blk :: nat
  assumes cp_ok: "inside d n \<Longrightarrow> n \<le> blk \<Longrightarrow> d + n \<le> length m
      \<Longrightarrow> \<exists>m'. cp d (from_pos d) n m = Inr m' \<and> keeps d m m' \<and> R d (d + n) m'"
    and from_pos_add: "inside d n \<Longrightarrow> from_pos (d + k) = from_pos d + k"
    and inside_sub: "inside d n \<Longrightarrow> k + j \<le> n \<Longrightarrow> inside (d + k) j"
    and R_keeps: "R d e m \<Longrightarrow> keeps e m m' \<Longrightarrow> R d e m'"
    and R_join: "R d p m \<Longrightarrow> R p e m \<Longrightarrow> R d e m"
    and R_mono: "R d e m \<Longrightarrow> e' \<le> e \<Longrightarrow> R d e' m"
begin

lemma R_step:
  assumes "keeps d m m1" "R d p m1" "keeps p m1 m2" "R p e m2" "d \<le> p"
  shows "keeps d m m2 \<and> R d e m2"
  using keeps_trans [OF assms(1,3,5)] R_join [OF R_keeps [OF assms(2,3)] assms(4)] by simp

lemma wildCopy8_ok:
  assumes "8 \<le> blk" "inside d n" "8 \<le> n" "e + 7 \<le> d + n" "d + n \<le> length m"
  shows "\<exists>m'. LZ4_wildCopy8 cp d (from_pos d) e m = Inr m' \<and> keeps d m m' \<and> R d e m'"
  using assms(2-)
proof (induction "e - d" arbitrary: d m n rule: less_induct)
  case less
  obtain m1 where m1: "cp d (from_pos d) 8 m = Inr m1" "keeps d m m1" "R d (d + 8) m1"
    using cp_ok [of d 8 m] inside_sub [of d n 0 8] less.prems assms(1) by auto
  show ?case
  proof (cases "d + 8 < e")
    case True
    then have "e - (d + 8) < e - d" by simp
    from less.hyps [OF this, of "n - 8" m1] obtain m2 where
      m2: "LZ4_wildCopy8 cp (d + 8) (from_pos d + 8) e m1 = Inr m2" "keeps (d + 8) m1 m2" "R (d + 8) e m2"
      using True less.prems keeps_length [OF m1(2)] inside_sub [OF less.prems(1), of 8 "n - 8"] from_pos_add [OF less.prems(1), of 8] by auto
    then show ?thesis
      using m1(1) True R_step [OF m1(2,3) m2(2,3)] by (subst LZ4_wildCopy8.simps) simp
  next
    case False
    with m1 show ?thesis using R_mono [OF m1(3), of e] by (subst LZ4_wildCopy8.simps) simp
  qed
qed

lemma wildCopy32_ok:
  assumes "16 \<le> blk" "inside d n" "32 \<le> n" "e + 31 \<le> d + n" "d + n \<le> length m"
  shows "\<exists>m'. LZ4_wildCopy32 cp d (from_pos d) e m = Inr m' \<and> keeps d m m' \<and> R d e m'"
  using assms(2-)
proof (induction "e - d" arbitrary: d m n rule: less_induct)
  case less
  obtain m0 where m0: "cp d (from_pos d) 16 m = Inr m0" "keeps d m m0" "R d (d + 16) m0"
    using cp_ok [of d 16 m] inside_sub [of d n 0 16] less.prems assms(1) by auto
  obtain m1 where m1: "cp (d + 16) (from_pos d + 16) 16 m0 = Inr m1" "keeps (d + 16) m0 m1" "R (d + 16) (d + 32) m1"
    using cp_ok [of "d + 16" 16 m0] inside_sub [OF less.prems(1), of 16 16] from_pos_add [OF less.prems(1), of 16]
      less.prems assms(1) keeps_length [OF m0(2)] by (auto simp: add.assoc)
  have k: "keeps d m m1" "R d (d + 32) m1" using R_step [OF m0(2,3) m1(2,3)] by simp_all
  show ?case
  proof (cases "d + 32 < e")
    case True
    then have "e - (d + 32) < e - d" by simp
    from less.hyps [OF this, of "n - 32" m1] obtain m2 where
      m2: "LZ4_wildCopy32 cp (d + 32) (from_pos d + 32) e m1 = Inr m2" "keeps (d + 32) m1 m2" "R (d + 32) e m2"
      using True less.prems keeps_length [OF k(1)] inside_sub [OF less.prems(1), of 32 "n - 32"] from_pos_add [OF less.prems(1), of 32] by auto
    then show ?thesis
      using m0(1) m1(1) True R_step [OF k m2(2,3)] by (subst LZ4_wildCopy32.simps) simp
  next
    case False
    with m0(1) m1(1) k show ?thesis using R_mono [OF k(2), of e] by (subst LZ4_wildCopy32.simps) simp
  qed
qed

end

text \<open>Copying from another buffer, with the source \<open>delta\<close> ahead of or behind the destination.\<close>

definition copied :: "byte list \<Rightarrow> nat \<Rightarrow> nat \<Rightarrow> nat \<Rightarrow> nat \<Rightarrow> byte list \<Rightarrow> bool" where
  "copied src d0 s0 d e m \<longleftrightarrow> (\<forall>i. d \<le> i \<and> i < e \<longrightarrow> m ! i = src ! (i + s0 - d0))"

interpretation mem_from: block_copy "memcpy_from src" "\<lambda>d. d + s0 - d0" "\<lambda>d n. d0 \<le> d \<and> d + s0 - d0 + n \<le> length src" "copied src d0 s0" blk
  for src d0 s0 blk
proof unfold_locales
  fix d n and m :: "byte list"
  assume i: "d0 \<le> d \<and> d + s0 - d0 + n \<le> length src" "d + n \<le> length m"
  from memcpy_from_ok [OF conjunct2 [OF i(1)] i(2)] obtain m' where
    m': "memcpy_from src d (d + s0 - d0) n m = Inr m'" "keeps d m m'" "\<forall>i < n. m' ! (d + i) = src ! (d + s0 - d0 + i)" by blast
  have "m' ! i = src ! (i + s0 - d0)" if "d \<le> i" "i < d + n" for i
  proof -
    have "m' ! (d + (i - d)) = src ! (d + s0 - d0 + (i - d))" using m'(3) that by (metis add_less_cancel_left le_add_diff_inverse)
    moreover have "d + s0 - d0 + (i - d) = i + s0 - d0" using i(1) that(1) by simp
    ultimately show ?thesis using that(1) by simp
  qed
  with m' show "\<exists>m'. memcpy_from src d (d + s0 - d0) n m = Inr m' \<and> keeps d m m' \<and> copied src d0 s0 d (d + n) m'"
    by (auto simp: copied_def)
qed (auto simp: copied_def keeps_def, metis not_le)

interpretation mem_in: block_copy memcpy_in "\<lambda>d. d - off" "\<lambda>d n. off \<le> d" "shifted off" off
  for off
  by unfold_locales
    (use memcpy_in_ok in \<open>auto intro: shifted_keeps shifted_join elim: shifted_mono\<close>)

section \<open>Expanding a match\<close>

lemma copy_bytes_ok:
  "off \<le> d \<Longrightarrow> d + n \<le> length m
   \<Longrightarrow> \<exists>m'. copy_bytes n d (d - off) m = Inr m' \<and> keeps d m m' \<and> shifted off d (d + n) m'"
proof (induction n arbitrary: d m)
  case 0
  then show ?case by (auto simp: shifted_def)
next
  case (Suc n)
  obtain m1 where m1: "wr d (slice (d - off) 1 m) m = Inr m1" "keeps d m m1" "m1 ! d = m ! (d - off)"
    using wr_ok [of d "slice (d - off) 1 m" m] Suc.prems by (auto simp: buf_simps nth_slice)
  have r: "rd (d - off) 1 m = Inr (slice (d - off) 1 m)" using Suc.prems by (simp add: rd_def)
  obtain m2 where m2: "copy_bytes n (d + 1) (d + 1 - off) m1 = Inr m2" "keeps (d + 1) m1 m2" "shifted off (d + 1) (d + 1 + n) m2"
    using Suc.IH [of "d + 1" m1] Suc.prems keeps_length [OF m1(2)] by auto
  have "m1 ! (d - off) = m ! (d - off)" using m1(2,3) Suc.prems(1) by (cases "off = 0") (simp_all add: keeps_def)
  then have "shifted off d (d + 1) m1" using m1(3) by (auto simp: shifted_def less_Suc_eq)
  then have "shifted off d (d + Suc n) m2" using shifted_join [OF shifted_keeps [OF _ m2(2)] m2(3)] by simp
  moreover have "d - off + 1 = d + 1 - off" using Suc.prems by simp
  ultimately show ?case using r m1(1) m2(1) keeps_trans [OF m1(2) m2(2)] by simp
qed

text \<open>After the first eight bytes the copy goes on at this distance, a multiple of the distance of the match.\<close>

definition copy_dist :: "nat \<Rightarrow> nat" where
  "copy_dist off = (if off < 8 then [8, 8, 8, 9, 8, 10, 12, 14] ! off else off)"

lemma less_8_cases: "off < 8 \<Longrightarrow> off \<in> {0, 1, 2, 3, 4, 5, 6, 7 :: nat}" by auto

lemma copy_dist_bounds: "8 \<le> copy_dist off" "copy_dist off \<le> off + 8"
  using less_8_cases [of off] by (auto simp: copy_dist_def)

lemma copy_dist_multiple: "0 < off \<Longrightarrow> \<exists>k > 0. copy_dist off = k * off \<and> k * off - off \<le> 8"
proof (cases "off < 8")
  case True
  assume "0 < off"
  then have "copy_dist off = (copy_dist off div off) * off \<and> 0 < copy_dist off div off \<and> copy_dist off - off \<le> 8"
    using less_8_cases [OF True] by (auto simp: copy_dist_def)
  then show ?thesis by metis
qed (auto simp: copy_dist_def intro!: exI [of _ 1])

lemma offset_tables:
  assumes "off < 8"
  shows "inc32table ! off \<le> 4" "4 \<le> off + 4 - inc32table ! off"
    "off \<le> d \<Longrightarrow> nat (int (d - off + inc32table ! off) - dec64table ! off) = d + 8 - copy_dist off"
    "0 < off \<Longrightarrow> \<exists>k > 0. off + 4 - inc32table ! off = k * off \<and> k * off - off \<le> 4"
proof -
  note c = less_8_cases [OF assms]
  show "inc32table ! off \<le> 4" "4 \<le> off + 4 - inc32table ! off" using c by (auto simp: inc32table_def)
  show "nat (int (d - off + inc32table ! off) - dec64table ! off) = d + 8 - copy_dist off" if "off \<le> d"
    using c that by (auto simp: inc32table_def dec64table_def copy_dist_def nat_diff_distrib' nat_add_distrib)
  assume "0 < off"
  then have "off + 4 - inc32table ! off = ((off + 4 - inc32table ! off) div off) * off
      \<and> 0 < (off + 4 - inc32table ! off) div off \<and> off + 4 - inc32table ! off - off \<le> 4"
    using c by (auto simp: inc32table_def)
  then show "\<exists>k > 0. off + 4 - inc32table ! off = k * off \<and> k * off - off \<le> 4" by metis
qed

lemma copy8_offset_ok:
  assumes "off \<le> d" "d + 8 \<le> length m"
  shows "\<exists>m'. copy8_offset d (d - off) off m = Inr (m', d + 8 - copy_dist off) \<and> keeps d m m'
    \<and> (0 < off \<longrightarrow> shifted off d (d + 8) m')"
proof (cases "off < 8")
  case False
  then obtain m' where "memcpy_in d (d - off) 8 m = Inr m'" "keeps d m m'" "shifted off d (d + 8) m'"
    using memcpy_in_ok [of off d 8 m] assms by auto
  moreover have "d - off + 8 = d + 8 - off" using assms(1) by simp
  ultimately show ?thesis using False by (simp add: copy8_offset_def copy_dist_def)
next
  case True
  note t = offset_tables [OF True]
  let ?K = "off + 4 - inc32table ! off"
  obtain m1 where m1: "wr d [0, 0, 0, 0] m = Inr m1" "keeps d m m1" using wr_ok [of d "[0, 0, 0, 0]" m] assms by auto
  obtain m2 where m2: "copy_bytes 4 d (d - off) m1 = Inr m2" "keeps d m1 m2" "shifted off d (d + 4) m2"
    using copy_bytes_ok [of off d 4 m1] assms keeps_length [OF m1(2)] by auto
  have s: "d - off + inc32table ! off = d + 4 - ?K" using assms(1) t(1) by auto
  have k: "?K \<le> d + 4" "d + 4 + 4 = d + 8" using assms(1) by simp_all
  obtain m3 where m3: "memcpy_in (d + 4) (d + 4 - ?K) 4 m2 = Inr m3" "keeps (d + 4) m2 m3" "shifted ?K (d + 4) (d + 8) m3"
    using memcpy_in_ok [of ?K "d + 4" 4 m2] assms t(2) keeps_length [OF m1(2)] keeps_length [OF m2(2)] unfolding k(2) using k(1) by auto
  have "shifted off d (d + 8) m3" if "0 < off"
  proof -
    from t(4) [OF that] obtain k where "0 < k" "?K = k * off" "k * off - off \<le> 4" by (elim exE conjE)
    then show ?thesis using shifted_extend [OF shifted_keeps [OF m2(3) m3(2)], of k "d + 8"] m3(3) that by simp
  qed
  moreover have "keeps d m m3" using keeps_trans [OF keeps_trans [OF m1(2) m2(2)] m3(2)] by simp
  moreover have "copy8_offset d (d - off) off m = Inr (m3, d + 8 - copy_dist off)"
    unfolding copy8_offset_def t(3) [OF assms(1), symmetric]
    by (simp only: True if_True m1(1) m2(1) rbind_simps Let_def s m3(1))
  ultimately show ?thesis by blast
qed

lemma using_offset_base_ok:
  assumes "off \<le> d" "d + 16 \<le> length m" "e + 7 \<le> length m"
  shows "\<exists>m'. LZ4_memcpy_using_offset_base d (d - off) e off m = Inr m' \<and> keeps d m m' \<and> (0 < off \<longrightarrow> shifted off d e m')"
proof -
  obtain m1 where m1: "copy8_offset d (d - off) off m = Inr (m1, d + 8 - copy_dist off)" "keeps d m m1"
    "0 < off \<longrightarrow> shifted off d (d + 8) m1"
    using copy8_offset_ok [of off d m] assms by auto
  obtain m2 where m2: "LZ4_wildCopy8 memcpy_in (d + 8) (d + 8 - copy_dist off) e m1 = Inr m2" "keeps (d + 8) m1 m2"
    "shifted (copy_dist off) (d + 8) e m2"
  proof -
    have "8 \<le> length m - (d + 8)" using assms(2) by simp
    then show ?thesis
      using mem_in.wildCopy8_ok [of "copy_dist off" "d + 8" "length m - (d + 8)" e m1] copy_dist_bounds [of off] assms keeps_length [OF m1(2)] that
      by auto
  qed
  have "shifted off d e m2" if "0 < off"
  proof -
    from copy_dist_multiple [OF that] obtain k where k: "0 < k" "copy_dist off = k * off" "k * off - off \<le> 8" by (elim exE conjE)
    then show ?thesis using shifted_extend [of off d "d + 8" m2 k e] shifted_keeps [OF _ m2(2)] m1(3) m2(3) that by simp
  qed
  with m1 m2 keeps_trans [OF m1(2) m2(2)] show ?thesis by (simp add: LZ4_memcpy_using_offset_base_def)
qed

lemma fill8_ok:
  assumes "length v = 8" "e + 7 \<le> length m" "\<forall>i < 8. m ! (d - 8 + i) = v ! i" "8 \<le> d"
  shows "\<exists>m'. fill8 v d e m = Inr m' \<and> keeps d m m' \<and> shifted 8 d e m'"
  using assms
proof (induction "e - d" arbitrary: d m rule: less_induct)
  case less
  show ?case
  proof (cases "d < e")
    case True
    obtain m1 where m1: "wr d v m = Inr m1" "keeps d m m1" "\<forall>i < 8. m1 ! (d + i) = v ! i"
      using wr_ok [of d v m] less.prems True by auto
    have s1: "shifted 8 d (d + 8) m1"
    proof (clarsimp simp: shifted_def)
      fix i assume i: "d \<le> i" "i < d + 8"
      then have "i - d < 8" by simp
      then have "m1 ! (d + (i - d)) = m ! (d - 8 + (i - d))" using m1(3) less.prems(3) by (simp only:)
      moreover have "d - 8 + (i - d) = i - 8" "i - 8 < d" using less.prems(4) i by auto
      ultimately show "m1 ! i = m1 ! (i - 8)" using m1(2) i(1) by (simp add: keeps_def)
    qed
    have "e - (d + 8) < e - d" using True by simp
    from less.hyps [OF this, of m1] obtain m2 where
      m2: "fill8 v (d + 8) e m1 = Inr m2" "keeps (d + 8) m1 m2" "shifted 8 (d + 8) e m2"
      using less.prems m1(3) keeps_length [OF m1(2)] by auto
    then show ?thesis
      using True m1(1) keeps_trans [OF m1(2) m2(2)] shifted_join [OF shifted_keeps [OF s1 m2(2)] m2(3)]
      by (subst fill8.simps) simp
  next
    case False
    then show ?thesis by (subst fill8.simps) (auto simp: shifted_def)
  qed
qed

lemma pattern_nth:
  assumes "off \<in> {1, 2, 4}" "length bs = off" "i < 8"
  shows "length (concat (replicate (8 div off) bs)) = 8" "concat (replicate (8 div off) bs) ! i = bs ! (i mod off)"
proof -
  show "length (concat (replicate (8 div off) bs)) = 8" using assms(1,2) by (auto simp: length_concat sum_list_replicate)
  have "concat (replicate n bs) ! j = bs ! (j mod off)" if "j < n * off" for n j
    using that
  proof (induction n arbitrary: j)
    case (Suc n)
    then show ?case using assms(1,2) by (cases "j < off") (auto simp: nth_append le_mod_geq)
  qed simp
  from this [of i "8 div off"] assms show "concat (replicate (8 div off) bs) ! i = bs ! (i mod off)" by auto
qed

text \<open>Every match that starts inside the output is expanded, whatever its distance and length.\<close>

lemma using_offset_ok:
  assumes "off \<le> d" "d + 16 \<le> length m" "e + 7 \<le> length m"
  shows "\<exists>m'. LZ4_memcpy_using_offset d (d - off) e off m = Inr m' \<and> keeps d m m' \<and> (0 < off \<longrightarrow> shifted off d e m')"
proof (cases "off \<in> {1, 2, 4}")
  case False
  with using_offset_base_ok [OF assms] show ?thesis by (simp add: LZ4_memcpy_using_offset_def)
next
  case True
  let ?bs = "slice (d - off) off m"
  define v where "v = concat (replicate (8 div off) ?bs)"
  have bs: "length ?bs = off" using assms by (simp add: buf_simps)
  have v: "length v = 8" "i < 8 \<Longrightarrow> v ! i = m ! (d - off + i mod off)" for i
    using pattern_nth [OF True bs, of i] pattern_nth(1) [OF True bs, of 0] True assms
    by (auto simp: v_def nth_slice simp del: One_nat_def)
  obtain m1 where m1: "wr d v m = Inr m1" "keeps d m m1" "\<forall>i < 8. m1 ! (d + i) = v ! i"
    using wr_ok [of d v m] v(1) assms by auto
  have s1: "shifted off d (d + 8) m1"
  proof (clarsimp simp: shifted_def)
    fix i assume i: "d \<le> i" "i < d + 8"
    define j where "j = i - d"
    have j: "i = d + j" "j < 8" using i by (simp_all add: j_def)
    have mj: "m1 ! (d + k) = m ! (d - off + k mod off)" if "k < 8" for k using m1(3) v(2) that by simp
    show "m1 ! i = m1 ! (i - off)"
    proof (cases "off \<le> j")
      case True
      then have "m1 ! (i - off) = m ! (d - off + (j - off) mod off)" using mj [of "j - off"] j by simp
      then show ?thesis using mj [of j] j True by (simp add: le_mod_geq)
    next
      case False
      then have "i - off < d" "d - off + j = i - off" using j(1) assms(1) by auto
      then show ?thesis using mj [of j] j False m1(2) by (simp add: keeps_def)
    qed
  qed
  obtain m2 where m2: "fill8 v (d + 8) e m1 = Inr m2" "keeps (d + 8) m1 m2" "shifted 8 (d + 8) e m2"
    using fill8_ok [of v e m1 "d + 8"] v(1) m1(3) keeps_length [OF m1(2)] assms by auto
  have "8 = (8 div off) * off" "0 < off" "0 < 8 div off" using True by auto
  then have "shifted off d e m2"
    using shifted_extend [OF shifted_keeps [OF s1 m2(2)], of "8 div off" e] m2(3) by simp
  then show ?thesis
    using True m1(1) m2(1) keeps_trans [OF m1(2) m2(2)] assms by (auto simp: LZ4_memcpy_using_offset_def rd_def v_def Let_def)
qed

end
