(* ===== verification/LZ4Format.thy ===== *)
theory LZ4Format
  imports LZ4Mem
begin

text \<open>
  The LZ4 block format as a specification shared by the compressor and the decoder.  A block of a text \<open>X\<close> is
  given by its sequences, each a run of literals followed by a match: a copy, from \<open>off\<close> positions before,
  of a part of \<open>X\<close> that repeats it.  \<open>block\<close> is its encoding, \<open>parses\<close> says that the sequences describe \<open>X\<close> and
  respect the restrictions at the end of a block (the last match starts at least \<open>MFLIMIT\<close> bytes before the
  end, the last \<open>LASTLITERALS\<close> bytes are literals).
\<close>

definition MINMATCH :: nat where "MINMATCH = 4"
definition WILDCOPYLENGTH :: nat where "WILDCOPYLENGTH = 8"
definition LASTLITERALS :: nat where "LASTLITERALS = 5"
definition MFLIMIT :: nat where "MFLIMIT = 12"
definition MATCH_SAFEGUARD_DISTANCE :: nat where "MATCH_SAFEGUARD_DISTANCE = 2 * WILDCOPYLENGTH - MINMATCH"
definition FASTLOOP_SAFE_DISTANCE :: nat where "FASTLOOP_SAFE_DISTANCE = 64"
definition LZ4_minLength :: nat where "LZ4_minLength = MFLIMIT + 1"
definition LZ4_DISTANCE_MAX :: nat where "LZ4_DISTANCE_MAX = 65535"
definition ML_BITS :: nat where "ML_BITS = 4"
definition ML_MASK :: nat where "ML_MASK = 15"
definition RUN_MASK :: nat where "RUN_MASK = 15"

lemmas lz4_consts = MINMATCH_def WILDCOPYLENGTH_def LASTLITERALS_def MFLIMIT_def MATCH_SAFEGUARD_DISTANCE_def
  FASTLOOP_SAFE_DISTANCE_def LZ4_minLength_def LZ4_DISTANCE_MAX_def ML_BITS_def ML_MASK_def RUN_MASK_def

section \<open>Encoding\<close>

record lz4_seq =
  lits :: nat
  moff :: nat
  mlen :: nat

definition token_of :: "nat \<Rightarrow> nat \<Rightarrow> nat" where
  "token_of l m = min l 15 * 16 + min m 15"

text \<open>The bytes that extend a 4-bit length.\<close>

definition ext_len :: "nat \<Rightarrow> byte list" where
  "ext_len k = (if k < 15 then [] else replicate ((k - 15) div 255) 255 @ [of_nat ((k - 15) mod 255)])"

definition le16 :: "nat \<Rightarrow> byte list" where
  "le16 n = [of_nat n, of_nat (n div 256)]"

definition seq_tail :: "lz4_seq \<Rightarrow> byte list" where
  "seq_tail q = le16 (moff q) @ ext_len (mlen q - 4)"

definition seq_bytes :: "byte list \<Rightarrow> nat \<Rightarrow> lz4_seq \<Rightarrow> byte list" where
  "seq_bytes X pos q = of_nat (token_of (lits q) (mlen q - 4)) # ext_len (lits q) @ slice pos (lits q) X @ seq_tail q"

definition last_bytes :: "byte list \<Rightarrow> nat \<Rightarrow> byte list" where
  "last_bytes X pos = of_nat (token_of (length X - pos) 0) # ext_len (length X - pos) @ drop pos X"

definition seq_end :: "nat \<Rightarrow> lz4_seq \<Rightarrow> nat" where
  "seq_end pos q = pos + lits q + mlen q"

fun seqs_bytes :: "byte list \<Rightarrow> nat \<Rightarrow> lz4_seq list \<Rightarrow> byte list" where
  "seqs_bytes X pos [] = []"
| "seqs_bytes X pos (q # qs) = seq_bytes X pos q @ seqs_bytes X (seq_end pos q) qs"

definition block :: "byte list \<Rightarrow> nat \<Rightarrow> lz4_seq list \<Rightarrow> byte list" where
  "block X pos qs = seqs_bytes X pos qs @ last_bytes X (foldl seq_end pos qs)"

definition seq_ok :: "byte list \<Rightarrow> nat \<Rightarrow> lz4_seq \<Rightarrow> bool" where
  "seq_ok X pos q \<longleftrightarrow> 4 \<le> mlen q \<and> 0 < moff q \<and> moff q \<le> 65535 \<and> moff q \<le> pos + lits q
     \<and> pos + lits q + 12 \<le> length X \<and> seq_end pos q + 5 \<le> length X
     \<and> shifted (moff q) (pos + lits q) (seq_end pos q) X"

fun parses :: "byte list \<Rightarrow> nat \<Rightarrow> lz4_seq list \<Rightarrow> bool" where
  "parses X pos [] \<longleftrightarrow> pos \<le> length X"
| "parses X pos (q # qs) \<longleftrightarrow> seq_ok X pos q \<and> parses X (seq_end pos q) qs"

lemma seqs_bytes_snoc: "seqs_bytes X pos (qs @ [q]) = seqs_bytes X pos qs @ seq_bytes X (foldl seq_end pos qs) q"
  by (induction qs arbitrary: pos) simp_all

lemma parses_snoc: "parses X pos (qs @ [q]) \<longleftrightarrow> parses X pos qs \<and> seq_ok X (foldl seq_end pos qs) q"
proof (induction qs arbitrary: pos)
  case Nil
  then show ?case by (auto simp: seq_ok_def seq_end_def)
qed auto

lemma parses_end: "parses X pos qs \<Longrightarrow> foldl seq_end pos qs \<le> length X"
  by (induction qs arbitrary: pos) simp_all

lemma block_Cons: "block X pos (q # qs) = seq_bytes X pos q @ block X (seq_end pos q) qs"
  by (simp add: block_def)

lemma block_Nil: "block X pos [] = last_bytes X pos"
  by (simp add: block_def)

text \<open>Behind a match there are at least the token and the literals that must end a block.\<close>

lemma block_length: "parses X pos qs \<Longrightarrow> pos + 5 \<le> length X \<Longrightarrow> 6 \<le> length (block X pos qs)"
proof (induction qs arbitrary: pos)
  case Nil
  then show ?case by (simp add: block_Nil last_bytes_def)
next
  case (Cons q qs)
  then have "6 \<le> length (block X (seq_end pos q) qs)" by (simp add: seq_ok_def)
  then show ?case by (simp add: block_Cons)
qed

lemma ext_len_length: "length (ext_len k) = (if k < 15 then 0 else (k - 15) div 255 + 1)"
  by (simp add: ext_len_def)

section \<open>The size of a block\<close>

lemma ext_len_bound: "length (ext_len k) * 255 \<le> k + 240"
  by (auto simp: ext_len_length)

lemma seq_bytes_length: "pos + lits q \<le> length X \<Longrightarrow> length (seq_bytes X pos q) = 3 + length (ext_len (lits q)) + lits q + length (ext_len (mlen q - 4))"
  by (simp add: seq_bytes_def seq_tail_def le16_def buf_simps)

text \<open>A match saves at least one byte besides the byte its literal run may need: the bound of the size needs no more.\<close>

lemma seq_bytes_bound:
  assumes "seq_ok X pos q"
  shows "255 * length (seq_bytes X pos q) \<le> 255 * (lits q + mlen q) + lits q"
proof -
  have l: "pos + lits q \<le> length X" "4 \<le> mlen q" using assms by (simp_all add: seq_ok_def seq_end_def)
  have "255 * length (ext_len (mlen q - 4)) \<le> 255 * (mlen q - 4)"
    using ext_len_bound [of "mlen q - 4"] by (cases "mlen q - 4 < 15") (auto simp: ext_len_length)
  then show ?thesis
    using ext_len_bound [of "lits q"] l by (simp add: seq_bytes_length [OF l(1)])
qed

lemma seqs_bytes_bound:
  "parses X pos qs \<Longrightarrow> 255 * (pos + length (seqs_bytes X pos qs)) + pos \<le> 256 * foldl seq_end pos qs"
proof (induction qs arbitrary: pos)
  case (Cons q qs)
  then have "255 * (seq_end pos q + length (seqs_bytes X (seq_end pos q) qs)) + seq_end pos q \<le> 256 * foldl seq_end (seq_end pos q) qs"
    by simp
  moreover have "255 * length (seq_bytes X pos q) \<le> 255 * (lits q + mlen q) + lits q"
    using Cons.prems seq_bytes_bound by simp
  moreover have "seq_end pos q = pos + lits q + mlen q" by (simp add: seq_end_def)
  ultimately show ?case by simp
qed simp

lemma last_bytes_length: "pos \<le> length X \<Longrightarrow> length (last_bytes X pos) = 1 + length (ext_len (length X - pos)) + (length X - pos)"
  by (simp add: last_bytes_def)

lemma block_bound:
  assumes "parses X 0 qs"
  shows "length (block X 0 qs) \<le> length X + length X div 255 + 16"
proof -
  let ?e = "foldl seq_end 0 qs"
  have e: "?e \<le> length X" using parses_end [OF assms] .
  have "255 * length (seqs_bytes X 0 qs) \<le> 256 * ?e" using seqs_bytes_bound [OF assms] by simp
  moreover have "255 * length (last_bytes X ?e) \<le> 255 + (length X - ?e + 240) + 255 * (length X - ?e)"
    using ext_len_bound [of "length X - ?e"] last_bytes_length [OF e] by simp
  ultimately have "255 * length (block X 0 qs) \<le> 255 * length X + length X + 495" using e by (simp add: block_def)
  then have "length (block X 0 qs) \<le> (255 * length X + length X + 495) div 255" by (simp add: less_eq_div_iff_mult_less_eq mult.commute)
  also have "\<dots> \<le> (length X + 510 + length X * 255) div 255" by (intro div_le_mono) simp
  also have "\<dots> = length X + (length X div 255 + 2)" by simp
  finally show ?thesis by simp
qed

end
