(* ===== verification/LZ4Count.thy ===== *)
theory LZ4Count
  imports LZ4Format
begin

text \<open>
  Reads of several bytes at once and \<open>LZ4_count\<close> of \<open>src/util/lz4.c\<close>, on a little-endian machine with 64-bit registers:
  the length of a match is found by comparing eight bytes at a time and counting the zero bits of the
  difference.  It is the length of the longest common prefix.
\<close>

section \<open>Reads\<close>

definition LZ4_read16 :: "byte list \<Rightarrow> nat \<Rightarrow> u16 result" where
  "LZ4_read16 m p = rbind (rd p 2 m) (\<lambda>bs. Inr (le_word bs))"

definition LZ4_read32 :: "byte list \<Rightarrow> nat \<Rightarrow> u32 result" where
  "LZ4_read32 m p = rbind (rd p 4 m) (\<lambda>bs. Inr (le_word bs))"

definition LZ4_read_ARCH :: "byte list \<Rightarrow> nat \<Rightarrow> u64 result" where
  "LZ4_read_ARCH m p = rbind (rd p 8 m) (\<lambda>bs. Inr (le_word bs))"

text \<open>\<open>__builtin_ctzll\<close>: the number of trailing zero bits.\<close>

definition ctzll :: "u64 \<Rightarrow> nat" where
  "ctzll w = length (takeWhile (\<lambda>i. \<not> bit w i) [0..<64])"

definition LZ4_NbCommonBytes :: "u64 \<Rightarrow> nat" where
  "LZ4_NbCommonBytes w = ctzll w div 8"

section \<open>Counting\<close>

text \<open>The loop; the flag says that the function returns from it.\<close>

function count8 :: "byte list \<Rightarrow> nat \<Rightarrow> nat \<Rightarrow> nat \<Rightarrow> (nat \<times> nat \<times> bool) result" where
  "count8 src pIn pMatch pInLimit =
     (if pIn + 7 < pInLimit then
        rbind (LZ4_read_ARCH src pMatch) (\<lambda>a.
        rbind (LZ4_read_ARCH src pIn) (\<lambda>b.
          let diff = a XOR b in
          if diff = 0 then count8 src (pIn + 8) (pMatch + 8) pInLimit
          else Inr (pIn + LZ4_NbCommonBytes diff, pMatch, True)))
      else Inr (pIn, pMatch, False))"
  by pat_completeness auto
termination by (relation "measure (\<lambda>(src, pIn, pMatch, lim). lim - pIn)") auto

declare count8.simps [simp del]

definition count_tail :: "byte list \<Rightarrow> nat \<Rightarrow> nat \<Rightarrow> nat \<Rightarrow> nat result" where
  "count_tail src pIn pMatch pInLimit =
     rbind (if pIn + 3 < pInLimit
            then rbind (LZ4_read32 src pMatch) (\<lambda>a. rbind (LZ4_read32 src pIn) (\<lambda>b.
                   Inr (if a = b then (pIn + 4, pMatch + 4) else (pIn, pMatch))))
            else Inr (pIn, pMatch)) (\<lambda>(pIn, pMatch).
     rbind (if pIn + 1 < pInLimit
            then rbind (LZ4_read16 src pMatch) (\<lambda>a. rbind (LZ4_read16 src pIn) (\<lambda>b.
                   Inr (if a = b then (pIn + 2, pMatch + 2) else (pIn, pMatch))))
            else Inr (pIn, pMatch)) (\<lambda>(pIn, pMatch).
     if pIn < pInLimit
     then rbind (rd pMatch 1 src) (\<lambda>a. rbind (rd pIn 1 src) (\<lambda>b. Inr (if a = b then pIn + 1 else pIn)))
     else Inr pIn))"

definition count_rest :: "byte list \<Rightarrow> nat \<Rightarrow> nat \<Rightarrow> nat \<Rightarrow> nat \<Rightarrow> nat result" where
  "count_rest src pStart pIn pMatch pInLimit =
     rbind (count8 src pIn pMatch pInLimit) (\<lambda>(pIn, pMatch, returned).
     if returned then Inr (pIn - pStart)
     else rbind (count_tail src pIn pMatch pInLimit) (\<lambda>pIn. Inr (pIn - pStart)))"

definition LZ4_count :: "byte list \<Rightarrow> nat \<Rightarrow> nat \<Rightarrow> nat \<Rightarrow> nat result" where
  "LZ4_count src pIn pMatch pInLimit =
     (if pIn + 7 < pInLimit then
        rbind (LZ4_read_ARCH src pMatch) (\<lambda>a.
        rbind (LZ4_read_ARCH src pIn) (\<lambda>b.
          let diff = a XOR b in
          if diff = 0 then count_rest src pIn (pIn + 8) (pMatch + 8) pInLimit
          else Inr (LZ4_NbCommonBytes diff)))
      else count_rest src pIn pIn pMatch pInLimit)"

section \<open>The longest common prefix\<close>

definition common :: "byte list \<Rightarrow> nat \<Rightarrow> nat \<Rightarrow> nat \<Rightarrow> bool" where
  "common src p m k \<longleftrightarrow> (\<forall>i < k. src ! (m + i) = src ! (p + i))"

definition longest :: "byte list \<Rightarrow> nat \<Rightarrow> nat \<Rightarrow> nat \<Rightarrow> nat \<Rightarrow> bool" where
  "longest src p m lim k \<longleftrightarrow> p + k \<le> lim \<and> common src p m k \<and> (p + k < lim \<longrightarrow> src ! (m + k) \<noteq> src ! (p + k))"

lemma common_add: "common src p m (j + k) \<longleftrightarrow> common src p m j \<and> common src (p + j) (m + j) k"
proof
  assume "common src p m (j + k)"
  then show "common src p m j \<and> common src (p + j) (m + j) k" unfolding common_def by (metis add.assoc add_less_cancel_left trans_less_add1)
next
  assume a: "common src p m j \<and> common src (p + j) (m + j) k"
  show "common src p m (j + k)" unfolding common_def
  proof (intro allI impI)
    fix i assume i: "i < j + k"
    show "src ! (m + i) = src ! (p + i)"
    proof (cases "i < j")
      case False
      then obtain d where "i = j + d" by (metis le_add_diff_inverse not_less)
      with a i show ?thesis by (auto simp: common_def add.assoc)
    qed (use a in \<open>simp add: common_def\<close>)
  qed
qed

lemma slice_eq_common:
  assumes "p + k \<le> length src" "m + k \<le> length src"
  shows "slice m k src = slice p k src \<longleftrightarrow> common src p m k"
proof -
  have "slice m k src = slice p k src \<longleftrightarrow> (\<forall>i < k. slice m k src ! i = slice p k src ! i)"
    using assms by (auto simp: list_eq_iff_nth_eq buf_simps)
  also have "\<dots> \<longleftrightarrow> common src p m k" using assms by (simp add: common_def nth_slice)
  finally show ?thesis .
qed

lemma longest_step: "common src p m j \<Longrightarrow> longest src (p + j) (m + j) lim k \<Longrightarrow> longest src p m lim (j + k)"
  using common_add [of src p m j k] by (simp add: longest_def add.assoc)

lemma ctzll_first:
  assumes "w \<noteq> 0"
  shows "ctzll w < 64" "bit w (ctzll w)" "i < ctzll w \<Longrightarrow> \<not> bit w i"
proof -
  let ?P = "\<lambda>i. \<not> bit w i"
  from assms obtain j where j: "bit w j" by (metis bit_eqI bit_0_eq bot_apply bot_bool_def)
  then have "j < 64" using bit_imp_le_length [of w j] by simp
  have "takeWhile ?P [0..<64] \<noteq> [0..<64]"
  proof
    assume "takeWhile ?P [0..<64] = [0..<64]"
    then have "\<forall>x\<in>set [0..<64]. \<not> bit w x" unfolding takeWhile_eq_all_conv .
    with j \<open>j < 64\<close> show False by simp
  qed
  then have lt: "length (takeWhile ?P [0..<64]) < length [0..<64]"
    by (metis length_takeWhile_le le_neq_implies_less takeWhile_eq_take take_all order_refl)
  then show "ctzll w < 64" by (simp add: ctzll_def)
  show "bit w (ctzll w)" using nth_length_takeWhile [OF lt] lt by (simp add: ctzll_def)
  show "\<not> bit w i" if "i < ctzll w"
  proof -
    have "takeWhile ?P [0..<64] ! i = i" using takeWhile_nth [of i ?P "[0..<64]"] that lt by (simp add: ctzll_def)
    then have "i \<in> set (takeWhile ?P [0..<64])" using that nth_mem [of i "takeWhile ?P [0..<64]"] by (simp add: ctzll_def)
    then show ?thesis by (auto dest: set_takeWhileD)
  qed
qed

lemma NbCommonBytes_ok:
  assumes "length as = 8" "length bs = 8" "le_word as XOR le_word bs \<noteq> (0 :: u64)"
  defines "k \<equiv> LZ4_NbCommonBytes (le_word as XOR le_word bs)"
  shows "k < 8" "\<forall>i < k. as ! i = bs ! i" "as ! k \<noteq> bs ! k"
proof -
  let ?w = "le_word as XOR le_word bs :: u64"
  note c = ctzll_first [OF assms(3)]
  have w: "bit ?w (8 * i + j) \<longleftrightarrow> bit (as ! i) j \<noteq> bit (bs ! i) j" if "i < 8" "j < 8" for i j
    using that assms(1,2) by (simp add: bit_simps bit_le_word)
  have k: "k = ctzll ?w div 8" by (simp add: k_def LZ4_NbCommonBytes_def)
  show "k < 8" using c(1) by (simp add: k)
  show "\<forall>i < k. as ! i = bs ! i"
  proof (intro allI impI byte_eqI)
    fix i j :: nat assume "i < k" "j < 8"
    then have "i < 8" "8 * i + j < ctzll ?w" using \<open>k < 8\<close> by (auto simp: k)
    with w [of i j] c(3) [of "8 * i + j"] \<open>j < 8\<close> show "bit (as ! i) j = bit (bs ! i) j" by auto
  qed
  have "8 * k + ctzll ?w mod 8 = ctzll ?w" by (simp add: k)
  with w [of k "ctzll ?w mod 8"] c(2) \<open>k < 8\<close> have "bit (as ! k) (ctzll ?w mod 8) \<noteq> bit (bs ! k) (ctzll ?w mod 8)" by simp
  then show "as ! k \<noteq> bs ! k" by auto
qed

lemma read_eq:
  assumes "p + 8 \<le> length src" "m + 8 \<le> length src"
  shows "LZ4_read_ARCH src p = Inr (le_word (slice p 8 src))" "LZ4_read32 src p = Inr (le_word (slice p 4 src))"
    "LZ4_read16 src p = Inr (le_word (slice p 2 src))"
  using assms by (simp_all add: LZ4_read_ARCH_def LZ4_read32_def LZ4_read16_def rd_def)

lemma xor_zero: "a XOR b = 0 \<longleftrightarrow> a = (b :: 'a :: len word)"
proof
  assume "a XOR b = 0"
  then have "(a XOR b) XOR b = 0 XOR b" by simp
  then show "a = b" by (simp add: xor.assoc)
qed simp

lemma diff8:
  assumes "p + 8 \<le> length src" "m + 8 \<le> length src"
  shows "\<exists>a b. LZ4_read_ARCH src m = Inr a \<and> LZ4_read_ARCH src p = Inr b
    \<and> (a XOR b = 0 \<longleftrightarrow> common src p m 8)
    \<and> (a XOR b \<noteq> 0 \<longrightarrow> LZ4_NbCommonBytes (a XOR b) < 8 \<and> common src p m (LZ4_NbCommonBytes (a XOR b))
         \<and> src ! (m + LZ4_NbCommonBytes (a XOR b)) \<noteq> src ! (p + LZ4_NbCommonBytes (a XOR b)))"
proof -
  let ?as = "slice m 8 src" and ?bs = "slice p 8 src"
  have len: "length ?as = 8" "length ?bs = 8" using assms by (simp_all add: buf_simps)
  have "(le_word ?as XOR le_word ?bs = (0 :: u64)) \<longleftrightarrow> common src p m 8"
    using le_word_inject [of ?as ?bs, where 'a = 64] len slice_eq_common [OF assms] xor_zero [of "le_word ?as :: u64" "le_word ?bs"] by simp
  moreover have "LZ4_NbCommonBytes (le_word ?as XOR le_word ?bs) < 8 \<and> common src p m (LZ4_NbCommonBytes (le_word ?as XOR le_word ?bs))
      \<and> src ! (m + LZ4_NbCommonBytes (le_word ?as XOR le_word ?bs)) \<noteq> src ! (p + LZ4_NbCommonBytes (le_word ?as XOR le_word ?bs))"
    if "le_word ?as XOR le_word ?bs \<noteq> (0 :: u64)"
    using NbCommonBytes_ok [OF len that] assms by (simp add: common_def nth_slice)
  ultimately show ?thesis using assms by (auto simp: LZ4_read_ARCH_def rd_def)
qed

lemma equal_read:
  assumes "p + 4 \<le> length src" "m + 4 \<le> length src"
  shows "\<exists>a b. LZ4_read32 src m = Inr a \<and> LZ4_read32 src p = Inr b \<and> (a = b \<longleftrightarrow> common src p m 4)"
  using le_word_inject [of "slice m 4 src" "slice p 4 src", where 'a = 32] slice_eq_common [OF assms] assms
  by (simp add: LZ4_read32_def rd_def buf_simps)

lemma equal_read16:
  assumes "p + 2 \<le> length src" "m + 2 \<le> length src"
  shows "\<exists>a b. LZ4_read16 src m = Inr a \<and> LZ4_read16 src p = Inr b \<and> (a = b \<longleftrightarrow> common src p m 2)"
  using le_word_inject [of "slice m 2 src" "slice p 2 src", where 'a = 16] slice_eq_common [OF assms] assms
  by (simp add: LZ4_read16_def rd_def buf_simps)

section \<open>Correctness\<close>

lemma count8_ok:
  assumes "m \<le> p" "p \<le> lim" "lim \<le> length src"
  shows "\<exists>j b. count8 src p m lim = Inr (p + j, m + (if b then j - j mod 8 else j), b)
    \<and> (if b then longest src p m lim j else p + j \<le> lim \<and> lim < p + j + 8 \<and> common src p m j)"
  using assms
proof (induction "lim - p" arbitrary: p m rule: less_induct)
  case less
  show ?case
  proof (cases "p + 7 < lim")
    case True
    obtain a b where ab: "LZ4_read_ARCH src m = Inr a" "LZ4_read_ARCH src p = Inr b"
      "a XOR b = 0 \<longleftrightarrow> common src p m 8"
      "a XOR b \<noteq> 0 \<longrightarrow> LZ4_NbCommonBytes (a XOR b) < 8 \<and> common src p m (LZ4_NbCommonBytes (a XOR b))
         \<and> src ! (m + LZ4_NbCommonBytes (a XOR b)) \<noteq> src ! (p + LZ4_NbCommonBytes (a XOR b))"
      using diff8 [of p src m] less.prems True by auto
    show ?thesis
    proof (cases "a XOR b = 0")
      case eq: True
      have "lim - (p + 8) < lim - p" using True by simp
      from less.hyps [OF this, of "m + 8"] obtain j r where
        j: "count8 src (p + 8) (m + 8) lim = Inr (p + 8 + j, m + 8 + (if r then j - j mod 8 else j), r)"
        "if r then longest src (p + 8) (m + 8) lim j else p + 8 + j \<le> lim \<and> lim < p + 8 + j + 8 \<and> common src (p + 8) (m + 8) j"
        using less.prems True by auto
      have "common src p m 8" using ab(3) eq by simp
      then show ?thesis
        using j True ab(1,2) eq longest_step [of src p m 8 lim j] common_add [of src p m 8 j]
        by (intro exI [of _ "8 + j"] exI [of _ r], subst count8.simps) (auto simp: add.assoc split: if_splits)
    next
      case neq: False
      let ?k = "LZ4_NbCommonBytes (a XOR b)"
      have "longest src p m lim ?k" "?k < 8" using ab(4) neq True by (auto simp: longest_def)
      then show ?thesis
        using True ab(1,2) neq by (intro exI [of _ ?k] exI [of _ True], subst count8.simps) (simp add: Let_def)
    qed
  next
    case False
    with less.prems show ?thesis
      by (intro exI [of _ 0] exI [of _ False], subst count8.simps) (simp add: common_def)
  qed
qed

lemma longest_exists: "p \<le> lim \<Longrightarrow> \<exists>k. longest src p m lim k"
proof (induction "lim - p" arbitrary: p m)
  case 0
  then show ?case by (intro exI [of _ 0]) (simp add: longest_def common_def)
next
  case (Suc d)
  show ?case
  proof (cases "src ! m = src ! p")
    case True
    have "d = lim - (p + 1)" "p + 1 \<le> lim" using Suc.hyps(2) by simp_all
    then obtain k where "longest src (p + 1) (m + 1) lim k" using Suc.hyps(1) by blast
    with True have "longest src p m lim (1 + k)" by (intro longest_step) (simp_all add: common_def)
    then show ?thesis by blast
  next
    case False
    with Suc.prems show ?thesis by (intro exI [of _ 0]) (simp add: longest_def common_def)
  qed
qed

lemma longest_ge: "longest src p m lim k \<Longrightarrow> n \<le> k \<longleftrightarrow> p + n \<le> lim \<and> common src p m n"
  unfolding longest_def common_def by (metis add_le_cancel_left le_less_trans less_le_trans not_le order_trans)

lemma longest_rest: "longest src p m lim k \<Longrightarrow> n \<le> k \<Longrightarrow> longest src (p + n) (m + n) lim (k - n)"
  using common_add [of src p m n "k - n"] by (simp add: longest_def)

text \<open>The last comparisons, of four bytes, two and one: what remains is shorter than eight bytes.\<close>

lemma count_tail_step:
  assumes "longest src p m lim k" "m \<le> p" "lim \<le> length src"
  shows "(if p + 3 < lim
     then rbind (LZ4_read32 src m) (\<lambda>a. rbind (LZ4_read32 src p) (\<lambda>b. Inr (if a = b then (p + 4, m + 4) else (p, m))))
     else Inr (p, m)) = Inr (if 4 \<le> k then (p + 4, m + 4) else (p, m))"
    "(if p + 1 < lim
     then rbind (LZ4_read16 src m) (\<lambda>a. rbind (LZ4_read16 src p) (\<lambda>b. Inr (if a = b then (p + 2, m + 2) else (p, m))))
     else Inr (p, m)) = Inr (if 2 \<le> k then (p + 2, m + 2) else (p, m))"
    "(if p < lim then rbind (rd m 1 src) (\<lambda>a. rbind (rd p 1 src) (\<lambda>b. Inr (if a = b then p + 1 else p))) else Inr p)
       = Inr (if 1 \<le> k then p + 1 else p)"
proof -
  note ge = longest_ge [OF assms(1)]
  show "(if p + 3 < lim
     then rbind (LZ4_read32 src m) (\<lambda>a. rbind (LZ4_read32 src p) (\<lambda>b. Inr (if a = b then (p + 4, m + 4) else (p, m))))
     else Inr (p, m)) = Inr (if 4 \<le> k then (p + 4, m + 4) else (p, m))"
  proof (cases "p + 3 < lim")
    case True
    then obtain a b where "LZ4_read32 src m = Inr a" "LZ4_read32 src p = Inr b" "a = b \<longleftrightarrow> common src p m 4"
      using equal_read [of p src m] assms by auto
    then show ?thesis using True ge [of 4] by (cases "a = b") auto
  qed (use ge [of 4] in auto)
  show "(if p + 1 < lim
     then rbind (LZ4_read16 src m) (\<lambda>a. rbind (LZ4_read16 src p) (\<lambda>b. Inr (if a = b then (p + 2, m + 2) else (p, m))))
     else Inr (p, m)) = Inr (if 2 \<le> k then (p + 2, m + 2) else (p, m))"
  proof (cases "p + 1 < lim")
    case True
    then obtain a b where "LZ4_read16 src m = Inr a" "LZ4_read16 src p = Inr b" "a = b \<longleftrightarrow> common src p m 2"
      using equal_read16 [of p src m] assms by auto
    then show ?thesis using True ge [of 2] by (cases "a = b") auto
  qed (use ge [of 2] in auto)
  show "(if p < lim then rbind (rd m 1 src) (\<lambda>a. rbind (rd p 1 src) (\<lambda>b. Inr (if a = b then p + 1 else p))) else Inr p)
       = Inr (if 1 \<le> k then p + 1 else p)"
  proof (cases "p < lim")
    case True
    have "slice m 1 src = slice p 1 src \<longleftrightarrow> common src p m 1" using slice_eq_common [of p 1 src m] True assms by simp
    with True assms ge [of 1] show ?thesis by (simp add: rd_def)
  qed (use ge [of 1] in auto)
qed

lemma count_tail_ok:
  assumes "longest src p m lim k" "k < 8" "m \<le> p" "lim \<le> length src"
  shows "count_tail src p m lim = Inr (p + k)"
proof -
  define j where "j = (if 4 \<le> k then 4 else (0 :: nat))"
  define i where "i = (if 2 \<le> k - j then 2 else (0 :: nat))"
  have l1: "longest src (p + j) (m + j) lim (k - j)" using longest_rest [OF assms(1), of j] by (simp add: j_def)
  have l2: "longest src (p + j + i) (m + j + i) lim (k - j - i)" using longest_rest [OF l1, of i] by (simp add: i_def)
  have le: "m + j \<le> p + j" "m + j + i \<le> p + j + i" using assms(3) by simp_all
  have e1: "(if 4 \<le> k then (p + 4, m + 4) else (p, m)) = (p + j, m + j)" by (simp add: j_def)
  have e2: "(if 2 \<le> k - j then (p + j + 2, m + j + 2) else (p + j, m + j)) = (p + j + i, m + j + i)" by (simp add: i_def)
  have "count_tail src p m lim = Inr (if 1 \<le> k - j - i then p + j + i + 1 else p + j + i)"
    unfolding count_tail_def
    by (simp only: count_tail_step(1) [OF assms(1,3,4)] e1 rbind_simps prod.case
      count_tail_step(2) [OF l1 le(1) assms(4)] e2 count_tail_step(3) [OF l2 le(2) assms(4)])
  moreover have "k - j - i \<le> 1" "j + i \<le> k" using assms(2) by (auto simp: j_def i_def)
  ultimately show ?thesis by (auto split: if_splits)
qed

lemma count_rest_ok:
  assumes "m \<le> p" "p \<le> lim" "lim \<le> length src" "s \<le> p"
  shows "\<exists>k. count_rest src s p m lim = Inr (p + k - s) \<and> longest src p m lim k"
proof -
  from count8_ok [OF assms(1-3)] obtain j b where
    j: "count8 src p m lim = Inr (p + j, m + (if b then j - j mod 8 else j), b)"
    "if b then longest src p m lim j else p + j \<le> lim \<and> lim < p + j + 8 \<and> common src p m j" by blast
  show ?thesis
  proof (cases b)
    case True
    with j show ?thesis by (auto simp: count_rest_def)
  next
    case False
    with j(2) obtain k where k: "longest src (p + j) (m + j) lim k" using longest_exists [of "p + j" lim] by auto
    with False j(2) have "k < 8" by (auto simp: longest_def)
    have "count_tail src (p + j) (m + j) lim = Inr (p + j + k)"
      using count_tail_ok [OF k \<open>k < 8\<close> _ assms(3)] assms(1) by simp
    with False j longest_step [of src p m j lim k] k show ?thesis
      by (intro exI [of _ "j + k"]) (auto simp: count_rest_def add.assoc)
  qed
qed

lemma LZ4_count_ok:
  assumes "m \<le> p" "p \<le> lim" "lim \<le> length src"
  shows "\<exists>k. LZ4_count src p m lim = Inr k \<and> longest src p m lim k"
proof (cases "p + 7 < lim")
  case True
  obtain a b where ab: "LZ4_read_ARCH src m = Inr a" "LZ4_read_ARCH src p = Inr b"
    "a XOR b = 0 \<longleftrightarrow> common src p m 8"
    "a XOR b \<noteq> 0 \<longrightarrow> LZ4_NbCommonBytes (a XOR b) < 8 \<and> common src p m (LZ4_NbCommonBytes (a XOR b))
         \<and> src ! (m + LZ4_NbCommonBytes (a XOR b)) \<noteq> src ! (p + LZ4_NbCommonBytes (a XOR b))"
    using diff8 [of p src m] assms True by auto
  show ?thesis
  proof (cases "a XOR b = 0")
    case eq: True
    obtain k where k: "count_rest src p (p + 8) (m + 8) lim = Inr (p + 8 + k - p)" "longest src (p + 8) (m + 8) lim k"
      using count_rest_ok [of "m + 8" "p + 8" lim src p] assms True by auto
    with ab eq True longest_step [of src p m 8 lim k] show ?thesis by (auto simp: LZ4_count_def)
  next
    case neq: False
    with ab(4) True have "longest src p m lim (LZ4_NbCommonBytes (a XOR b))" by (auto simp: longest_def)
    with ab(1,2) True neq show ?thesis by (simp add: LZ4_count_def Let_def)
  qed
next
  case False
  with count_rest_ok [OF assms, of p] show ?thesis by (simp add: LZ4_count_def)
qed

text \<open>
  C40: The length that LZ4 counts eight, four, two and one bytes at a time, by the number of trailing zero bits of
  a difference, is the length of the longest common prefix of the two positions that ends at the limit: the
  result is \<open>k\<close> exactly if the \<open>k\<close> bytes agree and the bytes behind them, if still below the limit, differ.
\<close>
theorem LZ4_count_longest:
  assumes "m \<le> p" "p \<le> lim" "lim \<le> length src"
  shows "LZ4_count src p m lim = Inr k \<longleftrightarrow>
    p + k \<le> lim \<and> slice m k src = slice p k src \<and> (p + k < lim \<longrightarrow> src ! (m + k) \<noteq> src ! (p + k))"
proof -
  have l: "longest src p m lim j \<longleftrightarrow> p + j \<le> lim \<and> slice m j src = slice p j src \<and> (p + j < lim \<longrightarrow> src ! (m + j) \<noteq> src ! (p + j))" for j
    using assms slice_eq_common [of p j src m] by (auto simp: longest_def)
  have "j = i" if "longest src p m lim j" "longest src p m lim i" for i j
    using longest_ge [OF that(1), of i] longest_ge [OF that(2), of j] that by (simp add: longest_def)
  with LZ4_count_ok [OF assms] show ?thesis unfolding l [symmetric] by auto
qed

theorem LZ4_count_longest_witness:
  "LZ4_count ([1, 2, 3, 1, 2, 3, 1, 2, 3, 1, 2, 3, 1, 2, 9] :: byte list) 3 0 15 = Inr 11"
  by (subst LZ4_count_longest) (simp_all add: slice_def)

end
