(* ===== verification/LZ4Compress.thy ===== *)
theory LZ4Compress
  imports LZ4Count
begin

text \<open>
  \<open>LZ4_compress_fast\<close> of \<open>src/util/lz4.c\<close> on a 64-bit little-endian machine: \<open>LZ4_compress_generic_validated\<close> with \<open>noDict\<close>,
  \<open>noDictIssue\<close> and a cleared context (\<open>startIndex\<close> is 0 and \<open>base\<close> is the source), so that table entries
  are positions of the source.  The labels of the source are the constructors of \<open>lz4_enc\<close>, the search loop
  is a label of its own and one step runs from a label to the next jump.  \<open>src\<close> is the input and \<open>dst\<close> the
  output buffer; \<open>olimit\<close> is \<open>maxOut\<close>.  \<open>fillOutput\<close> (only \<open>LZ4_compress_destSize\<close> asks for it) and \<open>byPtr\<close>
  (only 32-bit machines) do not occur.
\<close>

section \<open>The hash table\<close>

datatype tableType = byU32 | byU16
datatype limitedOutput_directive = notLimited | limitedOutput

definition LZ4_HASHLOG :: nat where "LZ4_HASHLOG = 12"
definition LZ4_64Klimit :: nat where "LZ4_64Klimit = 65536 + (MFLIMIT - 1)"
definition LZ4_skipTrigger :: nat where "LZ4_skipTrigger = 6"
definition LZ4_MAX_INPUT_SIZE :: nat where "LZ4_MAX_INPUT_SIZE = 0x7E000000"
definition LZ4_ACCELERATION_DEFAULT :: int where "LZ4_ACCELERATION_DEFAULT = 1"
definition LZ4_ACCELERATION_MAX :: int where "LZ4_ACCELERATION_MAX = 65537"

definition hashLog :: "tableType \<Rightarrow> nat" where
  "hashLog t = (if t = byU16 then LZ4_HASHLOG + 1 else LZ4_HASHLOG)"

definition LZ4_hash4 :: "u32 \<Rightarrow> tableType \<Rightarrow> u32" where
  "LZ4_hash4 s t =
     (if t = byU16 then drop_bit (MINMATCH * 8 - (LZ4_HASHLOG + 1)) (s * 2654435761)
      else drop_bit (MINMATCH * 8 - LZ4_HASHLOG) (s * 2654435761))"

definition LZ4_hash5 :: "u64 \<Rightarrow> tableType \<Rightarrow> u32" where
  "LZ4_hash5 s t = ucast (drop_bit (64 - hashLog t) (push_bit 24 s * 889523592379))"

definition LZ4_hashPosition :: "byte list \<Rightarrow> nat \<Rightarrow> tableType \<Rightarrow> u32 result" where
  "LZ4_hashPosition src p t =
     (if t \<noteq> byU16 then rbind (LZ4_read_ARCH src p) (\<lambda>s. Inr (LZ4_hash5 s t))
      else rbind (LZ4_read32 src p) (\<lambda>s. Inr (LZ4_hash4 s t)))"

text \<open>The 16 KiB of the table hold \<open>2\<^sup>1\<^sup>2\<close> entries of 32 bits or \<open>2\<^sup>1\<^sup>3\<close> entries of 16 bits.\<close>

type_synonym hash_table = "nat \<Rightarrow> nat"

definition LZ4_putIndexOnHash :: "nat \<Rightarrow> u32 \<Rightarrow> hash_table \<Rightarrow> tableType \<Rightarrow> hash_table result" where
  "LZ4_putIndexOnHash idx h tbl t =
     (if unat h < 2 ^ hashLog t
      then Inr (tbl(unat h := (case t of byU32 \<Rightarrow> idx mod 2 ^ 32 | byU16 \<Rightarrow> idx mod 2 ^ 16)))
      else Inl OutOfBounds)"

definition LZ4_putPositionOnHash :: "nat \<Rightarrow> u32 \<Rightarrow> hash_table \<Rightarrow> tableType \<Rightarrow> hash_table result" where
  "LZ4_putPositionOnHash p h tbl t =
     (if unat h < 2 ^ hashLog t
      then Inr (tbl(unat h := (case t of byU32 \<Rightarrow> p mod 2 ^ 32 | byU16 \<Rightarrow> p mod 2 ^ 16)))
      else Inl OutOfBounds)"

definition LZ4_putPosition :: "byte list \<Rightarrow> nat \<Rightarrow> hash_table \<Rightarrow> tableType \<Rightarrow> hash_table result" where
  "LZ4_putPosition src p tbl t = rbind (LZ4_hashPosition src p t) (\<lambda>h. LZ4_putPositionOnHash p h tbl t)"

definition LZ4_getIndexOnHash :: "u32 \<Rightarrow> hash_table \<Rightarrow> tableType \<Rightarrow> nat result" where
  "LZ4_getIndexOnHash h tbl t = (if unat h < 2 ^ hashLog t then Inr (tbl (unat h)) else Inl OutOfBounds)"

section \<open>The encoder\<close>

datatype lz4_enc =
    Search nat nat nat u32 nat hash_table nat "byte list"        \<comment> \<open>forwardIp, step, searchMatchNb, forwardH, anchor, table, op, dst\<close>
  | NextMatch nat nat nat nat hash_table nat "byte list"         \<comment> \<open>ip, match, filledIp, token, table, op, dst\<close>
  | LastLiterals nat nat "byte list"                              \<comment> \<open>anchor, op, dst\<close>
  | Compressed nat "byte list"
  | NoRoom "byte list"

definition LZ4_writeLE16 :: "nat \<Rightarrow> nat \<Rightarrow> byte list \<Rightarrow> byte list result" where
  "LZ4_writeLE16 p v dst = wr p [of_nat v, of_nat (v div 256)] dst"

definition same32 :: "byte list \<Rightarrow> nat \<Rightarrow> nat \<Rightarrow> bool result" where
  "same32 src match ip = rbind (LZ4_read32 src match) (\<lambda>a. rbind (LZ4_read32 src ip) (\<lambda>b. Inr (a = b)))"

fun catch_up :: "byte list \<Rightarrow> nat \<Rightarrow> nat \<Rightarrow> nat \<Rightarrow> (nat \<times> nat) result" where
  "catch_up src anchor ip match =
     (if ip > anchor \<and> match > 0
      then rbind (rd (ip - 1) 1 src) (\<lambda>a. rbind (rd (match - 1) 1 src) (\<lambda>b.
             if a = b then catch_up src anchor (ip - 1) (match - 1) else Inr (ip, match)))
      else Inr (ip, match))"

declare catch_up.simps [simp del]

text \<open>A literal length: the token and the bytes that extend it.\<close>

fun put_len :: "nat \<Rightarrow> nat \<Rightarrow> byte list \<Rightarrow> (nat \<times> byte list) result" where
  "put_len len op dst =
     (if len \<ge> 255 then rbind (wr op [255] dst) (put_len (len - 255) (op + 1))
      else rbind (wr op [of_nat len] dst) (\<lambda>dst. Inr (op + 1, dst)))"

declare put_len.simps [simp del]

definition put_run :: "nat \<Rightarrow> nat \<Rightarrow> byte list \<Rightarrow> (nat \<times> byte list) result" where
  "put_run litLength op dst =
     (if litLength \<ge> RUN_MASK
      then rbind (wr op [of_nat (RUN_MASK * 2 ^ ML_BITS)] dst) (put_len (litLength - RUN_MASK) (op + 1))
      else rbind (wr op [of_nat (litLength * 2 ^ ML_BITS)] dst) (\<lambda>dst. Inr (op + 1, dst)))"

definition encode_literals ::
  "byte list \<Rightarrow> nat \<Rightarrow> limitedOutput_directive \<Rightarrow> nat \<Rightarrow> nat \<Rightarrow> nat \<Rightarrow> nat \<Rightarrow> hash_table \<Rightarrow> nat \<Rightarrow> byte list \<Rightarrow> lz4_enc result" where
  "encode_literals src maxOut od ip match filledIp anchor tbl op dst =
     (let litLength = ip - anchor; token = op in
      if od = limitedOutput \<and> (op + 1) + litLength + (2 + 1 + LASTLITERALS) + litLength div 255 > maxOut
      then Inr (NoRoom dst)
      else
        rbind (put_run litLength op dst) (\<lambda>(op, dst).
        rbind (LZ4_wildCopy8 (memcpy_from src) op anchor (op + litLength) dst) (\<lambda>dst.
        Inr (NextMatch ip match filledIp token tbl (op + litLength) dst))))"

definition search ::
  "byte list \<Rightarrow> nat \<Rightarrow> limitedOutput_directive \<Rightarrow> tableType \<Rightarrow> nat \<Rightarrow> nat \<Rightarrow> nat \<Rightarrow> u32 \<Rightarrow> nat \<Rightarrow> hash_table \<Rightarrow> nat \<Rightarrow> byte list \<Rightarrow> lz4_enc result" where
  "search src maxOut od t forwardIp step searchMatchNb forwardH anchor tbl op dst =
     (let h = forwardH; current = forwardIp in
      rbind (LZ4_getIndexOnHash h tbl t) (\<lambda>matchIndex.
      let ip = forwardIp; forwardIp = forwardIp + step; step = searchMatchNb div 2 ^ LZ4_skipTrigger; searchMatchNb = searchMatchNb + 1 in
      if forwardIp + (MFLIMIT - 1) > length src then Inr (LastLiterals anchor op dst)
      else
        rbind (LZ4_hashPosition src forwardIp t) (\<lambda>forwardH.
        rbind (LZ4_putIndexOnHash current h tbl t) (\<lambda>tbl.
        rbind (if t \<noteq> byU16 \<and> matchIndex + LZ4_DISTANCE_MAX < current then Inr False else same32 src matchIndex ip) (\<lambda>found.
        if found then
          rbind (catch_up src anchor ip matchIndex) (\<lambda>(ip', match).
          encode_literals src maxOut od ip' match ip anchor tbl op dst)
        else Inr (Search forwardIp step searchMatchNb forwardH anchor tbl op dst))))))"

definition add_token :: "nat \<Rightarrow> nat \<Rightarrow> byte list \<Rightarrow> byte list result" where
  "add_token token v dst = rbind (rd token 1 dst) (\<lambda>bs. wr token [hd bs + of_nat v] dst)"

fun put_match_len :: "nat \<Rightarrow> nat \<Rightarrow> byte list \<Rightarrow> (nat \<times> byte list) result" where
  "put_match_len matchCode op dst =
     (if matchCode \<ge> 4 * 255 then rbind (wr (op + 4) [255, 255, 255, 255] dst) (put_match_len (matchCode - 4 * 255) (op + 4))
      else let op = op + matchCode div 255 in
        rbind (wr op [of_nat (matchCode mod 255)] dst) (\<lambda>dst. Inr (op + 1, dst)))"

declare put_match_len.simps [simp del]

definition put_match :: "nat \<Rightarrow> nat \<Rightarrow> nat \<Rightarrow> byte list \<Rightarrow> (nat \<times> byte list) result" where
  "put_match matchCode token op dst =
     (if matchCode \<ge> ML_MASK
      then rbind (add_token token ML_MASK dst) (\<lambda>dst.
           rbind (wr op [255, 255, 255, 255] dst) (put_match_len (matchCode - ML_MASK) op))
      else rbind (add_token token matchCode dst) (\<lambda>dst. Inr (op, dst)))"

text \<open>Behind a match: another match at once, or a new search.\<close>

definition after_match ::
  "byte list \<Rightarrow> tableType \<Rightarrow> nat \<Rightarrow> nat \<Rightarrow> nat \<Rightarrow> hash_table \<Rightarrow> nat \<Rightarrow> byte list \<Rightarrow> lz4_enc result" where
  "after_match src t acceleration ip filledIp tbl op dst =
     (let anchor = ip in
      if ip + (MFLIMIT - 1) \<ge> length src then Inr (LastLiterals anchor op dst)
      else
        rbind (LZ4_putPosition src (ip - 2) tbl t) (\<lambda>tbl.
        rbind (LZ4_hashPosition src ip t) (\<lambda>h.
        rbind (LZ4_getIndexOnHash h tbl t) (\<lambda>matchIndex.
        rbind (LZ4_putIndexOnHash ip h tbl t) (\<lambda>tbl.
        rbind (if t = byU16 \<or> matchIndex + LZ4_DISTANCE_MAX \<ge> ip then same32 src matchIndex ip else Inr False) (\<lambda>found.
        if found then rbind (wr op [0] dst) (\<lambda>dst. Inr (NextMatch ip matchIndex filledIp op tbl (op + 1) dst))
        else
          rbind (LZ4_hashPosition src (ip + 1) t) (\<lambda>forwardH.
          Inr (Search (ip + 1) 1 (acceleration * 2 ^ LZ4_skipTrigger) forwardH anchor tbl op dst))))))))"

definition next_match ::
  "byte list \<Rightarrow> nat \<Rightarrow> limitedOutput_directive \<Rightarrow> tableType \<Rightarrow> nat \<Rightarrow> nat \<Rightarrow> nat \<Rightarrow> nat \<Rightarrow> nat \<Rightarrow> hash_table \<Rightarrow> nat \<Rightarrow> byte list \<Rightarrow> lz4_enc result" where
  "next_match src maxOut od t acceleration ip match filledIp token tbl op dst =
     rbind (LZ4_writeLE16 op (ip - match) dst) (\<lambda>dst.
     let op = op + 2 in
     rbind (LZ4_count src (ip + MINMATCH) (match + MINMATCH) (length src - LASTLITERALS)) (\<lambda>matchCode.
     let ip = ip + matchCode + MINMATCH in
     if od = limitedOutput \<and> op + (1 + LASTLITERALS) + (matchCode + 240) div 255 > maxOut then Inr (NoRoom dst)
     else rbind (put_match matchCode token op dst) (\<lambda>(op, dst). after_match src t acceleration ip filledIp tbl op dst)))"

definition last_literals ::
  "byte list \<Rightarrow> nat \<Rightarrow> limitedOutput_directive \<Rightarrow> nat \<Rightarrow> nat \<Rightarrow> byte list \<Rightarrow> lz4_enc result" where
  "last_literals src maxOut od anchor op dst =
     (let lastRun = length src - anchor in
      if od = limitedOutput \<and> op + lastRun + 1 + (lastRun + 255 - RUN_MASK) div 255 > maxOut then Inr (NoRoom dst)
      else
        rbind (put_run lastRun op dst) (\<lambda>(op, dst).
        rbind (memcpy_from src op anchor lastRun dst) (\<lambda>dst. Inr (Compressed (op + lastRun) dst))))"

definition enc_step ::
  "byte list \<Rightarrow> nat \<Rightarrow> limitedOutput_directive \<Rightarrow> tableType \<Rightarrow> nat \<Rightarrow> lz4_enc \<Rightarrow> lz4_enc result" where
  "enc_step src maxOut od t acceleration st = (case st of
     Search fwd step nb h anchor tbl op dst \<Rightarrow> search src maxOut od t fwd step nb h anchor tbl op dst
   | NextMatch ip match filledIp token tbl op dst \<Rightarrow> next_match src maxOut od t acceleration ip match filledIp token tbl op dst
   | LastLiterals anchor op dst \<Rightarrow> last_literals src maxOut od anchor op dst
   | _ \<Rightarrow> Inr st)"

definition enc_running :: "lz4_enc \<Rightarrow> bool" where
  "enc_running st = (case st of Compressed _ _ \<Rightarrow> False | NoRoom _ \<Rightarrow> False | _ \<Rightarrow> True)"

definition enc_start :: "byte list \<Rightarrow> tableType \<Rightarrow> nat \<Rightarrow> byte list \<Rightarrow> lz4_enc result" where
  "enc_start src t acceleration dst =
     (if length src < LZ4_minLength then Inr (LastLiterals 0 0 dst)
      else
        rbind (LZ4_putPosition src 0 (\<lambda>_. 0) t) (\<lambda>tbl.
        rbind (LZ4_hashPosition src 1 t) (\<lambda>forwardH.
        Inr (Search 1 1 (acceleration * 2 ^ LZ4_skipTrigger) forwardH 0 tbl 0 dst))))"

definition enc_result :: "lz4_enc \<Rightarrow> (nat \<times> byte list) result" where
  "enc_result st = (case st of
     Compressed op dst \<Rightarrow> Inr (op, dst)
   | NoRoom dst \<Rightarrow> Inr (0, dst)
   | _ \<Rightarrow> Inl Diverges)"

definition LZ4_compress_generic_validated ::
  "byte list \<Rightarrow> nat \<Rightarrow> limitedOutput_directive \<Rightarrow> tableType \<Rightarrow> nat \<Rightarrow> byte list \<Rightarrow> (nat \<times> byte list) result option" where
  "LZ4_compress_generic_validated src maxOut od t acceleration dst =
     (if t = byU16 \<and> length src \<ge> LZ4_64Klimit then Some (Inr (0, dst))
      else case enc_start src t acceleration dst of
        Inl e \<Rightarrow> Some (Inl e)
      | Inr st \<Rightarrow> map_option (\<lambda>r. rbind r enc_result)
                   (rwhile enc_running (\<lambda>st. Some (enc_step src maxOut od t acceleration st)) st))"

definition LZ4_compress_generic ::
  "byte list \<Rightarrow> nat \<Rightarrow> limitedOutput_directive \<Rightarrow> tableType \<Rightarrow> nat \<Rightarrow> byte list \<Rightarrow> (nat \<times> byte list) result option" where
  "LZ4_compress_generic src dstCapacity od t acceleration dst =
     (if length src > LZ4_MAX_INPUT_SIZE then Some (Inr (0, dst))
      else if src = [] then
        if od \<noteq> notLimited \<and> dstCapacity = 0 then Some (Inr (0, dst))
        else Some (rbind (wr 0 [0] dst) (\<lambda>dst. Inr (1, dst)))
      else LZ4_compress_generic_validated src dstCapacity od t acceleration dst)"

definition LZ4_COMPRESSBOUND :: "nat \<Rightarrow> nat" where
  "LZ4_COMPRESSBOUND isize = (if isize > LZ4_MAX_INPUT_SIZE then 0 else isize + isize div 255 + 16)"

definition LZ4_compress_fast_extState :: "byte list \<Rightarrow> nat \<Rightarrow> int \<Rightarrow> byte list \<Rightarrow> (nat \<times> byte list) result option" where
  "LZ4_compress_fast_extState src maxOut acceleration dst =
     (let acceleration = (if acceleration < 1 then LZ4_ACCELERATION_DEFAULT else acceleration);
          acceleration = nat (if acceleration > LZ4_ACCELERATION_MAX then LZ4_ACCELERATION_MAX else acceleration) in
      if maxOut \<ge> LZ4_COMPRESSBOUND (length src) then
        if length src < LZ4_64Klimit then LZ4_compress_generic src 0 notLimited byU16 acceleration dst
        else LZ4_compress_generic src 0 notLimited byU32 acceleration dst
      else
        if length src < LZ4_64Klimit then LZ4_compress_generic src maxOut limitedOutput byU16 acceleration dst
        else LZ4_compress_generic src maxOut limitedOutput byU32 acceleration dst)"

text \<open>The returned size, 0 if the block does not fit, and the contents of the output buffer.\<close>

definition LZ4_compress_fast :: "byte list \<Rightarrow> nat \<Rightarrow> int \<Rightarrow> byte list \<Rightarrow> (nat \<times> byte list) result option" where
  "LZ4_compress_fast src maxOut acceleration dst = LZ4_compress_fast_extState src maxOut acceleration dst"

section \<open>What has been written\<close>

text \<open>\<open>out N op dst A\<close>: the output buffer of \<open>N\<close> bytes holds \<open>A\<close> before \<open>op\<close>.\<close>

definition out :: "nat \<Rightarrow> nat \<Rightarrow> byte list \<Rightarrow> byte list \<Rightarrow> bool" where
  "out N op dst A \<longleftrightarrow> length dst = N \<and> op = length A \<and> take op dst = A"

lemma out_le: "out N op dst A \<Longrightarrow> op \<le> N \<and> op = length A \<and> length dst = N"
  unfolding out_def by (metis length_take min.cobounded1)

lemma wr_out:
  assumes "out N op dst A" "op + length bs \<le> N"
  shows "\<exists>dst'. wr op bs dst = Inr dst' \<and> out N (op + length bs) dst' (A @ bs)"
  using assms take_overwrite [of op dst bs] by (auto simp: out_def wr_def overwrite_length)

lemma put_len_ok:
  assumes "out N op dst A" "op + len div 255 + 1 \<le> N"
  shows "\<exists>dst'. put_len len op dst = Inr (op + (len div 255 + 1), dst')
    \<and> out N (op + (len div 255 + 1)) dst' (A @ replicate (len div 255) 255 @ [of_nat (len mod 255)])"
  using assms
proof (induction len op dst arbitrary: A rule: put_len.induct)
  case (1 len op dst)
  show ?case
  proof (cases "255 \<le> len")
    case True
    then have d: "len div 255 = Suc ((len - 255) div 255)" "len mod 255 = (len - 255) mod 255"
      by (simp_all add: le_div_geq le_mod_geq)
    from wr_out [OF "1.prems"(1), of "[255]"] "1.prems"(2) obtain d1 where
      d1: "wr op [255] dst = Inr d1" "out N (op + 1) d1 (A @ [255])" by auto
    have "op + 1 + (len - 255) div 255 + 1 \<le> N" using "1.prems"(2) d(1) by simp
    from "1.IH" [OF True d1(2) this] obtain d2 where
      d2: "put_len (len - 255) (op + 1) d1 = Inr (op + 1 + ((len - 255) div 255 + 1), d2)"
      "out N (op + 1 + ((len - 255) div 255 + 1)) d2 ((A @ [255]) @ replicate ((len - 255) div 255) 255 @ [of_nat ((len - 255) mod 255)])"
      by blast
    then show ?thesis using True d1(1) d by (subst put_len.simps) simp
  next
    case False
    then show ?thesis using wr_out [OF "1.prems"(1), of "[of_nat len]"] "1.prems"(2) by (subst put_len.simps) auto
  qed
qed

lemma put_run_ok:
  assumes "out N op dst A" "op + 1 + length (ext_len l) \<le> N"
  shows "\<exists>dst'. put_run l op dst = Inr (op + (1 + length (ext_len l)), dst')
    \<and> out N (op + (1 + length (ext_len l))) dst' (A @ of_nat (min l 15 * 16) # ext_len l)"
proof (cases "15 \<le> l")
  case True
  from wr_out [OF assms(1), of "[of_nat (RUN_MASK * 2 ^ ML_BITS)]"] assms(2) obtain d1 where
    d1: "wr op [of_nat (RUN_MASK * 2 ^ ML_BITS)] dst = Inr d1" "out N (op + 1) d1 (A @ [of_nat (RUN_MASK * 2 ^ ML_BITS)])" by auto
  have "op + 1 + (l - 15) div 255 + 1 \<le> N" using assms(2) True by (simp add: ext_len_length)
  from put_len_ok [OF d1(2) this] d1(1) True show ?thesis
    by (auto simp: put_run_def ext_len_def RUN_MASK_def ML_BITS_def)
next
  case False
  then show ?thesis
    using wr_out [OF assms(1), of "[of_nat (l * 2 ^ ML_BITS)]"] assms(2) by (auto simp: put_run_def ext_len_def RUN_MASK_def ML_BITS_def)
qed

lemma keeps_out: "out N op dst A \<Longrightarrow> keeps op dst dst' \<Longrightarrow> out N op dst' A"
  using keeps_take [of op dst dst'] out_le [of N op dst A] keeps_length [of op dst dst'] unfolding out_def by metis

lemma copied_out:
  assumes "out N op dst A" "keeps op dst dst'" "copied src op s op (op + l) dst'" "s + l \<le> length src" "op + l \<le> N"
  shows "out N (op + l) dst' (A @ slice s l src)"
proof -
  have "slice op l dst' = slice s l src"
  proof (rule nth_equalityI)
    show "slice op l dst' ! i = slice s l src ! i" if "i < length (slice op l dst')" for i
      using that assms keeps_length [OF assms(2)] out_le [OF assms(1)] by (auto simp: buf_simps nth_slice copied_def add.commute)
  qed (use assms keeps_length [OF assms(2)] out_le [OF assms(1)] in \<open>simp add: buf_simps\<close>)
  with keeps_out [OF assms(1,2)] show ?thesis using take_slice [of op dst' l] assms(4) by (auto simp: out_def buf_simps)
qed

lemma wildCopy8_out:
  assumes "out N op dst A" "s + l + 8 \<le> length src" "op + 8 \<le> N" "op + l + 7 \<le> N"
  shows "\<exists>dst'. LZ4_wildCopy8 (memcpy_from src) op s (op + l) dst = Inr dst' \<and> out N (op + l) dst' (A @ slice s l src)"
proof -
  obtain k where "s + k \<le> length src" "8 \<le> k" "l + 7 \<le> k" "op + k \<le> N"
    using assms(2-4) by (cases "l = 0") (auto intro: that [of 8] that [of "l + 7"])
  with mem_from.wildCopy8_ok [of 8 op op s k src "op + l" dst] out_le [OF assms(1)] obtain dst' where
    "LZ4_wildCopy8 (memcpy_from src) op s (op + l) dst = Inr dst'" "keeps op dst dst'" "copied src op s op (op + l) dst'"
    by (auto simp: add.commute)
  with copied_out [OF assms(1)] assms show ?thesis by auto
qed

lemma memcpy_out:
  assumes "out N op dst A" "s + l \<le> length src" "op + l \<le> N"
  shows "\<exists>dst'. memcpy_from src op s l dst = Inr dst' \<and> out N (op + l) dst' (A @ slice s l src)"
  using wr_out [OF assms(1), of "slice s l src"] assms by (simp add: memcpy_from_def rd_def buf_simps)

lemma out_prefix: "out N op dst (A @ B) \<Longrightarrow> out N (length A) dst A"
  unfolding out_def by (metis append_eq_conv_conj append_take_drop_id append_assoc)

lemma add_token_ok:
  assumes "out N op dst (B @ tk # C)"
  shows "\<exists>dst'. add_token (length B) v dst = Inr dst' \<and> out N op dst' (B @ (tk + of_nat v) # C)"
proof -
  have e: "dst = (B @ tk # C) @ drop op dst" "length B < N" "length dst = N"
    using assms append_take_drop_id [of op dst] out_le [OF assms] by (auto simp: out_def)
  have "slice (length B) 1 dst = [tk]" by (subst e(1)) (simp add: slice_def)
  then have "add_token (length B) v dst = Inr (overwrite (length B) [tk + of_nat v] dst)"
    using e(2,3) by (simp add: add_token_def rd_def wr_def)
  moreover have "overwrite (length B) [tk + of_nat v] dst = (B @ (tk + of_nat v) # C) @ drop op dst"
    by (subst e(1)) (simp add: overwrite_def)
  ultimately show ?thesis using assms e(2,3) out_le [OF assms] by (auto simp: out_def)
qed

lemma replicate4: "replicate 4 (255 :: byte) = [255, 255, 255, 255]"
  by (simp add: numeral_eq_Suc)

lemma put_match_len_ok:
  assumes "out N (op + 4) dst (A @ replicate 4 255)" "op + mc div 255 + 4 \<le> N"
  shows "\<exists>dst'. put_match_len mc op dst = Inr (op + (mc div 255 + 1), dst')
    \<and> out N (op + (mc div 255 + 1)) dst' (A @ replicate (mc div 255) 255 @ [of_nat (mc mod 255)])"
  using assms
proof (induction mc op dst arbitrary: A rule: put_match_len.induct)
  case (1 mc op dst)
  show ?case
  proof (cases "1020 \<le> mc")
    case True
    then obtain k where k: "mc = 1020 + k" by (metis le_add_diff_inverse)
    then have d: "mc div 255 = 4 + (mc - 1020) div 255" "mc mod 255 = (mc - 1020) mod 255"
      using mod_mult_self1 [of k 4 255] by (simp_all add: add.commute)
    from wr_out [OF "1.prems"(1), of "replicate 4 255"] "1.prems"(2) d(1) obtain d1 where
      d1: "wr (op + 4) (replicate 4 255) dst = Inr d1" "out N (op + 4 + 4) d1 ((A @ replicate 4 255) @ replicate 4 255)" by auto
    have "op + 4 + (mc - 1020) div 255 + 4 \<le> N" using "1.prems"(2) d(1) by simp
    from "1.IH" [of d1 "A @ replicate 4 255"] this True d1(2) obtain d2 where
      d2: "put_match_len (mc - 1020) (op + 4) d1 = Inr (op + 4 + ((mc - 1020) div 255 + 1), d2)"
      "out N (op + 4 + ((mc - 1020) div 255 + 1)) d2 ((A @ replicate 4 255) @ replicate ((mc - 1020) div 255) 255 @ [of_nat ((mc - 1020) mod 255)])"
      by auto
    have r: "replicate (mc div 255) (255 :: byte) = replicate 4 255 @ replicate ((mc - 1020) div 255) 255"
      by (simp only: d(1) replicate_add)
    have o: "op + (mc div 255 + 1) = op + 4 + ((mc - 1020) div 255 + 1)" using d(1) by simp
    have "put_match_len mc op dst = put_match_len (mc - 1020) (op + 4) d1"
      using True d1(1) by (subst put_match_len.simps) (simp add: replicate4)
    then show ?thesis using d2 unfolding r o d(2) by simp
  next
    case False
    then have j: "mc div 255 \<le> 4" by (simp add: div_le_mono [of mc 1019 255, simplified])
    have r: "A @ replicate 4 255 = (A @ replicate (mc div 255) 255) @ replicate (4 - mc div 255) (255 :: byte)"
      using j by (simp flip: replicate_add)
    have "out N (op + mc div 255) dst (A @ replicate (mc div 255) 255)"
      using out_prefix [OF "1.prems"(1) [unfolded r]] out_le [OF "1.prems"(1)] by simp
    from wr_out [OF this, of "[of_nat (mc mod 255)]"] "1.prems"(2) False show ?thesis
      by (subst put_match_len.simps) (auto simp: Let_def)
  qed
qed

lemma put_match_ok:
  assumes "out N op dst (B @ tk # C)" "op + (if mc < 15 then 0 else (mc - 15) div 255 + 4) \<le> N"
  shows "\<exists>dst'. put_match mc (length B) op dst = Inr (op + length (ext_len mc), dst')
    \<and> out N (op + length (ext_len mc)) dst' (B @ (tk + of_nat (min mc 15)) # C @ ext_len mc)"
proof (cases "15 \<le> mc")
  case True
  from add_token_ok [OF assms(1), of 15] obtain d1 where
    d1: "add_token (length B) 15 dst = Inr d1" "out N op d1 (B @ (tk + of_nat 15) # C)" by blast
  from wr_out [OF d1(2), of "replicate 4 255"] True assms(2) obtain d2 where
    d2: "wr op (replicate 4 255) d1 = Inr d2" "out N (op + 4) d2 ((B @ (tk + of_nat 15) # C) @ replicate 4 255)" by auto
  from put_match_len_ok [OF d2(2), of "mc - 15"] True assms(2) obtain d3 where
    d3: "put_match_len (mc - 15) op d2 = Inr (op + ((mc - 15) div 255 + 1), d3)"
    "out N (op + ((mc - 15) div 255 + 1)) d3 ((B @ (tk + of_nat 15) # C) @ replicate ((mc - 15) div 255) 255 @ [of_nat ((mc - 15) mod 255)])"
    by auto
  then show ?thesis using True d1(1) d2(1) d3 by (simp add: put_match_def ML_MASK_def ext_len_def replicate4)
next
  case False
  then show ?thesis using add_token_ok [OF assms(1), of mc] by (auto simp: put_match_def ML_MASK_def ext_len_def)
qed

section \<open>The table and the matches found\<close>

lemma drop_bit_range: "LENGTH('a) = n + k \<Longrightarrow> unat (drop_bit n w) < 2 ^ k" for w :: "'a::len word"
proof -
  assume l: "LENGTH('a) = n + k"
  have "unat w < 2 ^ k * 2 ^ n" using unsigned_less [of w, where 'a = nat] l by (simp add: power_add mult.commute)
  then show ?thesis unfolding unat_drop_bit_eq by (simp only: drop_bit_eq_div less_mult_imp_div_less)
qed

lemma hash_range: "unat (LZ4_hash4 s4 t) < 2 ^ hashLog t" "unat (LZ4_hash5 s5 t) < 2 ^ hashLog t"
proof -
  have h: "hashLog t = (if t = byU16 then 13 else 12)" by (simp add: hashLog_def LZ4_HASHLOG_def)
  show "unat (LZ4_hash4 s4 t) < 2 ^ hashLog t"
    using drop_bit_range [of 19 13 "s4 * 2654435761"] drop_bit_range [of 20 12 "s4 * 2654435761"]
    by (simp only: LZ4_hash4_def h LZ4_HASHLOG_def MINMATCH_def split: if_split) simp
  let ?x = "drop_bit (64 - hashLog t) (push_bit 24 s5 * 889523592379)"
  have "unat ?x < 2 ^ hashLog t" by (rule drop_bit_range) (simp add: h)
  moreover have "unat (LZ4_hash5 s5 t) \<le> unat ?x"
    by (simp only: LZ4_hash5_def unsigned_ucast_eq take_bit_nat_less_eq_self)
  ultimately show "unat (LZ4_hash5 s5 t) < 2 ^ hashLog t" by simp
qed

lemma hashPosition_ok: "p + 8 \<le> length src \<Longrightarrow> \<exists>h. LZ4_hashPosition src p t = Inr h \<and> unat h < 2 ^ hashLog t"
  using hash_range by (simp add: LZ4_hashPosition_def LZ4_read_ARCH_def LZ4_read32_def rd_def)

definition entries_below :: "nat \<Rightarrow> hash_table \<Rightarrow> bool" where
  "entries_below p tbl \<longleftrightarrow> (\<forall>h. tbl h < p)"

lemma entries_below_mono: "entries_below p tbl \<Longrightarrow> p \<le> q \<Longrightarrow> entries_below q tbl"
  unfolding entries_below_def by (meson less_le_trans)

lemma putIndex_ok:
  assumes "unat h < 2 ^ hashLog t" "entries_below p tbl" "p \<le> q" "idx < q"
  shows "\<exists>tbl'. LZ4_putIndexOnHash idx h tbl t = Inr tbl' \<and> entries_below q tbl'"
proof -
  have "idx mod k < q" for k using le_less_trans [OF mod_less_eq_dividend assms(4)] .
  moreover have "tbl i < q" for i using entries_below_mono [OF assms(2,3)] by (simp add: entries_below_def)
  ultimately show ?thesis using assms(1) by (cases t) (simp_all add: LZ4_putIndexOnHash_def entries_below_def)
qed

lemma putPosition_ok:
  assumes "idx + 8 \<le> length src" "entries_below p tbl" "p \<le> q" "idx < q"
  shows "\<exists>tbl'. LZ4_putPosition src idx tbl t = Inr tbl' \<and> entries_below q tbl'"
  using hashPosition_ok [OF assms(1), of t] putIndex_ok [OF _ assms(2-4)]
  by (auto simp: LZ4_putPosition_def LZ4_putPositionOnHash_def LZ4_putIndexOnHash_def)

lemma getIndex_ok:
  "unat h < 2 ^ hashLog t \<Longrightarrow> entries_below p tbl \<Longrightarrow> \<exists>m. LZ4_getIndexOnHash h tbl t = Inr m \<and> m < p"
  by (simp add: LZ4_getIndexOnHash_def entries_below_def)

lemma same32_ok:
  assumes "p + 4 \<le> length src" "m \<le> p"
  shows "same32 src m p = Inr (common src p m 4)"
  using equal_read [of p src m] assms by (auto simp: same32_def)

lemma catch_up_ok:
  assumes "common src ip m k" "m < ip" "ip \<le> length src" "anchor \<le> ip"
  shows "\<exists>j. catch_up src anchor ip m = Inr (ip - j, m - j) \<and> j \<le> m \<and> anchor + j \<le> ip \<and> common src (ip - j) (m - j) (j + k)"
  using assms
proof (induction src anchor ip m arbitrary: k rule: catch_up.induct)
  case (1 src anchor ip m)
  show ?case
  proof (cases "anchor < ip \<and> 0 < m \<and> src ! (ip - 1) = src ! (m - 1)")
    case True
    have r: "rd (ip - 1) 1 src = Inr [src ! (ip - 1)]" "rd (m - 1) 1 src = Inr [src ! (m - 1)]"
      using True "1.prems" by (auto simp: rd_def slice_def take_Suc_conv_app_nth Cons_nth_drop_Suc [symmetric])
    have "common src (ip - 1) (m - 1) (1 + k)"
      unfolding common_add using True "1.prems"(1) by (simp add: common_def)
    moreover have "m - 1 < ip - 1" "ip - 1 \<le> length src" "anchor \<le> ip - 1" using True "1.prems" by auto
    ultimately obtain j where
      j: "catch_up src anchor (ip - 1) (m - 1) = Inr (ip - 1 - j, m - 1 - j)" "j \<le> m - 1" "anchor + j \<le> ip - 1"
      "common src (ip - 1 - j) (m - 1 - j) (j + (1 + k))"
      using "1.IH" [of "[src ! (ip - 1)]" "[src ! (m - 1)]" "1 + k"] True by blast
    show ?thesis
      using j True r by (intro exI [of _ "j + 1"], subst catch_up.simps) auto
  next
    case False
    moreover have "rd (ip - 1) 1 src = Inr [src ! (ip - 1)] \<and> rd (m - 1) 1 src = Inr [src ! (m - 1)]" if "anchor < ip" "0 < m"
      using that "1.prems" by (auto simp: rd_def slice_def take_Suc_conv_app_nth Cons_nth_drop_Suc [symmetric])
    ultimately show ?thesis
      using "1.prems" by (intro exI [of _ 0], subst catch_up.simps) auto
  qed
qed

section \<open>The states of the encoder\<close>

text \<open>The room the output buffer must have: the given limit, or the bound of the size of every block.\<close>

definition has_room :: "nat \<Rightarrow> nat \<Rightarrow> limitedOutput_directive \<Rightarrow> nat \<Rightarrow> bool" where
  "has_room n maxOut od N \<longleftrightarrow> (case od of limitedOutput \<Rightarrow> maxOut \<le> N | notLimited \<Rightarrow> n + n div 255 + 16 \<le> N)"

text \<open>Whole sequences up to \<open>anchor\<close> are written; or, besides, the literals of one more, \<open>l\<close> of them, up to \<open>ip\<close>.\<close>

definition wrote :: "byte list \<Rightarrow> nat \<Rightarrow> nat \<Rightarrow> nat \<Rightarrow> byte list \<Rightarrow> bool" where
  "wrote X N anchor op dst \<longleftrightarrow> (\<exists>qs. parses X 0 qs \<and> foldl seq_end 0 qs = anchor \<and> out N op dst (seqs_bytes X 0 qs))"

definition wrote_literals :: "byte list \<Rightarrow> nat \<Rightarrow> nat \<Rightarrow> nat \<Rightarrow> nat \<Rightarrow> byte list \<Rightarrow> bool" where
  "wrote_literals X N ip token op dst \<longleftrightarrow> (\<exists>qs l. parses X 0 qs \<and> foldl seq_end 0 qs + l = ip \<and> token = length (seqs_bytes X 0 qs)
     \<and> out N op dst (seqs_bytes X 0 qs @ of_nat (min l 15 * 16) # ext_len l @ slice (ip - l) l X))"

lemma wrote_bound: "wrote X N anchor op dst \<Longrightarrow> 255 * op \<le> 256 * anchor \<and> anchor \<le> length X \<and> op \<le> N \<and> length dst = N"
  unfolding wrote_def by (elim exE conjE) (drule out_le, use seqs_bytes_bound [of X 0] parses_end [of X 0] in auto)

lemma bound_room: "255 * k \<le> 256 * n + 3826 \<Longrightarrow> k \<le> n + n div 255 + 16" for k n :: nat
  using mult_div_mod_eq [of 255 n] mod_less_divisor [of 255 n] by linarith

fun enc_inv :: "byte list \<Rightarrow> nat \<Rightarrow> limitedOutput_directive \<Rightarrow> tableType \<Rightarrow> nat \<Rightarrow> lz4_enc \<Rightarrow> bool" where
  "enc_inv X maxOut od t N (Search fwd step nb h anchor tbl op dst) \<longleftrightarrow>
     0 < step \<and> 64 \<le> nb \<and> unat h < 2 ^ hashLog t \<and> entries_below fwd tbl \<and> anchor \<le> fwd \<and> fwd + 11 \<le> length X
     \<and> wrote X N anchor op dst"
| "enc_inv X maxOut od t N (NextMatch ip m f token tbl op dst) \<longleftrightarrow>
     m < ip \<and> ip - m \<le> 65535 \<and> common X ip m (4 + (f - ip)) \<and> ip + 12 \<le> length X \<and> f + 12 \<le> length X
     \<and> entries_below (max ip f + 1) tbl \<and> op + 2 \<le> N \<and> wrote_literals X N ip token op dst"
| "enc_inv X maxOut od t N (LastLiterals anchor op dst) \<longleftrightarrow> wrote X N anchor op dst"
| "enc_inv X maxOut od t N (Compressed r dst) \<longleftrightarrow>
     (\<exists>qs. parses X 0 qs \<and> out N r dst (block X 0 qs)) \<and> (od = limitedOutput \<longrightarrow> r \<le> maxOut)"
| "enc_inv X maxOut od t N (NoRoom dst) \<longleftrightarrow> od = limitedOutput \<and> length dst = N"

fun enc_size :: "nat \<Rightarrow> lz4_enc \<Rightarrow> nat" where
  "enc_size n (Search fwd step nb h anchor tbl op dst) = 2 * (n - fwd) + 1"
| "enc_size n (NextMatch ip m f token tbl op dst) = 2 * (n - max ip f)"
| "enc_size n (LastLiterals anchor op dst) = 1"
| "enc_size n (Compressed r dst) = 0"
| "enc_size n (NoRoom dst) = 0"

lemma encode_literals_ok:
  assumes "wrote X N anchor op dst" "anchor \<le> ip" "ip + 12 \<le> length X" "has_room (length X) maxOut od N"
  shows "\<exists>st. encode_literals X maxOut od ip m f anchor tbl op dst = Inr st
    \<and> (st = NoRoom dst \<and> od = limitedOutput
      \<or> (\<exists>op' dst'. st = NextMatch ip m f op tbl op' dst' \<and> op' + 2 \<le> N \<and> wrote_literals X N ip op op' dst'))"
proof -
  define l where "l = ip - anchor"
  have l: "ip - l = anchor" "anchor + l = ip" using assms(2) by (simp_all add: l_def)
  let ?e = "length (ext_len l)"
  note b = wrote_bound [OF assms(1)]
  show ?thesis
  proof (cases "od = limitedOutput \<and> op + 1 + l + 8 + l div 255 > maxOut")
    case True
    then show ?thesis by (simp add: encode_literals_def l_def lz4_consts)
  next
    case False
    have room: "op + 1 + ?e + 8 \<le> N \<and> op + 1 + ?e + l + 7 \<le> N"
    proof (cases od)
      case notLimited
      have "op + 1 + ?e + l + 8 \<le> length X + length X div 255 + 16"
        using assms(3) b l ext_len_bound [of l] by (intro bound_room) simp
      with notLimited assms(4) show ?thesis by (simp add: has_room_def)
    next
      case limitedOutput
      have "?e \<le> l div 255 + 1" using div_le_mono [of "l - 15" l 255] by (auto simp: ext_len_length)
      moreover have "l \<ge> 15" if "0 < ?e" using that by (simp add: ext_len_length split: if_splits)
      ultimately show ?thesis using limitedOutput False assms(4) by (cases "0 < ?e") (auto simp: has_room_def)
    qed
    from assms(1) obtain qs where qs: "parses X 0 qs" "foldl seq_end 0 qs = anchor" "out N op dst (seqs_bytes X 0 qs)"
      by (auto simp: wrote_def)
    from put_run_ok [OF qs(3), of l] room obtain d1 where
      d1: "put_run l op dst = Inr (op + (1 + ?e), d1)" "out N (op + (1 + ?e)) d1 (seqs_bytes X 0 qs @ of_nat (min l 15 * 16) # ext_len l)"
      by auto
    from wildCopy8_out [OF d1(2), of anchor l X] room l(2) assms(3) obtain d2 where
      d2: "LZ4_wildCopy8 (memcpy_from X) (op + (1 + ?e)) anchor (op + (1 + ?e) + l) d1 = Inr d2"
      "out N (op + (1 + ?e) + l) d2 ((seqs_bytes X 0 qs @ of_nat (min l 15 * 16) # ext_len l) @ slice anchor l X)" by auto
    have "encode_literals X maxOut od ip m f anchor tbl op dst = Inr (NextMatch ip m f op tbl (op + (1 + ?e) + l) d2)"
      using False d1(1) d2(1) by (auto simp: encode_literals_def l_def lz4_consts Let_def)
    moreover have "wrote_literals X N ip op (op + (1 + ?e) + l) d2"
      unfolding wrote_literals_def using qs d2(2) l out_le [OF qs(3)] by (intro exI [of _ qs] exI [of _ l]) simp
    ultimately show ?thesis using room by auto
  qed
qed

lemma compare32_ok:
  assumes "p + 4 \<le> length X" "m < p" "t = byU16 \<longrightarrow> length X < LZ4_64Klimit" "p + 11 \<le> length X"
  shows "\<exists>found. (if t \<noteq> byU16 \<and> m + LZ4_DISTANCE_MAX < p then Inr False else same32 X m p) = Inr found
    \<and> (found \<longrightarrow> p - m \<le> 65535 \<and> common X p m 4)"
  using same32_ok [OF assms(1) less_imp_le [OF assms(2)]] assms(3,4)
  by (cases t) (auto simp: LZ4_DISTANCE_MAX_def LZ4_64Klimit_def MFLIMIT_def)

lemma search_ok:
  assumes "enc_inv X maxOut od t N (Search fwd step nb h anchor tbl op dst)" "has_room (length X) maxOut od N"
    "t = byU16 \<longrightarrow> length X < LZ4_64Klimit"
  shows "\<exists>st. search X maxOut od t fwd step nb h anchor tbl op dst = Inr st \<and> enc_inv X maxOut od t N st
    \<and> enc_size (length X) st < enc_size (length X) (Search fwd step nb h anchor tbl op dst)"
proof -
  from assms(1) have inv: "0 < step" "64 \<le> nb" "unat h < 2 ^ hashLog t" "entries_below fwd tbl" "anchor \<le> fwd" "fwd + 11 \<le> length X"
    "wrote X N anchor op dst" by simp_all
  from getIndex_ok [OF inv(3,4)] obtain m where m: "LZ4_getIndexOnHash h tbl t = Inr m" "m < fwd" by blast
  show ?thesis
  proof (cases "fwd + step + 11 > length X")
    case True
    with m inv show ?thesis by (simp add: search_def MFLIMIT_def Let_def)
  next
    case False
    then have n: "fwd + step + 8 \<le> length X" "fwd + 4 \<le> length X" "fwd + 12 \<le> length X" using inv(1) by simp_all
    from hashPosition_ok [OF n(1), of t] obtain h' where h': "LZ4_hashPosition X (fwd + step) t = Inr h'" "unat h' < 2 ^ hashLog t" by blast
    from putIndex_ok [OF inv(3,4), of "fwd + 1" fwd] obtain tbl' where
      tbl': "LZ4_putIndexOnHash fwd h tbl t = Inr tbl'" "entries_below (fwd + 1) tbl'" by auto
    from compare32_ok [OF n(2) m(2) assms(3) inv(6)] obtain found where
      found: "(if t \<noteq> byU16 \<and> m + LZ4_DISTANCE_MAX < fwd then Inr False else same32 X m fwd) = Inr found"
      "found \<longrightarrow> fwd - m \<le> 65535 \<and> common X fwd m 4" by blast
    have e: "search X maxOut od t fwd step nb h anchor tbl op dst =
        (if found then rbind (catch_up X anchor fwd m) (\<lambda>(ip', m'). encode_literals X maxOut od ip' m' fwd anchor tbl' op dst)
         else Inr (Search (fwd + step) (nb div 64) (nb + 1) h' anchor tbl' op dst))"
      using False unfolding search_def Let_def m(1) rbind_simps
      by (simp only: h'(1) tbl'(1) found(1) rbind_simps MFLIMIT_def LZ4_skipTrigger_def) simp
    show ?thesis
    proof (cases found)
      case True
      from catch_up_ok [of X fwd m 4 anchor] found(2) True m(2) inv(5,6) obtain j where
        j: "catch_up X anchor fwd m = Inr (fwd - j, m - j)" "j \<le> m" "anchor + j \<le> fwd" "common X (fwd - j) (m - j) (j + 4)" by auto
      have n': "anchor \<le> fwd - j" "fwd - j + 12 \<le> length X" "fwd - (fwd - j) = j" using j(3) n(3) by auto
      have mx: "max (fwd - j) fwd = fwd" by (simp add: max_def)
      have NM: "enc_inv X maxOut od t N (NextMatch (fwd - j) (m - j) fwd op tbl' op' dst')" if "op' + 2 \<le> N" "wrote_literals X N (fwd - j) op op' dst'" for op' dst'
        using that j m(2) n(3) n'(2,3) found(2) True tbl'(2) by (simp add: mx add.commute)
      from encode_literals_ok [OF inv(7) n'(1,2) assms(2), of "m - j" fwd tbl'] obtain st where
        st: "encode_literals X maxOut od (fwd - j) (m - j) fwd anchor tbl' op dst = Inr st"
        "st = NoRoom dst \<and> od = limitedOutput
          \<or> (\<exists>op' dst'. st = NextMatch (fwd - j) (m - j) fwd op tbl' op' dst' \<and> op' + 2 \<le> N \<and> wrote_literals X N (fwd - j) op op' dst')" by blast
      have "enc_inv X maxOut od t N st" using st(2) NM wrote_bound [OF inv(7)] by auto
      moreover have "enc_size (length X) st < 2 * (length X - fwd) + 1" using st(2) mx by auto
      ultimately show ?thesis using e True j(1) st(1) by simp
    next
      case False
      have "0 < nb div 64" using inv(2) div_le_mono [of 64 nb 64] by simp
      moreover have "entries_below (fwd + step) tbl'" using entries_below_mono [OF tbl'(2)] inv(1) by simp
      ultimately show ?thesis using e False inv h'(2) \<open>\<not> fwd + step + 11 > length X\<close> by simp
    qed
  qed
qed

lemma after_match_ok:
  assumes "wrote X N ip op dst" "op + 3 \<le> N" "entries_below ip tbl" "f < ip" "2 \<le> ip" "0 < acc"
    "t = byU16 \<longrightarrow> length X < LZ4_64Klimit"
  shows "\<exists>st. after_match X t acc ip f tbl op dst = Inr st \<and> enc_inv X maxOut od t N st
    \<and> enc_size (length X) st \<le> 2 * (length X - ip) + 1"
proof (cases "ip + 11 \<ge> length X")
  case True
  with assms(1) show ?thesis by (simp add: after_match_def MFLIMIT_def)
next
  case False
  then have n: "ip - 2 + 8 \<le> length X" "ip + 8 \<le> length X" "ip + 1 + 8 \<le> length X" "ip + 4 \<le> length X" "ip + 11 \<le> length X" "ip + 12 \<le> length X"
    by simp_all
  from putPosition_ok [OF n(1) assms(3), of ip t] assms(5) obtain tbl1 where
    tbl1: "LZ4_putPosition X (ip - 2) tbl t = Inr tbl1" "entries_below ip tbl1" by auto
  from hashPosition_ok [OF n(2), of t] obtain h where h: "LZ4_hashPosition X ip t = Inr h" "unat h < 2 ^ hashLog t" by blast
  from hashPosition_ok [OF n(3), of t] obtain h' where h': "LZ4_hashPosition X (ip + 1) t = Inr h'" "unat h' < 2 ^ hashLog t" by blast
  from getIndex_ok [OF h(2) tbl1(2)] obtain m where m: "LZ4_getIndexOnHash h tbl1 t = Inr m" "m < ip" by blast
  from putIndex_ok [OF h(2) tbl1(2), of "ip + 1" ip] obtain tbl2 where
    tbl2: "LZ4_putIndexOnHash ip h tbl1 t = Inr tbl2" "entries_below (ip + 1) tbl2" by auto
  from compare32_ok [OF n(4) m(2) assms(7) n(5)] obtain found where
    found: "(if t \<noteq> byU16 \<and> m + LZ4_DISTANCE_MAX < ip then Inr False else same32 X m ip) = Inr found"
    "found \<longrightarrow> ip - m \<le> 65535 \<and> common X ip m 4" by blast
  have swap: "(if t = byU16 \<or> ip \<le> m + LZ4_DISTANCE_MAX then same32 X m ip else Inr False) = Inr found"
    using found(1) by (auto split: if_splits)
  from assms(1) obtain qs where qs: "parses X 0 qs" "foldl seq_end 0 qs = ip" "out N op dst (seqs_bytes X 0 qs)"
    by (auto simp: wrote_def)
  from wr_out [OF qs(3), of "[0]"] assms(2) obtain d1 where d1: "wr op [0] dst = Inr d1" "out N (op + 1) d1 (seqs_bytes X 0 qs @ [0])" by auto
  have e: "after_match X t acc ip f tbl op dst =
      Inr (if found then NextMatch ip m f op tbl2 (op + 1) d1 else Search (ip + 1) 1 (acc * 64) h' ip tbl2 op dst)"
    using False unfolding after_match_def Let_def
    by (simp only: tbl1(1) h(1) m(1) tbl2(1) swap rbind_simps MFLIMIT_def d1(1) h'(1) LZ4_skipTrigger_def split: if_split) simp
  have "wrote_literals X N ip op (op + 1) d1"
    unfolding wrote_literals_def using qs d1(2) out_le [OF qs(3)] by (intro exI [of _ qs] exI [of _ 0]) (simp add: ext_len_def slice_def)
  then have "enc_inv X maxOut od t N (NextMatch ip m f op tbl2 (op + 1) d1)" if found
    using that found(2) m(2) n(6) assms(2,4) tbl2(2) by (simp add: max_def)
  moreover have "enc_inv X maxOut od t N (Search (ip + 1) 1 (acc * 64) h' ip tbl2 op dst)"
    using assms(1,6) h'(2) tbl2(2) n(6) by simp
  ultimately show ?thesis using e assms(4) by (cases found) (simp_all add: max_def)
qed

text \<open>The literals written before, the distance and the length make one more sequence.\<close>

lemma wrote_sequence:
  assumes "parses X 0 qs" "foldl seq_end 0 qs + l = ip" "m < ip" "ip - m \<le> 65535" "common X ip m (4 + mc)"
    "ip + 12 \<le> length X" "ip + mc + 9 \<le> length X"
    "out N op dst (seqs_bytes X 0 qs @ (of_nat (min l 15 * 16) + of_nat (min mc 15)) # (ext_len l @ slice (ip - l) l X @ le16 (ip - m)) @ ext_len mc)"
  shows "wrote X N (ip + mc + 4) op dst"
proof -
  define q where "q = \<lparr>lits = l, moff = ip - m, mlen = mc + 4\<rparr>"
  have a: "foldl seq_end 0 qs = ip - l" using assms(2) by simp
  have "X ! i = X ! (i - (ip - m))" if "ip \<le> i" "i < ip + (4 + mc)" for i
  proof -
    from that obtain k where k: "i = ip + k" "k < 4 + mc" by (metis le_Suc_ex nat_add_left_cancel_less)
    moreover have "ip + k - (ip - m) = m + k" using assms(3) by simp
    ultimately show ?thesis using assms(5) by (simp add: common_def)
  qed
  then have "seq_ok X (foldl seq_end 0 qs) q"
    using assms(2-4,6,7) by (simp add: seq_ok_def q_def shifted_def seq_end_def add.assoc)
  moreover have "seqs_bytes X 0 (qs @ [q]) =
      seqs_bytes X 0 qs @ (of_nat (min l 15 * 16) + of_nat (min mc 15)) # (ext_len l @ slice (ip - l) l X @ le16 (ip - m)) @ ext_len mc"
    by (simp add: seqs_bytes_snoc seq_bytes_def seq_tail_def token_of_def q_def a)
  moreover have "foldl seq_end 0 (qs @ [q]) = ip + mc + 4" using assms(2) by (simp add: seq_end_def q_def)
  ultimately show ?thesis
    unfolding wrote_def using assms(1,8) by (intro exI [of _ "qs @ [q]"]) (simp add: parses_snoc)
qed

lemma match_len_room: "(if mc < 15 then 0 else (mc - 15) div 255 + 4) \<le> (mc + 240) div 255 + 3" "length (ext_len mc) \<le> (mc + 240) div 255"
proof -
  have "(mc + 240) div 255 = (mc - 15) div 255 + 1" if "15 \<le> mc"
    using that div_add_self2 [of 255 "mc - 15"] by simp
  then show "(if mc < 15 then 0 else (mc - 15) div 255 + 4) \<le> (mc + 240) div 255 + 3" "length (ext_len mc) \<le> (mc + 240) div 255"
    by (auto simp: ext_len_length)
qed

lemma seq_room:
  assumes "255 * k \<le> mc + 1020" "255 * s \<le> 256 * a" "e * 255 \<le> l + 240" "a + l + mc + 9 \<le> n"
  shows "s + 1 + e + l + 2 + k \<le> n + n div 255 + (16 :: nat)"
  using assms by (intro bound_room) simp

lemma next_match_ok:
  assumes "enc_inv X maxOut od t N (NextMatch ip m f token tbl op dst)" "has_room (length X) maxOut od N"
    "t = byU16 \<longrightarrow> length X < LZ4_64Klimit" "0 < acc"
  shows "\<exists>st. next_match X maxOut od t acc ip m f token tbl op dst = Inr st \<and> enc_inv X maxOut od t N st
    \<and> enc_size (length X) st < enc_size (length X) (NextMatch ip m f token tbl op dst)"
proof -
  from assms(1) obtain qs l where inv: "m < ip" "ip - m \<le> 65535" "common X ip m (4 + (f - ip))" "ip + 12 \<le> length X" "f + 12 \<le> length X"
    "entries_below (max ip f + 1) tbl" "op + 2 \<le> N" "parses X 0 qs" "foldl seq_end 0 qs + l = ip" "token = length (seqs_bytes X 0 qs)"
    "out N op dst (seqs_bytes X 0 qs @ of_nat (min l 15 * 16) # ext_len l @ slice (ip - l) l X)"
    by (auto simp: wrote_literals_def)
  let ?S = "seqs_bytes X 0 qs" and ?L = "ext_len l @ slice (ip - l) l X @ le16 (ip - m)"
  from wr_out [OF inv(11), of "le16 (ip - m)"] inv(7) obtain d1 where
    d1: "LZ4_writeLE16 op (ip - m) dst = Inr d1" "out N (op + 2) d1 (?S @ of_nat (min l 15 * 16) # ?L)"
    by (auto simp: le16_def LZ4_writeLE16_def)
  have "m + 4 \<le> ip + 4" "ip + 4 \<le> length X - 5" "length X - 5 \<le> length X" using inv(1,4) by simp_all
  from LZ4_count_ok [OF this] obtain mc where
    mc: "LZ4_count X (ip + 4) (m + 4) (length X - 5) = Inr mc" "longest X (ip + 4) (m + 4) (length X - 5) mc" by blast
  have c: "common X ip m 4" "common X (ip + 4) (m + 4) (f - ip)" using inv(3) by (simp_all add: common_add)
  have f: "f - ip \<le> mc" using longest_ge [OF mc(2), of "f - ip"] c(2) inv(4,5) by (cases "f \<le> ip") auto
  have c': "common X ip m (4 + mc)" using c(1) mc(2) by (simp add: common_add longest_def)
  have "ip + 4 + mc \<le> length X - 5" using mc(2) by (simp add: longest_def)
  then have lim: "ip + mc + 9 \<le> length X" using inv(4) by linarith
  have opl: "op = length ?S + 1 + length (ext_len l) + l" using out_le [OF inv(11)] inv(4,9) by (simp add: buf_simps)
  show ?thesis
  proof (cases "od = limitedOutput \<and> op + 2 + 6 + (mc + 240) div 255 > maxOut")
    case True
    then show ?thesis
      using d1 mc(1) out_le [OF d1(2)] inv(4,5) by (auto simp: next_match_def Let_def lz4_consts)
  next
    case False
    let ?k = "if mc < 15 then 0 else (mc - 15) div 255 + 4"
    have room: "op + 2 + ?k \<le> N \<and> op + 2 + length (ext_len mc) + 3 \<le> N"
    proof (cases od)
      case notLimited
      have k: "255 * ?k \<le> mc + 1020" "255 * (length (ext_len mc) + 3) \<le> mc + 1020" using ext_len_bound [of mc] by auto
      have "255 * length ?S \<le> 256 * foldl seq_end 0 qs" "foldl seq_end 0 qs + l + mc + 9 \<le> length X"
        using seqs_bytes_bound [OF inv(8)] lim inv(9) by simp_all
      note r = seq_room [OF _ this(1) ext_len_bound this(2)]
      from r [OF k(1)] r [OF k(2)] notLimited assms(2) show ?thesis by (simp add: has_room_def opl)
    next
      case limitedOutput
      with False assms(2) match_len_room [of mc] show ?thesis by (auto simp: has_room_def)
    qed
    from put_match_ok [OF d1(2), of mc] room obtain d2 where
      d2: "put_match mc token (op + 2) d1 = Inr (op + 2 + length (ext_len mc), d2)"
      "out N (op + 2 + length (ext_len mc)) d2 (?S @ (of_nat (min l 15 * 16) + of_nat (min mc 15)) # ?L @ ext_len mc)"
      by (auto simp: inv(10))
    have w: "wrote X N (ip + mc + 4) (op + 2 + length (ext_len mc)) d2"
      using wrote_sequence [OF inv(8,9,1,2) c' inv(4) lim] d2(2) by simp
    have "entries_below (ip + mc + 4) tbl" by (rule entries_below_mono [OF inv(6)]) (use f in auto)
    moreover have "f < ip + mc + 4" "2 \<le> ip + mc + 4" using f by linarith+
    ultimately obtain st where
      st: "after_match X t acc (ip + mc + 4) f tbl (op + 2 + length (ext_len mc)) d2 = Inr st" "enc_inv X maxOut od t N st"
      "enc_size (length X) st \<le> 2 * (length X - (ip + mc + 4)) + 1"
      using after_match_ok [OF w conjunct2 [OF room] _ _ _ assms(4,3)] by blast
    have "next_match X maxOut od t acc ip m f token tbl op dst = Inr st"
      using False d1(1) mc(1) d2(1) st(1) by (auto simp: next_match_def Let_def lz4_consts)
    moreover have "enc_size (length X) st < 2 * (length X - max ip f)"
      using st(3) f lim inv(5) by (auto simp: max_def)
    ultimately show ?thesis using st(2) by simp
  qed
qed

lemma last_literals_ok:
  assumes "wrote X N anchor op dst" "has_room (length X) maxOut od N"
  shows "\<exists>st. last_literals X maxOut od anchor op dst = Inr st \<and> enc_inv X maxOut od t N st \<and> enc_size (length X) st = 0"
proof -
  define l where "l = length X - anchor"
  let ?e = "length (ext_len l)"
  note b = wrote_bound [OF assms(1)]
  have l: "anchor + l = length X" using b by (simp add: l_def)
  have "l + 255 - RUN_MASK = l + 240" by (simp add: RUN_MASK_def)
  then have e: "last_literals X maxOut od anchor op dst =
      (if od = limitedOutput \<and> op + l + 1 + (l + 240) div 255 > maxOut then Inr (NoRoom dst)
       else rbind (put_run l op dst) (\<lambda>(op, dst). rbind (memcpy_from X op anchor l dst) (\<lambda>dst. Inr (Compressed (op + l) dst))))"
    unfolding last_literals_def Let_def l_def [symmetric] by simp
  show ?thesis
  proof (cases "od = limitedOutput \<and> op + l + 1 + (l + 240) div 255 > maxOut")
    case True
    with b e show ?thesis by simp
  next
    case False
    have room: "op + 1 + ?e + l \<le> N \<and> (od = limitedOutput \<longrightarrow> op + 1 + ?e + l \<le> maxOut)"
    proof (cases od)
      case notLimited
      have "op + 1 + ?e + l \<le> length X + length X div 255 + 16"
        using b l ext_len_bound [of l] by (intro bound_room) simp
      with notLimited assms(2) show ?thesis by (simp add: has_room_def)
    next
      case limitedOutput
      with False assms(2) match_len_room(2) [of l] show ?thesis by (auto simp: has_room_def)
    qed
    from assms(1) obtain qs where qs: "parses X 0 qs" "foldl seq_end 0 qs = anchor" "out N op dst (seqs_bytes X 0 qs)"
      by (auto simp: wrote_def)
    from put_run_ok [OF qs(3), of l] room obtain d1 where
      d1: "put_run l op dst = Inr (op + (1 + ?e), d1)" "out N (op + (1 + ?e)) d1 (seqs_bytes X 0 qs @ of_nat (min l 15 * 16) # ext_len l)"
      by auto
    from memcpy_out [OF d1(2), of anchor l X] room l obtain d2 where
      d2: "memcpy_from X (op + (1 + ?e)) anchor l d1 = Inr d2"
      "out N (op + (1 + ?e) + l) d2 ((seqs_bytes X 0 qs @ of_nat (min l 15 * 16) # ext_len l) @ slice anchor l X)" by auto
    have "slice anchor l X = drop anchor X" by (simp add: slice_def l_def)
    then have "out N (op + (1 + ?e) + l) d2 (block X 0 qs)"
      using d2(2) qs(2) by (simp add: block_def last_bytes_def token_of_def l_def)
    moreover have "last_literals X maxOut od anchor op dst = Inr (Compressed (op + (1 + ?e) + l) d2)"
      using False d1(1) d2(1) unfolding e by auto
    ultimately show ?thesis using qs(1) room by auto
  qed
qed

lemma enc_step_ok:
  assumes "enc_inv X maxOut od t N st" "enc_running st" "has_room (length X) maxOut od N"
    "t = byU16 \<longrightarrow> length X < LZ4_64Klimit" "0 < acc"
  shows "\<exists>st'. enc_step X maxOut od t acc st = Inr st' \<and> enc_inv X maxOut od t N st' \<and> enc_size (length X) st' < enc_size (length X) st"
proof (cases st)
  case (Search fwd step nb h anchor tbl op dst)
  with search_ok [of X maxOut od t N fwd step nb h anchor tbl op dst] assms show ?thesis by (simp add: enc_step_def)
next
  case (NextMatch ip m f token tbl op dst)
  with next_match_ok [of X maxOut od t N ip m f token tbl op dst acc] assms show ?thesis by (simp add: enc_step_def)
next
  case (LastLiterals anchor op dst)
  with last_literals_ok [of X N anchor op dst maxOut od t] assms show ?thesis by (auto simp: enc_step_def)
qed (use assms(2) in \<open>simp_all add: enc_running_def\<close>)

lemma enc_start_ok:
  assumes "0 < acc"
  shows "\<exists>st. enc_start X t acc dst = Inr st \<and> enc_inv X maxOut od t (length dst) st"
proof -
  have w: "wrote X (length dst) 0 0 dst" by (auto simp: wrote_def out_def intro!: exI [of _ "[]"])
  show ?thesis
  proof (cases "length X < 13")
    case True
    with w show ?thesis by (simp add: enc_start_def lz4_consts)
  next
    case False
    then have n: "0 + 8 \<le> length X" "1 + 8 \<le> length X" by simp_all
    from putPosition_ok [OF n(1), of 1 "\<lambda>_. 0" 1 t] obtain tbl where "LZ4_putPosition X 0 (\<lambda>_. 0) t = Inr tbl" "entries_below 1 tbl"
      by (auto simp: entries_below_def)
    moreover from hashPosition_ok [OF n(2), of t] obtain h where "LZ4_hashPosition X 1 t = Inr h" "unat h < 2 ^ hashLog t" by blast
    ultimately show ?thesis
      using False w assms by (auto simp: enc_start_def lz4_consts LZ4_skipTrigger_def)
  qed
qed

text \<open>What a run returns: the size of a block of the input, or 0 where a limit was given.\<close>

definition compresses :: "byte list \<Rightarrow> nat \<Rightarrow> limitedOutput_directive \<Rightarrow> byte list \<Rightarrow> (nat \<times> byte list) result option \<Rightarrow> bool" where
  "compresses X maxOut od dst r \<longleftrightarrow> (\<exists>k dst'. r = Some (Inr (k, dst')) \<and> length dst' = length dst
     \<and> (od = limitedOutput \<longrightarrow> k \<le> maxOut) \<and> (k = 0 \<longrightarrow> od = limitedOutput)
     \<and> (0 < k \<longrightarrow> (\<exists>qs. parses X 0 qs \<and> take k dst' = block X 0 qs \<and> k = length (block X 0 qs))))"

lemma generic_validated_ok:
  assumes "0 < acc" "has_room (length X) maxOut od (length dst)" "t = byU16 \<longrightarrow> length X < LZ4_64Klimit"
  shows "compresses X maxOut od dst (LZ4_compress_generic_validated X maxOut od t acc dst)"
proof -
  let ?N = "length dst"
  from enc_start_ok [OF assms(1)] obtain st where st: "enc_start X t acc dst = Inr st" "enc_inv X maxOut od t ?N st" by blast
  have "\<exists>s. rwhile enc_running (\<lambda>st. Some (enc_step X maxOut od t acc st)) st = Some (Inr s) \<and> enc_inv X maxOut od t ?N s \<and> \<not> enc_running s"
  proof (rule rwhile_ok [where m = "enc_size (length X)" and P = "enc_inv X maxOut od t ?N"])
    show "\<exists>s'. Some (enc_step X maxOut od t acc s) = Some (Inr s') \<and> enc_inv X maxOut od t ?N s' \<and> enc_size (length X) s' < enc_size (length X) s"
      if "enc_inv X maxOut od t ?N s" "enc_running s" for s
      using enc_step_ok [OF that assms(2,3,1)] by simp
  qed (fact st(2))
  then obtain s where s: "rwhile enc_running (\<lambda>st. Some (enc_step X maxOut od t acc st)) st = Some (Inr s)"
    "enc_inv X maxOut od t ?N s" "\<not> enc_running s" by blast
  have r: "LZ4_compress_generic_validated X maxOut od t acc dst = Some (enc_result s)"
    using st(1) s(1) assms(3) by (auto simp: LZ4_compress_generic_validated_def)
  show ?thesis
  proof (cases s)
    case (Compressed k d)
    with s(2) obtain qs where qs: "parses X 0 qs" "out ?N k d (block X 0 qs)" "od = limitedOutput \<longrightarrow> k \<le> maxOut" by auto
    moreover have "0 < k" using out_le [OF qs(2)] by (auto simp: block_def last_bytes_def)
    ultimately show ?thesis using Compressed r out_le [OF qs(2)] by (auto simp: compresses_def enc_result_def out_def)
  next
    case (NoRoom d)
    with s(2) r show ?thesis by (auto simp: compresses_def enc_result_def)
  qed (use s(3) in \<open>simp_all add: enc_running_def\<close>)
qed

lemma generic_ok:
  assumes "0 < acc" "has_room (length X) maxOut od (length dst)" "t = byU16 \<longrightarrow> length X < LZ4_64Klimit" "length X \<le> LZ4_MAX_INPUT_SIZE"
  shows "compresses X maxOut od dst (LZ4_compress_generic X maxOut od t acc dst)"
proof (cases "X = []")
  case True
  have b: "block X 0 [] = [0]" using True by (simp add: block_def last_bytes_def token_of_def ext_len_def)
  show ?thesis
  proof (cases "od \<noteq> notLimited \<and> maxOut = 0")
    case False
    then have room: "0 + length [0 :: byte] \<le> length dst" using assms(2) by (cases od) (auto simp: has_room_def)
    have "out (length dst) 0 dst []" by (simp add: out_def)
    from wr_out [OF this room] obtain d where d: "wr 0 [0] dst = Inr d" "out (length dst) 1 d [0]" by auto
    with False True b show ?thesis
      by (auto simp: compresses_def LZ4_compress_generic_def out_def intro!: exI [of _ "[]"])
  qed (use True in \<open>auto simp: compresses_def LZ4_compress_generic_def split: limitedOutput_directive.splits\<close>, cases od, auto)
qed (use generic_validated_ok [OF assms(1-3)] assms(4) in \<open>simp add: LZ4_compress_generic_def\<close>)

text \<open>A block that fits is the encoding of sequences that describe the input.\<close>

lemma LZ4_compress_fast_ok:
  assumes "maxOut \<le> length dst"
  shows "\<exists>k dst'. LZ4_compress_fast X maxOut acc dst = Some (Inr (k, dst')) \<and> length dst' = length dst \<and> k \<le> maxOut
    \<and> (k = 0 \<longrightarrow> length X > LZ4_MAX_INPUT_SIZE \<or> maxOut < LZ4_COMPRESSBOUND (length X))
    \<and> (0 < k \<longrightarrow> (\<exists>qs. parses X 0 qs \<and> take k dst' = block X 0 qs) \<and> length X \<le> LZ4_MAX_INPUT_SIZE)"
proof -
  define a where "a = nat (if (if acc < 1 then LZ4_ACCELERATION_DEFAULT else acc) > LZ4_ACCELERATION_MAX then LZ4_ACCELERATION_MAX
     else (if acc < 1 then LZ4_ACCELERATION_DEFAULT else acc))"
  define t where "t = (if length X < LZ4_64Klimit then byU16 else byU32)"
  have a: "0 < a" by (auto simp: a_def LZ4_ACCELERATION_DEFAULT_def LZ4_ACCELERATION_MAX_def)
  have t: "t = byU16 \<longrightarrow> length X < LZ4_64Klimit" by (simp add: t_def)
  show ?thesis
  proof (cases "length X > LZ4_MAX_INPUT_SIZE")
    case True
    then show ?thesis
      by (simp add: LZ4_compress_fast_def LZ4_compress_fast_extState_def LZ4_compress_generic_def Let_def LZ4_COMPRESSBOUND_def)
  next
    case False
    then have n: "length X \<le> LZ4_MAX_INPUT_SIZE" by simp
    show ?thesis
    proof (cases "maxOut \<ge> LZ4_COMPRESSBOUND (length X)")
      case True
      have e: "LZ4_compress_fast X maxOut acc dst = LZ4_compress_generic X 0 notLimited t a dst"
        using True by (simp add: LZ4_compress_fast_def LZ4_compress_fast_extState_def Let_def a_def [symmetric] t_def)
      have bound: "length X + length X div 255 + 16 \<le> maxOut" using True n by (simp add: LZ4_COMPRESSBOUND_def)
      then have "has_room (length X) 0 notLimited (length dst)" using assms by (simp add: has_room_def)
      from generic_ok [OF a this t n] obtain k dst' qs where
        k: "LZ4_compress_generic X 0 notLimited t a dst = Some (Inr (k, dst'))" "length dst' = length dst" "0 < k"
        "parses X 0 qs" "take k dst' = block X 0 qs" "k = length (block X 0 qs)" unfolding compresses_def by auto
      then show ?thesis using block_bound [OF k(4)] bound n e by auto
    next
      case lim: False
      have e: "LZ4_compress_fast X maxOut acc dst = LZ4_compress_generic X maxOut limitedOutput t a dst"
        using lim by (simp add: LZ4_compress_fast_def LZ4_compress_fast_extState_def Let_def a_def [symmetric] t_def)
      have "has_room (length X) maxOut limitedOutput (length dst)" using assms by (simp add: has_room_def)
      from generic_ok [OF a this t n] show ?thesis using lim n unfolding compresses_def e by auto
    qed
  qed
qed

text \<open>
  C6: \<open>LZ4_compress_fast\<close> into a buffer of at least \<open>maxOut\<close> bytes returns for every input and every acceleration, without an
  access outside the input, the output buffer or the hash table, although its copies overshoot and the
  unlimited variant checks no room at all; it never returns more than \<open>maxOut\<close>; and with \<open>LZ4_compressBound\<close> bytes of
  room it always succeeds on an input of supported size.
\<close>
theorem LZ4_compress_fast_bounds:
  assumes "maxOut \<le> length dst"
  shows "\<exists>k dst'. LZ4_compress_fast src maxOut acceleration dst = Some (Inr (k, dst')) \<and> length dst' = length dst \<and> k \<le> maxOut
    \<and> (length src \<le> LZ4_MAX_INPUT_SIZE \<and> LZ4_COMPRESSBOUND (length src) \<le> maxOut \<longrightarrow> 0 < k)"
proof -
  from LZ4_compress_fast_ok [OF assms] obtain k dst' where
    "LZ4_compress_fast src maxOut acceleration dst = Some (Inr (k, dst'))" "length dst' = length dst" "k \<le> maxOut"
    "k = 0 \<longrightarrow> length src > LZ4_MAX_INPUT_SIZE \<or> maxOut < LZ4_COMPRESSBOUND (length src)" by blast
  then show ?thesis by (intro exI [of _ k] exI [of _ dst']) linarith
qed

theorem LZ4_compress_fast_bounds_witness:
  "\<exists>k dst'. LZ4_compress_fast (replicate 100 7) 116 3 (replicate 116 0) = Some (Inr (k, dst')) \<and> length dst' = 116 \<and> k \<le> 116 \<and> 0 < k"
  using LZ4_compress_fast_bounds [of 116 "replicate 116 0" "replicate 100 7" 3]
  by (auto simp: LZ4_COMPRESSBOUND_def LZ4_MAX_INPUT_SIZE_def)

end
