(* ===== verification/LZ4Decode.thy ===== *)
theory LZ4Decode
  imports LZ4Format
begin

text \<open>
  \<open>LZ4_decompress_safe\<close> of \<open>src/util/lz4.c\<close>: \<open>LZ4_decompress_generic\<close> with \<open>endOnInputSize\<close>,
  \<open>decode_full_block\<close>, \<open>noDict\<close> and without dictionary, on a machine with \<open>LZ4_FAST_DEC_LOOP\<close>.  The labels of the
  source are the constructors of \<open>lz4_dec\<close>; one step runs from a label to the next jump.  \<open>src\<close> is the block
  and \<open>dst\<close> the output buffer, so that \<open>iend\<close> and \<open>oend\<close> are their lengths; comparisons with a pointer before
  such an end are written as sums.  The tests whether \<open>op + length\<close> or \<open>ip + length\<close> wrap around are left
  out: \<open>length\<close> is below \<open>2\<^sup>3\<^sup>3\<close> and user addresses are below \<open>2\<^sup>6\<^sup>3\<close>.
\<close>

section \<open>The decoder\<close>

datatype lz4_dec =
    FastLoop nat nat "byte list"                     \<comment> \<open>ip, op, dst\<close>
  | SafeLoop nat nat "byte list"
  | SafeLiteralCopy nat nat nat nat "byte list"      \<comment> \<open>token, length, ip, op, dst\<close>
  | SafeMatchCopy nat nat nat nat "byte list"        \<comment> \<open>length, offset, ip, op, dst\<close>
  | Decoded nat "byte list"
  | OutputError nat "byte list"

definition get :: "nat \<Rightarrow> byte list \<Rightarrow> nat result" where
  "get p m = (if p < length m then Inr (unat (m ! p)) else Inl OutOfBounds)"

definition LZ4_readLE16 :: "byte list \<Rightarrow> nat \<Rightarrow> nat result" where
  "LZ4_readLE16 m p = rbind (get p m) (\<lambda>lo. rbind (get (p + 1) m) (\<lambda>hi. Inr (lo + 256 * hi)))"

datatype variable_length_error = loop_error | initial_error | len_ok

text \<open>
  Lengths of more than four bits, with the check in the loop that the decoder always asks for.  \<open>margin\<close> is the
  distance of \<open>lencheck\<close> from the end of the block.
\<close>

function read_length :: "byte list \<Rightarrow> nat \<Rightarrow> nat \<Rightarrow> nat \<Rightarrow> (nat \<times> nat \<times> variable_length_error) result" where
  "read_length src margin ip len =
     rbind (get ip src) (\<lambda>s.
       let len = (len + s) mod 2 ^ 32 in
       if ip + 1 + margin \<ge> length src then Inr (len, ip + 1, loop_error)
       else if s = 255 then read_length src margin (ip + 1) len
       else Inr (len, ip + 1, len_ok))"
  by pat_completeness auto
termination by (relation "measure (\<lambda>(src, margin, ip, len). length src - ip)") auto

declare read_length.simps [simp del]

definition read_variable_length ::
  "byte list \<Rightarrow> nat \<Rightarrow> bool \<Rightarrow> nat \<Rightarrow> (nat \<times> nat \<times> variable_length_error) result" where
  "read_variable_length src margin initial_check ip =
     (if initial_check \<and> ip + margin \<ge> length src then Inr (0, ip, initial_error)
      else read_length src margin ip 0)"

text \<open>Eighteen bytes at a distance of at least eight, the common case of a match.\<close>

definition copy18 :: "nat \<Rightarrow> nat \<Rightarrow> byte list \<Rightarrow> byte list result" where
  "copy18 op match dst =
     rbind (memcpy_in op match 8 dst) (\<lambda>dst.
     rbind (memcpy_in (op + 8) (match + 8) 8 dst) (\<lambda>dst.
     memcpy_in (op + 16) (match + 16) 2 dst))"

definition fast_copy :: "nat \<Rightarrow> nat \<Rightarrow> nat \<Rightarrow> nat \<Rightarrow> byte list \<Rightarrow> lz4_dec result" where
  "fast_copy len off ip op dst =
     (if off > op then Inr (OutputError ip dst)
      else rbind (if off < 16 then LZ4_memcpy_using_offset op (op - off) (op + len) off dst
                  else LZ4_wildCopy32 memcpy_in op (op - off) (op + len) dst)
             (\<lambda>dst. Inr (FastLoop ip (op + len) dst)))"

definition fast_match :: "byte list \<Rightarrow> nat \<Rightarrow> nat \<Rightarrow> nat \<Rightarrow> byte list \<Rightarrow> lz4_dec result" where
  "fast_match src token ip op dst =
     rbind (LZ4_readLE16 src ip) (\<lambda>off.
     let ip = ip + 2; len = token mod 16 in
     if len = ML_MASK then
       if off > op then Inr (OutputError ip dst)
       else
         rbind (read_variable_length src (LASTLITERALS - 1) False ip) (\<lambda>(l, ip, err).
           if err \<noteq> len_ok then Inr (OutputError ip dst)
           else let len = len + l + MINMATCH in
             if op + len + FASTLOOP_SAFE_DISTANCE \<ge> length dst then Inr (SafeMatchCopy len off ip op dst)
             else fast_copy len off ip op dst)
     else let len = len + MINMATCH in
       if op + len + FASTLOOP_SAFE_DISTANCE \<ge> length dst then Inr (SafeMatchCopy len off ip op dst)
       else if off \<le> op \<and> off \<ge> 8 then rbind (copy18 op (op - off) dst) (\<lambda>dst. Inr (FastLoop ip (op + len) dst))
       else fast_copy len off ip op dst)"

definition fast_loop :: "byte list \<Rightarrow> nat \<Rightarrow> nat \<Rightarrow> byte list \<Rightarrow> lz4_dec result" where
  "fast_loop src ip op dst =
     rbind (get ip src) (\<lambda>token.
     let ip = ip + 1; len = token div 16 in
     if len = RUN_MASK then
       rbind (read_variable_length src RUN_MASK True ip) (\<lambda>(l, ip, err).
         if err = initial_error then Inr (OutputError ip dst)
         else let len = len + l in
           if op + len + 32 > length dst \<or> ip + len + 32 > length src then Inr (SafeLiteralCopy token len ip op dst)
           else rbind (LZ4_wildCopy32 (memcpy_from src) op ip (op + len) dst) (fast_match src token (ip + len) (op + len)))
     else if ip + 17 > length src then Inr (SafeLiteralCopy token len ip op dst)
     else rbind (memcpy_from src op ip 16 dst) (fast_match src token (ip + len) (op + len)))"

text \<open>Near the end of the output the copy goes on by eight bytes as far as possible.\<close>

definition copy_to_limit :: "nat \<Rightarrow> nat \<Rightarrow> byte list \<Rightarrow> (byte list \<times> nat \<times> nat) result" where
  "copy_to_limit op match dst =
     (let oCopyLimit = length dst - (WILDCOPYLENGTH - 1) in
      if op < oCopyLimit
      then rbind (LZ4_wildCopy8 memcpy_in op match oCopyLimit dst) (\<lambda>dst. Inr (dst, match + (oCopyLimit - op), oCopyLimit))
      else Inr (dst, match, op))"

definition safe_match_copy :: "nat \<Rightarrow> nat \<Rightarrow> nat \<Rightarrow> nat \<Rightarrow> byte list \<Rightarrow> lz4_dec result" where
  "safe_match_copy len off ip op dst =
     (if off > op then Inr (OutputError ip dst)
      else
        rbind (copy8_offset op (op - off) off dst) (\<lambda>(dst, match).
        let cpy = op + len; op = op + 8 in
        if cpy + MATCH_SAFEGUARD_DISTANCE > length dst then
          if cpy + LASTLITERALS > length dst then Inr (OutputError ip dst)
          else
            rbind (copy_to_limit op match dst) (\<lambda>(dst, match, op).
            rbind (copy_bytes (cpy - op) op match dst) (\<lambda>dst. Inr (SafeLoop ip cpy dst)))
        else
          rbind (memcpy_in op match 8 dst) (\<lambda>dst.
          rbind (if len > 16 then LZ4_wildCopy8 memcpy_in (op + 8) (match + 8) cpy dst else Inr dst)
            (\<lambda>dst. Inr (SafeLoop ip cpy dst)))))"

definition copy_match :: "byte list \<Rightarrow> nat \<Rightarrow> nat \<Rightarrow> nat \<Rightarrow> nat \<Rightarrow> byte list \<Rightarrow> lz4_dec result" where
  "copy_match src len off ip op dst =
     (if len = ML_MASK then
        rbind (read_variable_length src (LASTLITERALS - 1) False ip) (\<lambda>(l, ip, err).
          if err \<noteq> len_ok then Inr (OutputError ip dst) else safe_match_copy (len + l + MINMATCH) off ip op dst)
      else safe_match_copy (len + MINMATCH) off ip op dst)"

definition safe_literal_copy :: "byte list \<Rightarrow> nat \<Rightarrow> nat \<Rightarrow> nat \<Rightarrow> nat \<Rightarrow> byte list \<Rightarrow> lz4_dec result" where
  "safe_literal_copy src token len ip op dst =
     (if op + len + MFLIMIT > length dst \<or> ip + len + (2 + 1 + LASTLITERALS) > length src then
        if ip + len \<noteq> length src \<or> op + len > length dst then Inr (OutputError ip dst)
        else rbind (memcpy_from src op ip len dst) (\<lambda>dst. Inr (Decoded (op + len) dst))
      else
        rbind (LZ4_wildCopy8 (memcpy_from src) op ip (op + len) dst) (\<lambda>dst.
        rbind (LZ4_readLE16 src (ip + len)) (\<lambda>off. copy_match src (token mod 16) off (ip + len + 2) (op + len) dst)))"

definition safe_loop :: "byte list \<Rightarrow> nat \<Rightarrow> nat \<Rightarrow> byte list \<Rightarrow> lz4_dec result" where
  "safe_loop src ip op dst =
     rbind (get ip src) (\<lambda>token.
     let ip = ip + 1; len = token div 16 in
     if len \<noteq> RUN_MASK \<and> ip + (14 + 2) < length src \<and> op + (14 + 18) \<le> length dst then
       rbind (memcpy_from src op ip 16 dst) (\<lambda>dst.
       let op = op + len; ip = ip + len; len = token mod 16 in
       rbind (LZ4_readLE16 src ip) (\<lambda>off.
       let ip = ip + 2 in
       if len \<noteq> ML_MASK \<and> off \<ge> 8 \<and> off \<le> op
       then rbind (copy18 op (op - off) dst) (\<lambda>dst. Inr (SafeLoop ip (op + len + MINMATCH) dst))
       else copy_match src len off ip op dst))
     else if len = RUN_MASK then
       rbind (read_variable_length src RUN_MASK True ip) (\<lambda>(l, ip, err).
         if err = initial_error then Inr (OutputError ip dst) else safe_literal_copy src token (len + l) ip op dst)
     else safe_literal_copy src token len ip op dst)"

definition dec_step :: "byte list \<Rightarrow> lz4_dec \<Rightarrow> lz4_dec result" where
  "dec_step src st = (case st of
     FastLoop ip op dst \<Rightarrow> fast_loop src ip op dst
   | SafeLoop ip op dst \<Rightarrow> safe_loop src ip op dst
   | SafeLiteralCopy token len ip op dst \<Rightarrow> safe_literal_copy src token len ip op dst
   | SafeMatchCopy len off ip op dst \<Rightarrow> safe_match_copy len off ip op dst
   | _ \<Rightarrow> Inr st)"

definition dec_running :: "lz4_dec \<Rightarrow> bool" where
  "dec_running st = (case st of Decoded _ _ \<Rightarrow> False | OutputError _ _ \<Rightarrow> False | _ \<Rightarrow> True)"

text \<open>The returned value and the contents of the output buffer.\<close>

definition LZ4_decompress_generic :: "byte list \<Rightarrow> byte list \<Rightarrow> (int \<times> byte list) result option" where
  "LZ4_decompress_generic src dst =
     (if dst = [] then Some (Inr (if src = [0] then 0 else - 1, dst))
      else if src = [] then Some (Inr (- 1, dst))
      else
        Option.bind
          (rwhile dec_running (\<lambda>st. Some (dec_step src st))
             (if length dst < FASTLOOP_SAFE_DISTANCE then SafeLoop 0 0 dst else FastLoop 0 0 dst))
          (\<lambda>r. Some (rbind r (\<lambda>st. case st of
             Decoded op dst \<Rightarrow> Inr (int op, dst)
           | OutputError ip dst \<Rightarrow> Inr (- int ip - 1, dst)
           | _ \<Rightarrow> Inl Diverges))))"

definition LZ4_decompress_safe :: "byte list \<Rightarrow> byte list \<Rightarrow> (int \<times> byte list) result option" where
  "LZ4_decompress_safe src dst = LZ4_decompress_generic src dst"

section \<open>Every access stays inside the buffers\<close>

fun dec_inv :: "byte list \<Rightarrow> nat \<Rightarrow> lz4_dec \<Rightarrow> bool" where
  "dec_inv src N (FastLoop ip op dst) \<longleftrightarrow> length dst = N \<and> ip < length src \<and> op + 64 \<le> N"
| "dec_inv src N (SafeLoop ip op dst) \<longleftrightarrow> length dst = N \<and> ip < length src \<and> op \<le> N"
| "dec_inv src N (SafeLiteralCopy token len ip op dst) \<longleftrightarrow> length dst = N \<and> ip \<le> length src \<and> op \<le> N"
| "dec_inv src N (SafeMatchCopy len off ip op dst) \<longleftrightarrow> length dst = N \<and> ip < length src \<and> op + 8 \<le> N \<and> 4 \<le> len"
| "dec_inv src N (Decoded op dst) \<longleftrightarrow> length dst = N \<and> op \<le> N"
| "dec_inv src N (OutputError ip dst) \<longleftrightarrow> length dst = N"

fun dec_size :: "byte list \<Rightarrow> lz4_dec \<Rightarrow> nat" where
  "dec_size src (FastLoop ip op dst) = 2 * (length src - ip)"
| "dec_size src (SafeLoop ip op dst) = 2 * (length src - ip)"
| "dec_size src (SafeLiteralCopy token len ip op dst) = 2 * (length src - ip) + 1"
| "dec_size src (SafeMatchCopy len off ip op dst) = 2 * (length src - ip) + 1"
| "dec_size src _ = 0"

lemma read_length_ok:
  "ip < length src \<Longrightarrow> \<exists>l ip' err. read_length src margin ip len = Inr (l, ip', err) \<and> ip < ip' \<and> ip' \<le> length src
    \<and> err \<noteq> initial_error \<and> (err = len_ok \<longrightarrow> ip' + margin < length src)"
proof (induction src margin ip len rule: read_length.induct)
  case (1 src margin ip len)
  let ?s = "unat (src ! ip)"
  let ?len = "(len + ?s) mod 2 ^ 32"
  have g: "get ip src = Inr ?s" using 1(2) by (simp add: get_def)
  show ?case
  proof (cases "ip + 1 + margin \<ge> length src \<or> ?s \<noteq> 255")
    case True
    with g 1(2) show ?thesis by (subst read_length.simps) (auto simp: Let_def)
  next
    case False
    then have "ip + 1 < length src" by simp
    with 1(1) [of ?len ?s] False g obtain l ip' err where
      "read_length src margin (ip + 1) ?len = Inr (l, ip', err)" "ip + 1 < ip'" "ip' \<le> length src" "err \<noteq> initial_error"
      "err = len_ok \<longrightarrow> ip' + margin < length src" by auto
    with False g show ?thesis by (subst read_length.simps) (simp add: Let_def)
  qed
qed

lemma read_variable_length_ok:
  assumes "init \<or> ip < length src"
  shows "\<exists>l ip' err. read_variable_length src margin init ip = Inr (l, ip', err) \<and> ip \<le> ip' \<and> (ip \<le> length src \<longrightarrow> ip' \<le> length src)
    \<and> (\<not> init \<longrightarrow> err \<noteq> initial_error) \<and> (err \<noteq> initial_error \<longrightarrow> ip < ip') \<and> (err = len_ok \<longrightarrow> ip' + margin < length src)"
proof (cases "init \<and> ip + margin \<ge> length src")
  case True
  then show ?thesis by (simp add: read_variable_length_def)
next
  case False
  then have "ip < length src" using assms by auto
  from read_length_ok [OF this, of margin 0] False show ?thesis by (auto simp: read_variable_length_def)
qed

lemma readLE16_ok: "p + 1 < length m \<Longrightarrow> LZ4_readLE16 m p = Inr (unat (m ! p) + 256 * unat (m ! (p + 1)))"
  by (simp add: LZ4_readLE16_def get_def)

lemma copy18_ok:
  assumes "8 \<le> off" "off \<le> op" "op + 18 \<le> length dst"
  shows "\<exists>dst'. copy18 op (op - off) dst = Inr dst' \<and> keeps op dst dst' \<and> shifted off op (op + 18) dst'"
proof -
  obtain m1 where m1: "memcpy_in op (op - off) 8 dst = Inr m1" "keeps op dst m1" "shifted off op (op + 8) m1"
    using memcpy_in_ok [of off op 8 dst] assms by auto
  have s: "op - off + 8 = op + 8 - off" "op - off + 16 = op + 16 - off" "op + 16 + 2 = op + 18" using assms(2) by simp_all
  obtain m2 where m2: "memcpy_in (op + 8) (op + 8 - off) 8 m1 = Inr m2" "keeps (op + 8) m1 m2" "shifted off (op + 8) (op + 16) m2"
    using memcpy_in_ok [of off "op + 8" 8 m1] assms keeps_length [OF m1(2)] by (auto simp: add.assoc)
  note k2 = mem_in.R_step [OF m1(2,3) m2(2,3)]
  obtain m3 where m3: "memcpy_in (op + 16) (op + 16 - off) 2 m2 = Inr m3" "keeps (op + 16) m2 m3" "shifted off (op + 16) (op + 18) m3"
    using memcpy_in_ok [of off "op + 16" 2 m2, unfolded s(3)] assms keeps_length [OF m1(2)] keeps_length [OF m2(2)] by auto
  show ?thesis
    using mem_in.R_step [OF conjunct1 [OF k2] conjunct2 [OF k2] m3(2,3)] m1(1) m2(1) m3(1) by (simp add: copy18_def s)
qed

lemma fast_copy_ok:
  assumes "op + len + 64 < length dst" "ip < length src"
  shows "\<exists>st. fast_copy len off ip op dst = Inr st \<and> dec_inv src (length dst) st \<and> dec_size src st \<le> 2 * (length src - ip)
    \<and> (0 < off \<and> off \<le> op \<longrightarrow> (\<exists>dst'. st = FastLoop ip (op + len) dst' \<and> keeps op dst dst' \<and> shifted off op (op + len) dst'))"
proof (cases "off > op")
  case True
  then show ?thesis by (simp add: fast_copy_def)
next
  case False
  have "\<exists>dst'. (if off < 16 then LZ4_memcpy_using_offset op (op - off) (op + len) off dst
        else LZ4_wildCopy32 memcpy_in op (op - off) (op + len) dst) = Inr dst' \<and> keeps op dst dst' \<and> (0 < off \<longrightarrow> shifted off op (op + len) dst')"
    using using_offset_ok [of off op dst "op + len"] mem_in.wildCopy32_ok [of off op "len + 32" "op + len" dst] False assms by auto
  then obtain dst' where "(if off < 16 then LZ4_memcpy_using_offset op (op - off) (op + len) off dst
        else LZ4_wildCopy32 memcpy_in op (op - off) (op + len) dst) = Inr dst'" "keeps op dst dst'" "0 < off \<longrightarrow> shifted off op (op + len) dst'"
    by blast
  with False assms keeps_length [OF this(2)] show ?thesis by (simp add: fast_copy_def)
qed

lemma copy_to_limit_ok:
  assumes "8 \<le> D" "D \<le> op" "op \<le> length dst"
  shows "\<exists>m p. copy_to_limit op (op - D) dst = Inr (m, p - D, p) \<and> keeps op dst m \<and> shifted D op p m \<and> op \<le> p \<and> p \<le> length dst"
proof (cases "op < length dst - 7")
  case True
  then have "8 \<le> length dst - op" by simp
  from mem_in.wildCopy8_ok [OF assms(1,2) this, of "length dst - 7" dst] obtain m where
    "LZ4_wildCopy8 memcpy_in op (op - D) (length dst - 7) dst = Inr m" "keeps op dst m" "shifted D op (length dst - 7) m"
    using assms(3) True by auto
  moreover have "op - D + (length dst - 7 - op) = length dst - 7 - D" using assms(2) True by simp
  ultimately show ?thesis using True
    by (intro exI [of _ m] exI [of _ "length dst - 7"]) (simp add: copy_to_limit_def WILDCOPYLENGTH_def Let_def)
next
  case False
  with assms show ?thesis by (intro exI [of _ dst] exI [of _ op]) (auto simp: copy_to_limit_def WILDCOPYLENGTH_def Let_def shifted_def)
qed

lemma safe_match_copy_ok:
  assumes "op + 8 \<le> length dst" "4 \<le> len" "ip < length src"
  shows "\<exists>st. safe_match_copy len off ip op dst = Inr st \<and> dec_inv src (length dst) st \<and> dec_size src st \<le> 2 * (length src - ip)
    \<and> (0 < off \<and> off \<le> op \<and> op + len + 5 \<le> length dst
         \<longrightarrow> (\<exists>dst'. st = SafeLoop ip (op + len) dst' \<and> keeps op dst dst' \<and> shifted off op (op + len) dst'))"
proof (cases "off > op")
  case True
  then show ?thesis by (simp add: safe_match_copy_def)
next
  case False
  let ?D = "copy_dist off" and ?cpy = "op + len"
  obtain m1 where m1: "copy8_offset op (op - off) off dst = Inr (m1, op + 8 - ?D)" "keeps op dst m1" "0 < off \<longrightarrow> shifted off op (op + 8) m1"
    using copy8_offset_ok [of off op dst] False assms(1) by auto
  have D: "8 \<le> ?D" "?D \<le> op + 8" using copy_dist_bounds [of off] False by auto
  have len1: "length m1 = length dst" using keeps_length [OF m1(2)] .
  have ext: "shifted off op e m2" if "0 < off" "keeps (op + 8) m1 m2" "shifted ?D (op + 8) e m2" for e m2
  proof -
    from copy_dist_multiple [OF that(1)] obtain k where "0 < k" "?D = k * off" "k * off - off \<le> 8" by (elim exE conjE)
    then show ?thesis using shifted_extend [of off op "op + 8" m2 k e] shifted_keeps [OF _ that(2)] m1(3) that by simp
  qed
  have "\<exists>st. safe_match_copy len off ip op dst = Inr st \<and> (st = OutputError ip m1 \<and> ?cpy + 5 > length dst
      \<or> (\<exists>m2. st = SafeLoop ip ?cpy m2 \<and> ?cpy + 5 \<le> length dst \<and> keeps (op + 8) m1 m2 \<and> shifted ?D (op + 8) ?cpy m2))"
  proof (cases "?cpy + 12 > length dst")
    case True
    show ?thesis
    proof (cases "?cpy + 5 > length dst")
      case True
      with \<open>?cpy + 12 > length dst\<close> False m1(1) len1 show ?thesis by (simp add: safe_match_copy_def lz4_consts Let_def)
    next
      case far: False
      obtain m2 o2 where m2: "copy_to_limit (op + 8) (op + 8 - ?D) m1 = Inr (m2, o2 - ?D, o2)" "keeps (op + 8) m1 m2"
        "shifted ?D (op + 8) o2 m2" "op + 8 \<le> o2" "o2 \<le> length dst"
        using copy_to_limit_ok [OF D, of m1] assms(1) len1 by auto
      have "o2 + (?cpy - o2) \<le> length m2" using far m2(5) keeps_length [OF m2(2)] len1 by (cases "o2 \<le> ?cpy") auto
      then obtain m3 where m3: "copy_bytes (?cpy - o2) o2 (o2 - ?D) m2 = Inr m3" "keeps o2 m2 m3" "shifted ?D o2 (o2 + (?cpy - o2)) m3"
        using copy_bytes_ok [of ?D o2 "?cpy - o2" m2] D(2) m2(4,5) far keeps_length [OF m2(2)] len1 by auto
      have "keeps (op + 8) m1 m3 \<and> shifted ?D (op + 8) (o2 + (?cpy - o2)) m3" using mem_in.R_step [OF m2(2,3) m3(2,3) m2(4)] .
      moreover from this have "shifted ?D (op + 8) ?cpy m3" using shifted_mono [of ?D "op + 8" "o2 + (?cpy - o2)" m3 "op + 8" ?cpy] by simp
      moreover have "safe_match_copy len off ip op dst = Inr (SafeLoop ip ?cpy m3)"
        using \<open>?cpy + 12 > length dst\<close> far False m1(1) len1 m2(1) m3(1) by (simp add: safe_match_copy_def lz4_consts Let_def)
      ultimately show ?thesis using far by auto
    qed
  next
    case near: False
    have s: "op + 8 - ?D + 8 = op + 16 - ?D" using D(2) by simp
    obtain m2 where m2: "memcpy_in (op + 8) (op + 8 - ?D) 8 m1 = Inr m2" "keeps (op + 8) m1 m2" "shifted ?D (op + 8) (op + 16) m2"
      using memcpy_in_ok [of ?D "op + 8" 8 m1] D near len1 assms(2) by (auto simp: add.assoc)
    show ?thesis
    proof (cases "len > 16")
      case True
      obtain m3 where m3: "LZ4_wildCopy8 memcpy_in (op + 16) (op + 16 - ?D) ?cpy m2 = Inr m3" "keeps (op + 16) m2 m3" "shifted ?D (op + 16) ?cpy m3"
        using mem_in.wildCopy8_ok [of ?D "op + 16" "length dst - (op + 16)" ?cpy m2] D near True len1 keeps_length [OF m2(2)] by auto
      from mem_in.R_step [OF m2(2,3) m3(2,3)] True near False m1(1) len1 m2(1) m3(1) s show ?thesis
        by (simp add: safe_match_copy_def lz4_consts Let_def add.commute [of 16 op])
    next
      case small: False
      then have "shifted ?D (op + 8) ?cpy m2" using shifted_mono [OF m2(3), of "op + 8" ?cpy] by simp
      with small near False m1(1) len1 m2(1,2) show ?thesis by (simp add: safe_match_copy_def lz4_consts Let_def)
    qed
  qed
  moreover have "keeps op dst m2 \<and> length m2 = length dst \<and> (0 < off \<longrightarrow> shifted off op ?cpy m2)"
    if "keeps (op + 8) m1 m2" "shifted ?D (op + 8) ?cpy m2" for m2
    using keeps_trans [OF m1(2) that(1)] keeps_length [OF that(1)] ext [OF _ that] len1 by simp
  ultimately show ?thesis using len1 assms(3) by auto
qed

section \<open>Decoding a block\<close>

text \<open>
  The decoder on the block of a text \<open>X\<close>: what it has written agrees with \<open>X\<close>, and the bytes ahead are the rest of
  the block, from one of the places inside a sequence on.
\<close>

definition agrees :: "byte list \<Rightarrow> nat \<Rightarrow> byte list \<Rightarrow> bool" where
  "agrees X op dst \<longleftrightarrow> op \<le> length X \<and> length X \<le> length dst \<and> length X < 2 ^ 32 \<and> take op dst = take op X"

definition match_ok :: "byte list \<Rightarrow> nat \<Rightarrow> nat \<Rightarrow> nat \<Rightarrow> bool" where
  "match_ok X op off ml \<longleftrightarrow> 4 \<le> ml \<and> 0 < off \<and> off \<le> 65535 \<and> off \<le> op \<and> op + 12 \<le> length X
     \<and> op + ml + 5 \<le> length X \<and> shifted off op (op + ml) X"

definition at_match :: "byte list \<Rightarrow> nat \<Rightarrow> nat \<Rightarrow> nat \<Rightarrow> byte list \<Rightarrow> bool" where
  "at_match X op off ml bs \<longleftrightarrow> match_ok X op off ml \<and> (\<exists>qs. parses X (op + ml) qs \<and> bs = block X (op + ml) qs)"

definition at_length :: "byte list \<Rightarrow> nat \<Rightarrow> nat \<Rightarrow> nat \<Rightarrow> byte list \<Rightarrow> bool" where
  "at_length X op off m bs \<longleftrightarrow> (\<exists>ml tl. m = min (ml - 4) 15 \<and> bs = ext_len (ml - 4) @ tl \<and> at_match X op off ml tl)"

definition at_offset :: "byte list \<Rightarrow> nat \<Rightarrow> nat \<Rightarrow> byte list \<Rightarrow> bool" where
  "at_offset X op m bs \<longleftrightarrow> (\<exists>off tl. bs = le16 off @ tl \<and> at_length X op off m tl)"

definition at_literals :: "byte list \<Rightarrow> nat \<Rightarrow> nat \<Rightarrow> nat \<Rightarrow> byte list \<Rightarrow> bool" where
  "at_literals X op len m bs \<longleftrightarrow> op + len \<le> length X \<and> (\<exists>tl. bs = slice op len X @ tl
     \<and> (tl = [] \<and> op + len = length X \<or> at_offset X (op + len) m tl))"

definition at_token :: "byte list \<Rightarrow> nat \<Rightarrow> byte list \<Rightarrow> bool" where
  "at_token X op bs \<longleftrightarrow> (\<exists>qs. parses X op qs \<and> bs = block X op qs)"

fun dec_ok :: "byte list \<Rightarrow> byte list \<Rightarrow> lz4_dec \<Rightarrow> bool" where
  "dec_ok X src (FastLoop ip op dst) \<longleftrightarrow> agrees X op dst \<and> at_token X op (drop ip src)"
| "dec_ok X src (SafeLoop ip op dst) \<longleftrightarrow> agrees X op dst \<and> at_token X op (drop ip src)"
| "dec_ok X src (SafeLiteralCopy token len ip op dst) \<longleftrightarrow> agrees X op dst \<and> at_literals X op len (token mod 16) (drop ip src)"
| "dec_ok X src (SafeMatchCopy len off ip op dst) \<longleftrightarrow> agrees X op dst \<and> at_match X op off len (drop ip src)"
| "dec_ok X src (Decoded op dst) \<longleftrightarrow> take op dst = X"
| "dec_ok X src (OutputError ip dst) \<longleftrightarrow> False"

lemma drop_append: "drop ip src = a @ b \<Longrightarrow> drop (ip + length a) src = b"
  by (metis add.commute append_eq_conv_conj drop_drop)

lemma drop_length: "drop ip src = a \<Longrightarrow> length src - ip = length a"
  by (metis length_drop)

lemma at_token_cases:
  assumes "at_token X op bs" "op \<le> length X"
  shows "\<exists>l m tl. bs = of_nat (token_of l m) # ext_len l @ tl \<and> op + l \<le> length X \<and> at_literals X op l (min m 15) tl"
proof -
  obtain qs where qs: "parses X op qs" "bs = block X op qs" using assms(1) by (auto simp: at_token_def)
  show ?thesis
  proof (cases qs)
    case Nil
    then show ?thesis
      using qs assms(2) by (intro exI [of _ "length X - op"] exI [of _ 0] exI [of _ "drop op X"])
        (simp add: block_Nil last_bytes_def at_literals_def slice_def)
  next
    case (Cons q qs')
    then have "at_match X (op + lits q) (moff q) (mlen q) (block X (seq_end op q) qs')" "op + lits q \<le> length X"
      using qs(1) by (auto simp: at_match_def match_ok_def seq_ok_def seq_end_def)
    then have "at_literals X op (lits q) (min (mlen q - 4) 15) (slice op (lits q) X @ seq_tail q @ block X (seq_end op q) qs')"
      by (auto simp: at_literals_def at_offset_def at_length_def seq_tail_def)
    with Cons qs(2) \<open>op + lits q \<le> length X\<close> show ?thesis
      by (auto simp: block_Cons seq_bytes_def)
  qed
qed

lemma at_match_length: "at_match X op off ml bs \<Longrightarrow> 6 \<le> length bs"
  using block_length by (auto simp: at_match_def match_ok_def)

lemma agrees_match:
  assumes "agrees X op dst" "match_ok X op off ml" "keeps op dst dst'" "shifted off op (op + ml) dst'"
  shows "agrees X (op + ml) dst'"
proof -
  have m: "0 < off" "off \<le> op" "op + ml \<le> length X" "shifted off op (op + ml) X" using assms(2) by (simp_all add: match_ok_def)
  have len: "length X \<le> length dst" "length dst' = length dst" using assms(1) keeps_length [OF assms(3)] by (simp_all add: agrees_def)
  have "dst' ! i = X ! i" if "i < op + ml" for i
    using that
  proof (induction i rule: less_induct)
    case (less i)
    show ?case
    proof (cases "i < op")
      case True
      have "take op dst ! i = take op X ! i" using assms(1) by (simp add: agrees_def)
      with True assms(3) show ?thesis by (simp add: keeps_def)
    next
      case False
      with less m(1,2) have "dst' ! (i - off) = X ! (i - off)" by simp
      with False less.prems m(4) assms(4) show ?thesis by (simp add: shifted_def)
    qed
  qed
  then have "take (op + ml) dst' = take (op + ml) X" using m(3) len by (intro nth_equalityI) auto
  with m(3) len assms(1) show ?thesis by (simp add: agrees_def)
qed

lemma agrees_literals:
  assumes "agrees X op dst" "op + len \<le> length X" "keeps op dst dst'" "copied src op ip op (op + len) dst'" "drop ip src = slice op len X @ rest"
  shows "agrees X (op + len) dst'"
proof -
  have len: "length X \<le> length dst" "length dst' = length dst" using assms(1) keeps_length [OF assms(3)] by (simp_all add: agrees_def)
  have "dst' ! i = X ! i" if "i < op + len" for i
  proof (cases "i < op")
    case True
    have "take op dst ! i = take op X ! i" using assms(1) by (simp add: agrees_def)
    with True assms(3) show ?thesis by (simp add: keeps_def)
  next
    case False
    have "ip \<le> length src \<or> len = 0" using arg_cong [OF assms(5), of length] assms(2) by (simp add: buf_simps) arith
    then have "drop ip src ! (i - op) = src ! (i + ip - op)" using False that by (auto simp: add.commute)
    moreover have "(slice op len X @ rest) ! (i - op) = X ! i" using False that assms(2) by (auto simp: nth_append buf_simps nth_slice)
    moreover have "dst' ! i = src ! (i + ip - op)" using assms(4) False that by (simp add: copied_def)
    ultimately show ?thesis using assms(5) by simp
  qed
  then have "take (op + len) dst' = take (op + len) X" using assms(2) len by (intro nth_equalityI) auto
  with assms(1,2) len show ?thesis by (simp add: agrees_def)
qed

lemma drop_Cons_get: "drop ip src = b # bs \<Longrightarrow> get ip src = Inr (unat b) \<and> drop (ip + 1) src = bs \<and> ip < length src"
  by (metis One_nat_def add.right_neutral add_Suc_right drop_eq_Nil2 get_def list.inject list.simps(3) not_le Cons_nth_drop_Suc)

lemma readLE16_drop: "drop p src = le16 n @ rest \<Longrightarrow> n \<le> 65535 \<Longrightarrow> LZ4_readLE16 src p = Inr n \<and> drop (p + 2) src = rest"
  using drop_Cons_get [of p src "of_nat n"] drop_Cons_get [of "p + 1" src "of_nat (n div 256)"]
  by (auto simp: le16_def LZ4_readLE16_def unat_of_nat)

lemma read_length_drop:
  assumes "drop ip src = replicate n 255 @ b # rest" "unat b < 255" "margin \<le> length rest" "len + 255 * n + unat b < 2 ^ 32"
  shows "read_length src margin ip len = Inr (len + 255 * n + unat b, ip + n + 1, if length rest \<le> margin then loop_error else len_ok)"
  using assms
proof (induction n arbitrary: ip len)
  case 0
  then have "get ip src = Inr (unat b)" "drop (ip + 1) src = rest" "ip < length src" using drop_Cons_get [of ip src b rest] by auto
  moreover from this have "(ip + 1 + margin \<ge> length src) = (length rest \<le> margin)" by auto
  ultimately show ?case using 0 by (subst read_length.simps) (auto simp: Let_def)
next
  case (Suc n)
  then have g: "get ip src = Inr 255" "drop (ip + 1) src = replicate n 255 @ b # rest" "ip < length src"
    using drop_Cons_get [of ip src 255 "replicate n 255 @ b # rest"] by auto
  have "length src - (ip + 1) = n + 1 + length rest" using arg_cong [OF g(2), of length] by simp
  then have "\<not> ip + 1 + margin \<ge> length src" using Suc.prems(3) by linarith
  moreover have "(len + 255) mod 2 ^ 32 = len + 255" using Suc.prems(4) by simp
  moreover have "read_length src margin (ip + 1) (len + 255) = Inr (len + 255 + 255 * n + unat b, ip + 1 + n + 1,
      if length rest \<le> margin then loop_error else len_ok)"
    by (rule Suc.IH) (use g(2) Suc.prems in auto)
  ultimately show ?case using g(1) by (subst read_length.simps) (simp add: Let_def algebra_simps)
qed

lemma read_variable_length_drop:
  assumes "drop ip src = ext_len k @ rest" "15 \<le> k" "k < 2 ^ 32" "margin \<le> length rest"
  shows "read_variable_length src margin init ip
    = Inr (k - 15, ip + length (ext_len k), if length rest \<le> margin then loop_error else len_ok)"
proof -
  let ?n = "(k - 15) div 255" and ?b = "of_nat ((k - 15) mod 255) :: byte"
  have "(k - 15) mod 255 < 255" by simp
  then have b: "unat ?b = (k - 15) mod 255" by (simp add: unat_of_nat)
  have "read_length src margin ip 0 = Inr (0 + 255 * ?n + unat ?b, ip + ?n + 1, if length rest \<le> margin then loop_error else len_ok)"
    by (rule read_length_drop) (use assms b in \<open>auto simp: ext_len_def\<close>)
  moreover have "255 * ?n + unat ?b = k - 15" unfolding b by simp
  moreover have "\<not> ip + margin \<ge> length src"
    using arg_cong [OF assms(1), of length] assms(2,4) by (simp add: ext_len_length)
  ultimately show ?thesis using assms(2) by (simp add: read_variable_length_def ext_len_length)
qed

lemma mod16_le [simp]: "(n :: nat) mod 16 \<le> 15" using mod_less_divisor [of 16 n] by linarith

lemma match_copied:
  assumes "agrees X op dst" "at_match X op off ml (drop ip src)" "keeps op dst dst'" "shifted off op (op + ml) dst'"
  shows "agrees X (op + ml) dst' \<and> at_token X (op + ml) (drop ip src)"
  using agrees_match [OF assms(1) _ assms(3,4)] assms(2) by (auto simp: at_match_def at_token_def)

lemma safe_match_copy_dec:
  assumes "op + 8 \<le> length dst" "4 \<le> ml" "ip < length src"
  shows "\<exists>st. safe_match_copy ml off ip op dst = Inr st \<and> dec_inv src (length dst) st \<and> dec_size src st \<le> 2 * (length src - ip)
    \<and> (agrees X op dst \<and> at_match X op off ml (drop ip src) \<longrightarrow> dec_ok X src st)"
proof -
  from safe_match_copy_ok [OF assms, of off] obtain st where
    st: "safe_match_copy ml off ip op dst = Inr st" "dec_inv src (length dst) st" "dec_size src st \<le> 2 * (length src - ip)"
    "0 < off \<and> off \<le> op \<and> op + ml + 5 \<le> length dst
       \<longrightarrow> (\<exists>dst'. st = SafeLoop ip (op + ml) dst' \<and> keeps op dst dst' \<and> shifted off op (op + ml) dst')" by blast
  have "dec_ok X src st" if a: "agrees X op dst" "at_match X op off ml (drop ip src)"
  proof -
    have "0 < off \<and> off \<le> op \<and> op + ml + 5 \<le> length dst" using a by (auto simp: at_match_def match_ok_def agrees_def)
    then obtain dst' where "st = SafeLoop ip (op + ml) dst'" "keeps op dst dst'" "shifted off op (op + ml) dst'" using st(4) by blast
    with match_copied [OF a] show ?thesis by auto
  qed
  with st show ?thesis by blast
qed

text \<open>The length of a match, which may have to be read.\<close>

lemma match_length_dec:
  assumes "agrees X op dst" "at_length X op off 15 (drop ip src)"
  shows "\<exists>l ip'. read_variable_length src 4 False ip = Inr (l, ip', len_ok) \<and> at_match X op off (15 + l + 4) (drop ip' src)"
proof -
  obtain ml rest where "15 = min (ml - 4) 15" and s: "drop ip src = ext_len (ml - 4) @ rest" "at_match X op off ml rest"
    using assms(2) unfolding at_length_def by blast
  then have t: "15 \<le> ml - 4" "drop ip src = ext_len (ml - 4) @ rest" "at_match X op off ml rest" by simp_all
  have "6 \<le> length rest" using at_match_length [OF t(3)] .
  moreover have "ml < 2 ^ 32" using t(3) assms(1) by (auto simp: at_match_def match_ok_def agrees_def)
  ultimately have "read_variable_length src 4 False ip = Inr (ml - 4 - 15, ip + length (ext_len (ml - 4)), len_ok)"
    using read_variable_length_drop [OF t(2,1), of 4 False] by simp
  with t drop_append [OF t(2)] show ?thesis by simp
qed

lemma short_match_dec: "at_length X op off m bs \<Longrightarrow> m < 15 \<Longrightarrow> at_match X op off (m + 4) bs"
  by (auto simp: at_length_def ext_len_def at_match_def match_ok_def min_def split: if_splits)

lemma copy_match_ok:
  assumes "op + 8 \<le> length dst" "ip < length src" "m \<le> 15"
  shows "\<exists>st. copy_match src m off ip op dst = Inr st \<and> dec_inv src (length dst) st \<and> dec_size src st \<le> 2 * (length src - ip)
    \<and> (agrees X op dst \<and> at_length X op off m (drop ip src) \<longrightarrow> dec_ok X src st)"
proof (cases "m = 15")
  case False
  with safe_match_copy_dec [OF assms(1) _ assms(2), of "m + 4" off X] short_match_dec [of X op off m] assms(3) show ?thesis
    by (auto simp: copy_match_def lz4_consts)
next
  case True
  obtain l ip' err where r: "read_variable_length src 4 False ip = Inr (l, ip', err)" "ip \<le> ip'" "err = len_ok \<longrightarrow> ip' + 4 < length src"
    using read_variable_length_ok [of False ip src 4] assms(2) by auto
  have k: "err = len_ok \<and> at_match X op off (15 + l + 4) (drop ip' src)" if "agrees X op dst" "at_length X op off m (drop ip src)"
    using match_length_dec [of X op dst off ip src] that True r(1) by auto
  show ?thesis
  proof (cases "err = len_ok")
    case False
    with r True k show ?thesis by (auto simp: copy_match_def lz4_consts)
  next
    case ok: True
    from safe_match_copy_dec [OF assms(1), of "15 + l + 4" ip' src off X] r(3) ok obtain st where
      "safe_match_copy (15 + l + 4) off ip' op dst = Inr st" "dec_inv src (length dst) st" "dec_size src st \<le> 2 * (length src - ip')"
      "agrees X op dst \<and> at_match X op off (15 + l + 4) (drop ip' src) \<longrightarrow> dec_ok X src st" by auto
    with r True ok k show ?thesis by (auto simp: copy_match_def lz4_consts)
  qed
qed

lemma offset_dec:
  assumes "at_offset X op m (drop ip src)"
  shows "\<exists>off. LZ4_readLE16 src ip = Inr off \<and> at_length X op off m (drop (ip + 2) src)"
proof -
  obtain off rest where o: "drop ip src = le16 off @ rest" "at_length X op off m rest" using assms by (auto simp: at_offset_def)
  then have "off \<le> 65535" by (auto simp: at_length_def at_match_def match_ok_def)
  with readLE16_drop [OF o(1)] o(2) show ?thesis by auto
qed

lemma at_offset_length: "at_offset X op m bs \<Longrightarrow> 8 \<le> length bs \<and> op + 12 \<le> length X"
  using at_match_length by (fastforce simp: at_offset_def at_length_def le16_def at_match_def match_ok_def)

text \<open>After literals that are not the last: the offset and the match.\<close>

lemma literals_copied:
  assumes "agrees X op dst" "at_literals X op len m (drop ip src)" "keeps op dst dst'" "copied src op ip op (op + len) dst'"
    and "ip + len < length src"
  shows "agrees X (op + len) dst' \<and> at_offset X (op + len) m (drop (ip + len) src)"
proof -
  obtain rest where l: "op + len \<le> length X" "drop ip src = slice op len X @ rest"
    "rest = [] \<and> op + len = length X \<or> at_offset X (op + len) m rest"
    using assms(2) by (auto simp: at_literals_def)
  have "drop (ip + len) src = rest" using drop_append [OF l(2)] l(1) by (simp add: buf_simps)
  moreover from this have "rest \<noteq> []" using assms(5) by auto
  ultimately show ?thesis using agrees_literals [OF assms(1) l(1) assms(3,4) l(2)] l(3) by simp
qed

lemma safe_literal_copy_ok:
  assumes "op \<le> length dst" "ip \<le> length src"
  shows "\<exists>st. safe_literal_copy src token len ip op dst = Inr st \<and> dec_inv src (length dst) st \<and> dec_size src st \<le> 2 * (length src - ip)
    \<and> (agrees X op dst \<and> at_literals X op len (token mod 16) (drop ip src) \<longrightarrow> dec_ok X src st)"
proof (cases "op + len + 12 > length dst \<or> ip + len + 8 > length src")
  case last: True
  have X: "ip + len = length src \<and> op + len = length X \<and> drop ip src = drop op X"
    if a: "agrees X op dst" "at_literals X op len (token mod 16) (drop ip src)"
  proof -
    obtain rest where l: "op + len \<le> length X" "drop ip src = slice op len X @ rest"
      "rest = [] \<and> op + len = length X \<or> at_offset X (op + len) (token mod 16) rest"
      using a(2) by (auto simp: at_literals_def)
    have len: "length src - ip = len + length rest" using arg_cong [OF l(2), of length] l(1) by (simp add: buf_simps)
    have "\<not> at_offset X (op + len) (token mod 16) rest"
      using at_offset_length [of X "op + len" "token mod 16" rest] last len a(1) assms(2) by (auto simp: agrees_def)
    then show ?thesis using l len assms(2) by (auto simp: slice_def)
  qed
  show ?thesis
  proof (cases "ip + len \<noteq> length src \<or> op + len > length dst")
    case True
    with X last show ?thesis by (auto simp: safe_literal_copy_def lz4_consts agrees_def)
  next
    case False
    obtain m where m: "memcpy_from src op ip len dst = Inr m" "keeps op dst m" "copied src op ip op (op + len) m"
      using mem_from.cp_ok [of op op ip len src len dst] False by auto
    have "take (op + len) m = X" if a: "agrees X op dst" "at_literals X op len (token mod 16) (drop ip src)"
    proof -
      have x: "op + len = length X" "drop ip src = slice op len X @ []" using X [OF a] by (auto simp: slice_def)
      show ?thesis using agrees_literals [OF a(1) _ m(2,3) x(2)] x(1) by (simp add: agrees_def)
    qed
    with False last m(1) keeps_length [OF m(2)] show ?thesis by (auto simp: safe_literal_copy_def lz4_consts)
  qed
next
  case False
  obtain m where m: "LZ4_wildCopy8 (memcpy_from src) op ip (op + len) dst = Inr m" "keeps op dst m" "copied src op ip op (op + len) m"
    using mem_from.wildCopy8_ok [of 8 op op ip "len + 8" src "op + len" dst] False by auto
  let ?off = "unat (src ! (ip + len)) + 256 * unat (src ! (ip + len + 1))"
  have o: "LZ4_readLE16 src (ip + len) = Inr ?off" using False by (intro readLE16_ok) simp
  obtain st where st: "copy_match src (token mod 16) ?off (ip + len + 2) (op + len) m = Inr st" "dec_inv src (length m) st"
    "dec_size src st \<le> 2 * (length src - (ip + len + 2))"
    "agrees X (op + len) m \<and> at_length X (op + len) ?off (token mod 16) (drop (ip + len + 2) src) \<longrightarrow> dec_ok X src st"
    using copy_match_ok [of "op + len" m "ip + len + 2" src "token mod 16" ?off X] False keeps_length [OF m(2)] by auto
  have "dec_ok X src st" if a: "agrees X op dst" "at_literals X op len (token mod 16) (drop ip src)"
    using literals_copied [OF a m(2,3)] offset_dec [of X "op + len" "token mod 16" "ip + len" src] o st(4) False by auto
  with False m(1) o st(1-3) keeps_length [OF m(2)] show ?thesis by (auto simp: safe_literal_copy_def lz4_consts)
qed

text \<open>The token and the length of the literals.\<close>

lemma token_dec:
  assumes "at_token X op (drop ip src)" "op \<le> length X" "length X < 2 ^ 32" "get ip src = Inr token"
  shows "token div 16 < 15 \<Longrightarrow> at_literals X op (token div 16) (token mod 16) (drop (ip + 1) src)"
    and "token div 16 = 15 \<Longrightarrow> \<exists>l ip' err. read_variable_length src 15 True (ip + 1) = Inr (l, ip', err) \<and> err \<noteq> initial_error
      \<and> at_literals X op (15 + l) (token mod 16) (drop ip' src)"
proof -
  obtain l m rest where t: "drop ip src = of_nat (token_of l m) # ext_len l @ rest" "op + l \<le> length X" "at_literals X op l (min m 15) rest"
    using at_token_cases [OF assms(1,2)] by blast
  have "token_of l m < 256" by (auto simp: token_of_def min_def)
  then have u: "unat (of_nat (token_of l m) :: byte) = token_of l m" by (simp add: unat_of_nat)
  have d: "token = token_of l m" "drop (ip + 1) src = ext_len l @ rest" using drop_Cons_get [OF t(1)] assms(4) u by auto
  have tok: "token div 16 = min l 15" "token mod 16 = min m 15" by (auto simp: d(1) token_of_def)
  show "at_literals X op (token div 16) (token mod 16) (drop (ip + 1) src)" if "token div 16 < 15"
    using that d(2) t(3) unfolding tok by (auto simp: ext_len_def min_def split: if_splits)
  assume "token div 16 = 15"
  then have l: "15 \<le> l" unfolding tok by simp
  have "15 \<le> length rest" using t(2,3) l by (auto simp: at_literals_def buf_simps)
  with read_variable_length_drop [OF d(2) l, of 15 True] t(2) assms(3)
  have "read_variable_length src 15 True (ip + 1) = Inr (l - 15, ip + 1 + length (ext_len l), if length rest \<le> 15 then loop_error else len_ok)" by simp
  moreover have "15 + (l - 15) = l" using l by simp
  ultimately show "\<exists>l ip' err. read_variable_length src 15 True (ip + 1) = Inr (l, ip', err) \<and> err \<noteq> initial_error
      \<and> at_literals X op (15 + l) (token mod 16) (drop ip' src)"
    using drop_append [OF d(2)] t(3) unfolding tok by auto
qed

lemma get_ok: "ip < length src \<Longrightarrow> get ip src = Inr (unat (src ! ip))"
  by (simp add: get_def)

lemma unat_byte: "unat (b :: byte) < 256" using unsigned_less [of b] by simp

lemma safe_loop_ok:
  assumes "op \<le> length dst" "ip < length src"
  shows "\<exists>st. safe_loop src ip op dst = Inr st \<and> dec_inv src (length dst) st \<and> dec_size src st < 2 * (length src - ip)
    \<and> (dec_ok X src (SafeLoop ip op dst) \<longrightarrow> dec_ok X src st)"
proof -
  let ?t = "unat (src ! ip)"
  note g = get_ok [OF assms(2)]
  note tok = token_dec [where X = X, OF _ _ _ g]
  have lit: "\<exists>st. safe_literal_copy src ?t len ip' op dst = Inr st \<and> dec_inv src (length dst) st \<and> dec_size src st < 2 * (length src - ip)
      \<and> (agrees X op dst \<and> at_literals X op len (?t mod 16) (drop ip' src) \<longrightarrow> dec_ok X src st)" if "ip < ip'" "ip' \<le> length src" for len ip'
  proof -
    from safe_literal_copy_ok [OF assms(1) that(2), of ?t len X] obtain st where
      "safe_literal_copy src ?t len ip' op dst = Inr st" "dec_inv src (length dst) st" "dec_size src st \<le> 2 * (length src - ip')"
      "agrees X op dst \<and> at_literals X op len (?t mod 16) (drop ip' src) \<longrightarrow> dec_ok X src st" by blast
    with that show ?thesis by auto
  qed
  consider (short) "?t div 16 \<noteq> 15" "ip + 17 < length src" "op + 32 \<le> length dst"
    | (long) "?t div 16 = 15" | (lits) "?t div 16 \<noteq> 15" "\<not> (ip + 17 < length src \<and> op + 32 \<le> length dst)" by blast
  then show ?thesis
  proof cases
    case short
    let ?len = "?t div 16" and ?m = "?t mod 16"
    have len: "?len \<le> 14" using short(1) unat_byte [of "src ! ip"] by linarith
    let ?op = "op + ?len" and ?ip = "ip + 1 + ?len"
    obtain m1 where m1: "memcpy_from src op (ip + 1) 16 dst = Inr m1" "keeps op dst m1" "copied src op (ip + 1) op (op + 16) m1"
      using mem_from.cp_ok [of op op "ip + 1" 16 src 16 dst] short by auto
    have c: "copied src op (ip + 1) op ?op m1" using mem_from.R_mono [OF m1(3), of ?op] len by simp
    define off where "off = unat (src ! ?ip) + 256 * unat (src ! (?ip + 1))"
    have o: "LZ4_readLE16 src ?ip = Inr off" unfolding off_def using short len by (intro readLE16_ok) simp
    have X: "agrees X ?op m1 \<and> at_length X ?op off ?m (drop (?ip + 2) src)" if "dec_ok X src (SafeLoop ip op dst)"
      using literals_copied [OF _ tok(1) m1(2) c] offset_dec [of X ?op ?m ?ip src] o that len short(2) by (auto simp: agrees_def)
    have l1: "length m1 = length dst" using keeps_length [OF m1(2)] .
    show ?thesis
    proof (cases "?m \<noteq> 15 \<and> off \<ge> 8 \<and> off \<le> ?op")
      case True
      then have m: "?m < 15" using mod16_le [of ?t] by linarith
      obtain m2 where m2: "copy18 ?op (?op - off) m1 = Inr m2" "keeps ?op m1 m2" "shifted off ?op (?op + 18) m2"
        using copy18_ok [of off ?op m1] True short(3) len l1 by auto
      have s: "shifted off ?op (?op + (?m + 4)) m2" using shifted_mono [OF m2(3), of ?op "?op + (?m + 4)"] m by simp
      have "dec_ok X src (SafeLoop (?ip + 2) (?op + (?m + 4)) m2)" if "dec_ok X src (SafeLoop ip op dst)"
        using match_copied [OF _ short_match_dec m2(2) s, of X "?ip + 2" src] X [OF that] m by simp
      moreover have "safe_loop src ip op dst = Inr (SafeLoop (?ip + 2) (?op + (?m + 4)) m2)"
        using g short m1(1) o True m2(1) by (simp add: safe_loop_def lz4_consts Let_def add.assoc)
      ultimately show ?thesis using short len m keeps_length [OF m2(2)] l1 by auto
    next
      case False
      obtain st where "copy_match src ?m off (?ip + 2) ?op m1 = Inr st" "dec_inv src (length m1) st"
        "dec_size src st \<le> 2 * (length src - (?ip + 2))" "agrees X ?op m1 \<and> at_length X ?op off ?m (drop (?ip + 2) src) \<longrightarrow> dec_ok X src st"
        using copy_match_ok [of ?op m1 "?ip + 2" src ?m off X] short len l1 by auto
      with False g short m1(1) o X l1 show ?thesis by (auto simp: safe_loop_def lz4_consts Let_def)
    qed
  next
    case long
    obtain l ip' err where r: "read_variable_length src 15 True (ip + 1) = Inr (l, ip', err)" "ip + 1 \<le> ip'" "ip' \<le> length src"
      using read_variable_length_ok [of True "ip + 1" src 15] assms(2) by auto
    have k: "err \<noteq> initial_error \<and> at_literals X op (15 + l) (?t mod 16) (drop ip' src)" if "dec_ok X src (SafeLoop ip op dst)"
      using tok(2) [OF _ _ _ long] that r(1) by (auto simp: agrees_def)
    from lit [of ip' "15 + l"] r long g k show ?thesis by (cases "err = initial_error") (auto simp: safe_loop_def lz4_consts Let_def)
  next
    case lits
    then have "?t div 16 < 15" using unat_byte [of "src ! ip"] by linarith
    with tok(1) lit [of "ip + 1" "?t div 16"] lits g assms(2) show ?thesis
      by (auto simp: safe_loop_def lz4_consts Let_def agrees_def)
  qed
qed

lemma fast_copy_dec:
  assumes "op + ml + 64 < length dst" "ip < length src"
  shows "\<exists>st. fast_copy ml off ip op dst = Inr st \<and> dec_inv src (length dst) st \<and> dec_size src st \<le> 2 * (length src - ip)
    \<and> (agrees X op dst \<and> at_match X op off ml (drop ip src) \<longrightarrow> dec_ok X src st)"
proof -
  from fast_copy_ok [OF assms, of off] obtain st where
    st: "fast_copy ml off ip op dst = Inr st" "dec_inv src (length dst) st" "dec_size src st \<le> 2 * (length src - ip)"
    "0 < off \<and> off \<le> op \<longrightarrow> (\<exists>dst'. st = FastLoop ip (op + ml) dst' \<and> keeps op dst dst' \<and> shifted off op (op + ml) dst')" by blast
  have "dec_ok X src st" if a: "agrees X op dst" "at_match X op off ml (drop ip src)"
  proof -
    have "0 < off \<and> off \<le> op" using a(2) by (auto simp: at_match_def match_ok_def)
    then obtain dst' where "st = FastLoop ip (op + ml) dst'" "keeps op dst dst'" "shifted off op (op + ml) dst'" using st(4) by blast
    with match_copied [OF a] show ?thesis by auto
  qed
  with st show ?thesis by blast
qed

text \<open>Where the output is too near for the fast copy, the match is left to the other loop.\<close>

lemma fast_or_safe_dec:
  assumes "op + 8 \<le> length dst" "ip < length src" "4 \<le> ml"
  shows "\<exists>st. (if op + ml + 64 \<ge> length dst then Inr (SafeMatchCopy ml off ip op dst) else fast_copy ml off ip op dst) = Inr st
    \<and> dec_inv src (length dst) st \<and> dec_size src st \<le> 2 * (length src - ip) + 1
    \<and> (agrees X op dst \<and> at_match X op off ml (drop ip src) \<longrightarrow> dec_ok X src st)"
proof (cases "op + ml + 64 \<ge> length dst")
  case True
  with assms show ?thesis by auto
next
  case False
  then have "op + ml + 64 < length dst" by simp
  from fast_copy_dec [OF this assms(2), of off X] False show ?thesis by fastforce
qed

lemma fast_match_ok:
  assumes "op + 18 \<le> length dst" "ip + 2 < length src"
  shows "\<exists>st. fast_match src token ip op dst = Inr st \<and> dec_inv src (length dst) st \<and> dec_size src st \<le> 2 * (length src - (ip + 2)) + 1
    \<and> (agrees X op dst \<and> at_offset X op (token mod 16) (drop ip src) \<longrightarrow> dec_ok X src st)"
proof -
  let ?m = "token mod 16"
  define off where "off = unat (src ! ip) + 256 * unat (src ! (ip + 1))"
  have o: "LZ4_readLE16 src ip = Inr off" unfolding off_def using assms by (intro readLE16_ok) simp
  have X: "at_length X op off ?m (drop (ip + 2) src)" if "at_offset X op ?m (drop ip src)"
    using offset_dec [OF that] o by auto
  show ?thesis
  proof (cases "?m = 15")
    case True
    obtain l ip' err where r: "read_variable_length src 4 False (ip + 2) = Inr (l, ip', err)" "ip + 2 \<le> ip'" "err = len_ok \<longrightarrow> ip' + 4 < length src"
      using read_variable_length_ok [of False "ip + 2" src 4] assms(2) by auto
    have k: "off \<le> op \<and> err = len_ok \<and> at_match X op off (15 + l + 4) (drop ip' src)"
      if "agrees X op dst" "at_offset X op ?m (drop ip src)"
      using match_length_dec [of X op dst off "ip + 2" src] X [OF that(2)] that(1) True r(1)
      by (auto simp: at_match_def match_ok_def)
    show ?thesis
    proof (cases "off > op \<or> err \<noteq> len_ok")
      case False
      then have ip': "ip' < length src" using r(3) by auto
      from fast_or_safe_dec [OF _ ip', of op dst "15 + l + 4" off X] assms(1) obtain st where
        "(if op + (15 + l + 4) + 64 \<ge> length dst then Inr (SafeMatchCopy (15 + l + 4) off ip' op dst) else fast_copy (15 + l + 4) off ip' op dst) = Inr st"
        "dec_inv src (length dst) st" "dec_size src st \<le> 2 * (length src - ip') + 1"
        "agrees X op dst \<and> at_match X op off (15 + l + 4) (drop ip' src) \<longrightarrow> dec_ok X src st" by auto
      then show ?thesis using False True o r(1,2) k by (intro exI [of _ st]) (auto simp: fast_match_def lz4_consts Let_def)
    next
      case bad: True
      with True o r(1) k show ?thesis by (auto simp: fast_match_def lz4_consts Let_def)
    qed
  next
    case short: False
    then have m: "?m < 15" using mod16_le [of token] by linarith
    have k: "at_match X op off (?m + 4) (drop (ip + 2) src)" if "at_offset X op ?m (drop ip src)"
      using short_match_dec [OF X [OF that] m] .
    show ?thesis
    proof (cases "\<not> op + (?m + 4) + 64 \<ge> length dst \<and> off \<le> op \<and> off \<ge> 8")
      case True
      obtain m2 where m2: "copy18 op (op - off) dst = Inr m2" "keeps op dst m2" "shifted off op (op + 18) m2"
        using copy18_ok [of off op dst] True assms(1) by auto
      have s: "shifted off op (op + (?m + 4)) m2" using shifted_mono [OF m2(3), of op "op + (?m + 4)"] m by simp
      have "dec_ok X src (FastLoop (ip + 2) (op + (?m + 4)) m2)" if "agrees X op dst" "at_offset X op ?m (drop ip src)"
        using match_copied [OF that(1) k [OF that(2)] m2(2) s] by simp
      then show ?thesis using True short o m2(1) keeps_length [OF m2(2)] assms(2) by (auto simp: fast_match_def lz4_consts Let_def)
    next
      case False
      from fast_or_safe_dec [of op dst "ip + 2" src "?m + 4" off X] assms obtain st where
        "(if op + (?m + 4) + 64 \<ge> length dst then Inr (SafeMatchCopy (?m + 4) off (ip + 2) op dst) else fast_copy (?m + 4) off (ip + 2) op dst) = Inr st"
        "dec_inv src (length dst) st" "dec_size src st \<le> 2 * (length src - (ip + 2)) + 1"
        "agrees X op dst \<and> at_match X op off (?m + 4) (drop (ip + 2) src) \<longrightarrow> dec_ok X src st" by auto
      with False short o k show ?thesis by (intro exI [of _ st]) (auto simp: fast_match_def lz4_consts Let_def)
    qed
  qed
qed

lemma fast_loop_ok:
  assumes "op + 64 \<le> length dst" "ip < length src"
  shows "\<exists>st. fast_loop src ip op dst = Inr st \<and> dec_inv src (length dst) st \<and> dec_size src st < 2 * (length src - ip)
    \<and> (dec_ok X src (FastLoop ip op dst) \<longrightarrow> dec_ok X src st)"
proof -
  let ?t = "unat (src ! ip)"
  note g = get_ok [OF assms(2)]
  note tok = token_dec [where X = X, OF _ _ _ g]
  have copied: "\<exists>st. fast_match src ?t (ip' + len) (op + len) m = Inr st \<and> dec_inv src (length dst) st \<and> dec_size src st < 2 * (length src - ip)
      \<and> (agrees X op dst \<and> at_literals X op len (?t mod 16) (drop ip' src) \<longrightarrow> dec_ok X src st)"
    if "ip < ip'" "ip' + len + 2 < length src" "op + len + 18 \<le> length dst" "keeps op dst m" "copied src op ip' op (op + len) m" for ip' len m
  proof -
    from fast_match_ok [of "op + len" m "ip' + len" src ?t X] that(2-3) keeps_length [OF that(4)] obtain st where
      "fast_match src ?t (ip' + len) (op + len) m = Inr st" "dec_inv src (length m) st" "dec_size src st \<le> 2 * (length src - (ip' + len + 2)) + 1"
      "agrees X (op + len) m \<and> at_offset X (op + len) (?t mod 16) (drop (ip' + len) src) \<longrightarrow> dec_ok X src st" by auto
    then show ?thesis using literals_copied [OF _ _ that(4,5), of X "?t mod 16"] that(1,2) keeps_length [OF that(4)] by auto
  qed
  show ?thesis
  proof (cases "?t div 16 = 15")
    case True
    obtain l ip' err where r: "read_variable_length src 15 True (ip + 1) = Inr (l, ip', err)" "ip + 1 \<le> ip'" "ip' \<le> length src"
      using read_variable_length_ok [of True "ip + 1" src 15] assms(2) by auto
    have k: "err \<noteq> initial_error \<and> at_literals X op (15 + l) (?t mod 16) (drop ip' src)" if "dec_ok X src (FastLoop ip op dst)"
      using tok(2) [OF _ _ _ True] that r(1) by (auto simp: agrees_def)
    consider (err) "err = initial_error" | (near) "err \<noteq> initial_error" "op + (15 + l) + 32 > length dst \<or> ip' + (15 + l) + 32 > length src"
      | (far) "err \<noteq> initial_error" "op + (15 + l) + 32 \<le> length dst" "ip' + (15 + l) + 32 \<le> length src" by linarith
    then show ?thesis
    proof cases
      case err
      with True r(1) g k assms(2) show ?thesis by (auto simp: fast_loop_def lz4_consts Let_def)
    next
      case near
      with True r g k assms show ?thesis by (auto simp: fast_loop_def lz4_consts Let_def)
    next
      case far
      obtain m where m: "LZ4_wildCopy32 (memcpy_from src) op ip' (op + (15 + l)) dst = Inr m" "keeps op dst m" "copied src op ip' op (op + (15 + l)) m"
        using mem_from.wildCopy32_ok [of 16 op op ip' "15 + l + 32" src "op + (15 + l)" dst] far by auto
      with copied [of ip' "15 + l" m] far r True g k show ?thesis by (auto simp: fast_loop_def lz4_consts Let_def)
    qed
  next
    case False
    then have len: "?t div 16 < 15" using unat_byte [of "src ! ip"] by linarith
    show ?thesis
    proof (cases "ip + 1 + 17 > length src")
      case True
      with False len tok(1) g assms show ?thesis by (auto simp: fast_loop_def lz4_consts Let_def agrees_def)
    next
      case far: False
      obtain m where m: "memcpy_from src op (ip + 1) 16 dst = Inr m" "keeps op dst m" "copied src op (ip + 1) op (op + 16) m"
        using mem_from.cp_ok [of op op "ip + 1" 16 src 16 dst] far assms by auto
      have "copied src op (ip + 1) op (op + ?t div 16) m" using mem_from.R_mono [OF m(3)] len by simp
      with copied [of "ip + 1" "?t div 16" m] m(1,2) far False len tok(1) g assms show ?thesis
        by (auto simp: fast_loop_def lz4_consts Let_def agrees_def)
    qed
  qed
qed

lemma dec_step_ok:
  assumes "dec_inv src N st" "dec_running st"
  shows "\<exists>st'. dec_step src st = Inr st' \<and> dec_inv src N st' \<and> dec_size src st' < dec_size src st \<and> (dec_ok X src st \<longrightarrow> dec_ok X src st')"
proof (cases st)
  case (FastLoop ip op dst)
  with assms(1) fast_loop_ok [of op dst ip src X] show ?thesis by (auto simp: dec_step_def)
next
  case (SafeLoop ip op dst)
  with assms(1) safe_loop_ok [of op dst ip src X] show ?thesis by (auto simp: dec_step_def)
next
  case (SafeLiteralCopy token len ip op dst)
  with assms(1) safe_literal_copy_ok [of op dst ip src token len X] show ?thesis by (auto simp: dec_step_def)
next
  case (SafeMatchCopy len off ip op dst)
  with assms(1) safe_match_copy_dec [of op dst len ip src off X] show ?thesis by (auto simp: dec_step_def)
qed (use assms(2) in \<open>simp_all add: dec_running_def\<close>)

lemma dec_run:
  assumes "dec_inv src N st"
  shows "\<exists>t. rwhile dec_running (\<lambda>st. Some (dec_step src st)) st = Some (Inr t) \<and> dec_inv src N t \<and> \<not> dec_running t
    \<and> (dec_ok X src st \<longrightarrow> dec_ok X src t)"
proof -
  let ?P = "\<lambda>t. dec_inv src N t \<and> (dec_ok X src st \<longrightarrow> dec_ok X src t)"
  have "\<exists>t. rwhile dec_running (\<lambda>st. Some (dec_step src st)) st = Some (Inr t) \<and> ?P t \<and> \<not> dec_running t"
  proof (rule rwhile_ok [where m = "dec_size src"])
    show "?P st" using assms by simp
    show "\<exists>t. Some (dec_step src s) = Some (Inr t) \<and> ?P t \<and> dec_size src t < dec_size src s" if "?P s" "dec_running s" for s
      using dec_step_ok [of src N s X] that by auto
  qed
  then show ?thesis by blast
qed

definition dec_start :: "byte list \<Rightarrow> lz4_dec" where
  "dec_start dst = (if length dst < 64 then SafeLoop 0 0 dst else FastLoop 0 0 dst)"

lemma decompress_run:
  assumes "dst \<noteq> []" "src \<noteq> []"
  shows "\<exists>t. LZ4_decompress_safe src dst = Some (case t of Decoded op dst \<Rightarrow> Inr (int op, dst) | OutputError ip dst \<Rightarrow> Inr (- int ip - 1, dst) | _ \<Rightarrow> Inl Diverges)
    \<and> dec_inv src (length dst) t \<and> \<not> dec_running t \<and> (dec_ok X src (dec_start dst) \<longrightarrow> dec_ok X src t)"
proof -
  have "dec_inv src (length dst) (dec_start dst)" using assms(2) by (simp add: dec_start_def)
  from dec_run [OF this, of X] obtain t where
    "rwhile dec_running (\<lambda>st. Some (dec_step src st)) (dec_start dst) = Some (Inr t)" "dec_inv src (length dst) t" "\<not> dec_running t"
    "dec_ok X src (dec_start dst) \<longrightarrow> dec_ok X src t" by blast
  then show ?thesis using assms
    by (intro exI [of _ t]) (simp add: LZ4_decompress_safe_def LZ4_decompress_generic_def dec_start_def FASTLOOP_SAFE_DISTANCE_def)
qed

text \<open>
  C5: \<open>LZ4_decompress_safe\<close> is safe on every input, valid or not, and every output buffer: it terminates, never reads
  or writes outside the two buffers, never calls \<open>memcpy\<close> on overlapping regions, and a result that is not
  negative is at most the size of the buffer.
\<close>

theorem LZ4_decompress_safe_in_bounds:
  "\<exists>r dst'. LZ4_decompress_safe src dst = Some (Inr (r, dst')) \<and> length dst' = length dst \<and> r \<le> int (length dst)"
proof (cases "dst = [] \<or> src = []")
  case True
  then show ?thesis by (auto simp: LZ4_decompress_safe_def LZ4_decompress_generic_def)
next
  case False
  with decompress_run [of dst src "[]"] obtain t where
    "LZ4_decompress_safe src dst = Some (case t of Decoded op dst \<Rightarrow> Inr (int op, dst) | OutputError ip dst \<Rightarrow> Inr (- int ip - 1, dst) | _ \<Rightarrow> Inl Diverges)"
    "dec_inv src (length dst) t" "\<not> dec_running t" by blast
  then show ?thesis by (cases t) (auto simp: dec_running_def)
qed

lemma decompress_block:
  assumes "parses X 0 qs" "length X \<le> length dst" "length X < 2 ^ 32"
  shows "\<exists>dst'. LZ4_decompress_safe (block X 0 qs) dst = Some (Inr (int (length X), dst')) \<and> take (length X) dst' = X"
proof (cases "dst = []")
  case True
  then have "X = []" using assms(2) by simp
  then have "qs = []" using assms(1) by (cases qs) (auto simp: seq_ok_def)
  with True \<open>X = []\<close> show ?thesis
    by (simp add: LZ4_decompress_safe_def LZ4_decompress_generic_def block_Nil last_bytes_def token_of_def ext_len_def)
next
  case False
  have "block X 0 qs \<noteq> []" by (simp add: block_def last_bytes_def)
  with decompress_run [OF False, of "block X 0 qs" X] obtain t where
    t: "LZ4_decompress_safe (block X 0 qs) dst = Some (case t of Decoded op dst \<Rightarrow> Inr (int op, dst) | OutputError ip dst \<Rightarrow> Inr (- int ip - 1, dst) | _ \<Rightarrow> Inl Diverges)"
    "dec_inv (block X 0 qs) (length dst) t" "\<not> dec_running t" "dec_ok X (block X 0 qs) (dec_start dst) \<longrightarrow> dec_ok X (block X 0 qs) t" by blast
  have "dec_ok X (block X 0 qs) (dec_start dst)" using assms by (auto simp: dec_start_def agrees_def at_token_def)
  with t obtain op dst' where "t = Decoded op dst'" "take op dst' = X" "op \<le> length dst'" by (cases t) (auto simp: dec_running_def)
  with t(1) show ?thesis by auto
qed

end
