(* ===== verification/LZ4.thy ===== *)
theory LZ4
  imports Dedup LZ4Compress LZ4Decode
begin

text \<open>
  LZ4 as the methods and the store use it: what \<open>LZ4_compress_fast\<close> returns decompresses to its input
  (\<open>LZ4_roundtrip\<close>), so that the environment whose codec is the code of \<open>src/util/lz4.c\<close> (\<open>lz4_env\<close>) satisfies the
  hypotheses \<open>lz4_law\<close> and \<open>lz4_bound_law\<close> under which the methods are verified.
\<close>

section \<open>The round trip\<close>

text \<open>
  C2: A block that \<open>LZ4_compress_fast\<close> delivers, whatever the acceleration, the room it was given and the old
  contents of the buffers, is decompressed by \<open>LZ4_decompress_safe\<close> to exactly the input.
\<close>

theorem LZ4_roundtrip:
  assumes "LZ4_compress_fast src maxOut acceleration dst = Some (Inr (k, dst'))" "0 < k" "maxOut \<le> length dst"
    and "length src \<le> length buf"
  shows "\<exists>buf'. LZ4_decompress_safe (take k dst') buf = Some (Inr (int (length src), buf')) \<and> take (length src) buf' = src"
proof -
  from LZ4_compress_fast_ok [OF assms(3), of src acceleration] assms(1,2) obtain qs where
    "parses src 0 qs" "take k dst' = block src 0 qs" "length src \<le> LZ4_MAX_INPUT_SIZE" by auto
  with decompress_block [of src qs buf] assms(4) show ?thesis by (simp add: LZ4_MAX_INPUT_SIZE_def)
qed

theorem LZ4_roundtrip_witness:
  "\<exists>k dst' buf'. LZ4_compress_fast (replicate 100 7) 116 3 (replicate 116 0) = Some (Inr (k, dst'))
    \<and> LZ4_decompress_safe (take k dst') (replicate 200 1) = Some (Inr (100, buf')) \<and> take 100 buf' = replicate 100 7"
proof -
  from LZ4_compress_fast_ok [of 116 "replicate 116 0" "replicate 100 7" 3] obtain k dst' where
    k: "LZ4_compress_fast (replicate 100 7) 116 3 (replicate 116 0) = Some (Inr (k, dst'))" "0 < k"
    by (auto simp: LZ4_MAX_INPUT_SIZE_def LZ4_COMPRESSBOUND_def)
  from LZ4_roundtrip [OF k, of "replicate 200 1"] k(1) show ?thesis by auto
qed

section \<open>The codec of the methods\<close>

text \<open>
  \<open>buf n\<close> is the output buffer of a call that is told it may write \<open>n\<close> bytes, with any contents.  The methods
  compress with acceleration 3 and take a returned 0 for failure, the store takes a negative result for it.
\<close>

definition lz4_compress_block :: "(nat \<Rightarrow> byte list) \<Rightarrow> byte list \<Rightarrow> nat \<Rightarrow> byte list option" where
  "lz4_compress_block buf xs n =
     (case LZ4_compress_fast xs n 3 (buf n) of
        Some (Inr (k, dst)) \<Rightarrow> if k > 0 then Some (take k dst) else None
      | _ \<Rightarrow> None)"

definition lz4_decompress_block :: "(nat \<Rightarrow> byte list) \<Rightarrow> byte list \<Rightarrow> nat \<Rightarrow> byte list option" where
  "lz4_decompress_block buf c n =
     (case LZ4_decompress_safe c (take n (buf n)) of
        Some (Inr (r, dst)) \<Rightarrow> if r \<ge> 0 then Some (take (nat r) dst) else None
      | _ \<Rightarrow> None)"

definition lz4_env :: "(nat \<Rightarrow> byte list) \<Rightarrow> env \<Rightarrow> env" where
  "lz4_env buf x = x\<lparr>lz4_compress := lz4_compress_block buf, lz4_decompress := lz4_decompress_block buf\<rparr>"

definition large_enough :: "(nat \<Rightarrow> byte list) \<Rightarrow> bool" where
  "large_enough buf \<longleftrightarrow> (\<forall>n. n \<le> length (buf n))"

lemma lz4_env_sel [simp]:
  "lz4_compress (lz4_env buf x) = lz4_compress_block buf" "lz4_decompress (lz4_env buf x) = lz4_decompress_block buf"
  "sha256 (lz4_env buf x) = sha256 x" "xd3_encode_memory (lz4_env buf x) = xd3_encode_memory x"
  "xd3_decode_memory (lz4_env buf x) = xd3_decode_memory x"
  by (simp_all add: lz4_env_def)

lemma lz4_compress_block_ok:
  assumes "large_enough buf"
  shows "\<exists>k dst'. LZ4_compress_fast xs n 3 (buf n) = Some (Inr (k, dst')) \<and> length dst' = length (buf n) \<and> k \<le> n
    \<and> (k = 0 \<longrightarrow> length xs > LZ4_MAX_INPUT_SIZE \<or> n < LZ4_COMPRESSBOUND (length xs))
    \<and> (0 < k \<longrightarrow> (\<exists>qs. parses xs 0 qs \<and> take k dst' = block xs 0 qs) \<and> length xs \<le> LZ4_MAX_INPUT_SIZE)"
  using assms by (intro LZ4_compress_fast_ok) (simp add: large_enough_def)

lemma lz4_env_law:
  assumes "large_enough buf"
  shows "lz4_law (lz4_env buf x)"
  unfolding lz4_law_def lz4_env_sel
proof (intro allI impI)
  fix xs n c assume c: "lz4_compress_block buf xs n = Some c"
  from lz4_compress_block_ok [OF assms, of xs n] obtain k dst' where
    k: "LZ4_compress_fast xs n 3 (buf n) = Some (Inr (k, dst'))" "length dst' = length (buf n)" "k \<le> n"
    "0 < k \<longrightarrow> (\<exists>qs. parses xs 0 qs \<and> take k dst' = block xs 0 qs) \<and> length xs \<le> LZ4_MAX_INPUT_SIZE" by blast
  have c': "0 < k" "take k dst' = c" using c k(1) by (simp_all add: lz4_compress_block_def split: if_splits)
  with k(4) obtain qs where qs: "parses xs 0 qs" "c = block xs 0 qs" "length xs \<le> LZ4_MAX_INPUT_SIZE" by blast
  have "c \<noteq> []" by (simp add: qs(2) block_def last_bytes_def)
  moreover have "length c \<le> n" using k(3) by (simp flip: c'(2))
  moreover have "lz4_decompress_block buf c m = Some xs" if "length xs \<le> m" for m
  proof -
    have "length xs \<le> length (take m (buf m))" using assms that by (simp add: large_enough_def)
    moreover have "length xs < 2 ^ 32" using qs(3) by (simp add: LZ4_MAX_INPUT_SIZE_def)
    ultimately obtain d where
      "LZ4_decompress_safe c (take m (buf m)) = Some (Inr (int (length xs), d))" "take (length xs) d = xs"
      using decompress_block [OF qs(1), of "take m (buf m)"] unfolding qs(2) by blast
    then show ?thesis by (simp add: lz4_decompress_block_def)
  qed
  ultimately show "c \<noteq> [] \<and> length c \<le> n \<and> (\<forall>m \<ge> length xs. lz4_decompress_block buf c m = Some xs)" by blast
qed

lemma lz4_env_bound_law:
  assumes "large_enough buf"
  shows "lz4_bound_law (lz4_env buf x)"
  unfolding lz4_bound_law_def lz4_env_sel
proof (intro allI impI)
  fix xs :: "byte list" and n assume n: "length xs \<le> n \<and> n \<le> 0x7E000000"
  let ?m = "LZ4_compressBound n"
  from lz4_compress_block_ok [OF assms, of xs ?m] obtain k dst' where
    k: "LZ4_compress_fast xs ?m 3 (buf ?m) = Some (Inr (k, dst'))"
    "k = 0 \<longrightarrow> length xs > LZ4_MAX_INPUT_SIZE \<or> ?m < LZ4_COMPRESSBOUND (length xs)" by blast
  moreover have "LZ4_COMPRESSBOUND (length xs) \<le> ?m" "length xs \<le> LZ4_MAX_INPUT_SIZE"
    using n div_le_mono [of "length xs" n 255] by (simp_all add: LZ4_COMPRESSBOUND_def LZ4_compressBound_def LZ4_MAX_INPUT_SIZE_def)
  ultimately show "lz4_compress_block buf xs ?m \<noteq> None" by (auto simp: lz4_compress_block_def)
qed

lemma lz4_env_hash_law: "hash_law (lz4_env buf x) C = hash_law x C"
  by (simp add: hash_law_def)

lemma zero_buffers: "large_enough (\<lambda>n. replicate n 0)"
  by (simp add: large_enough_def)

end
