(* ===== verification/MessageQueue.thy ===== *)
theory MessageQueue
  imports Prelude
begin

text \<open>
  The queue between the chunker thread and the method thread, \<open>include/messageQueue.h\<close>, and the protocol
  the two threads run over it: \<open>Chunker::Chunking\<close> pushes its chunks and sets \<open>done_\<close>; \<open>ProcessTrace\<close>
  (and \<open>dataWrite::writing\<close>) polls until it has seen \<open>done_\<close> and then an empty queue, and clears
  \<open>done_\<close>.  The lock-free queue inside is a bounded first-in first-out queue with one producer and one
  consumer; \<open>try_enqueue\<close> fails when it is full.  The threads interleave at the granularity of these
  calls, as the step relation \<open>mq_step\<close>.
\<close>

record 'a MessageQueue =
  lockFreeQueue :: "'a list"
  done_flag :: bool
  capacity :: nat

definition MessageQueue_new :: "nat \<Rightarrow> 'a MessageQueue" where
  "MessageQueue_new n = \<lparr>lockFreeQueue = [], done_flag = False, capacity = n\<rparr>"

definition try_enqueue :: "'a \<Rightarrow> 'a MessageQueue \<Rightarrow> 'a MessageQueue option" where
  "try_enqueue x q =
     (if length (lockFreeQueue q) < capacity q then Some (q\<lparr>lockFreeQueue := lockFreeQueue q @ [x]\<rparr>) else None)"

definition Pop :: "'a MessageQueue \<Rightarrow> ('a \<times> 'a MessageQueue) option" where
  "Pop q = (case lockFreeQueue q of [] \<Rightarrow> None | x # xs \<Rightarrow> Some (x, q\<lparr>lockFreeQueue := xs\<rparr>))"

definition SetJobDoneFlag :: "'a MessageQueue \<Rightarrow> 'a MessageQueue" where
  "SetJobDoneFlag q = q\<lparr>done_flag := True\<rparr>"

definition IsEmpty :: "'a MessageQueue \<Rightarrow> bool" where
  "IsEmpty q = (let count = length (lockFreeQueue q) in if count = 0 then True else False)"

text \<open>The destructor exits with an error when the queue still holds data.\<close>

definition MessageQueue_delete :: "'a MessageQueue \<Rightarrow> unit result" where
  "MessageQueue_delete q = (if IsEmpty q then Inr () else Inl ExitFailure)"

section \<open>The two threads\<close>

text \<open>
  The consumer is at the test of \<open>done_\<close>, at the test of \<open>IsEmpty\<close> (reached only when \<open>done_\<close> was
  set), at \<open>Pop\<close>, or has left its loop.  The producer still has \<open>to_push\<close> to push, then sets \<open>done_\<close>
  and is over.
\<close>

datatype consumer_at = AtDone | AtEmpty | AtPop | Exited

record 'a mq_sys =
  to_push :: "'a list"
  producer_over :: bool
  mq :: "'a MessageQueue"
  consumer :: consumer_at
  received :: "'a list"

definition mq_init :: "nat \<Rightarrow> 'a list \<Rightarrow> 'a mq_sys" where
  "mq_init n xs = \<lparr>to_push = xs, producer_over = False, mq = MessageQueue_new n, consumer = AtDone, received = []\<rparr>"

text \<open>\<open>Push\<close> spins while \<open>try_enqueue\<close> fails.\<close>

inductive mq_step :: "'a mq_sys \<Rightarrow> 'a mq_sys \<Rightarrow> bool" where
  push: "to_push s = x # xs \<Longrightarrow> try_enqueue x (mq s) = Some q \<Longrightarrow> mq_step s (s\<lparr>to_push := xs, mq := q\<rparr>)"
| spin: "to_push s = x # xs \<Longrightarrow> try_enqueue x (mq s) = None \<Longrightarrow> mq_step s s"
| finish: "to_push s = [] \<Longrightarrow> \<not> producer_over s \<Longrightarrow>
    mq_step s (s\<lparr>producer_over := True, mq := SetJobDoneFlag (mq s)\<rparr>)"
| not_done: "consumer s = AtDone \<Longrightarrow> \<not> done_flag (mq s) \<Longrightarrow> mq_step s (s\<lparr>consumer := AtPop\<rparr>)"
| seen_done: "consumer s = AtDone \<Longrightarrow> done_flag (mq s) \<Longrightarrow> mq_step s (s\<lparr>consumer := AtEmpty\<rparr>)"
| not_empty: "consumer s = AtEmpty \<Longrightarrow> \<not> IsEmpty (mq s) \<Longrightarrow> mq_step s (s\<lparr>consumer := AtPop\<rparr>)"
| leave: "consumer s = AtEmpty \<Longrightarrow> IsEmpty (mq s) \<Longrightarrow>
    mq_step s (s\<lparr>consumer := Exited, mq := (mq s)\<lparr>done_flag := False\<rparr>\<rparr>)"
| pop: "consumer s = AtPop \<Longrightarrow> Pop (mq s) = Some (x, q) \<Longrightarrow>
    mq_step s (s\<lparr>consumer := AtDone, mq := q, received := received s @ [x]\<rparr>)"
| pop_fails: "consumer s = AtPop \<Longrightarrow> Pop (mq s) = None \<Longrightarrow> mq_step s (s\<lparr>consumer := AtDone\<rparr>)"

inductive_cases mq_stepE: "mq_step s t"

definition mq_reachable :: "nat \<Rightarrow> 'a list \<Rightarrow> 'a mq_sys \<Rightarrow> bool" where
  "mq_reachable n xs s \<longleftrightarrow> mq_step\<^sup>*\<^sup>* (mq_init n xs) s"

section \<open>Safety\<close>

text \<open>
  Nothing is lost or reordered; \<open>done_\<close> is set exactly while the producer is over and the consumer has
  not left; the consumer tests for emptiness only after the producer is over.
\<close>

definition mq_inv :: "nat \<Rightarrow> 'a list \<Rightarrow> 'a mq_sys \<Rightarrow> bool" where
  "mq_inv n xs s \<longleftrightarrow> received s @ lockFreeQueue (mq s) @ to_push s = xs
     \<and> length (lockFreeQueue (mq s)) \<le> n \<and> capacity (mq s) = n
     \<and> (producer_over s \<longrightarrow> to_push s = [])
     \<and> (done_flag (mq s) \<longleftrightarrow> producer_over s \<and> consumer s \<noteq> Exited)
     \<and> (consumer s \<in> {AtEmpty, Exited} \<longrightarrow> producer_over s)
     \<and> (consumer s = Exited \<longrightarrow> lockFreeQueue (mq s) = [])"

lemmas mq_ops = try_enqueue_def Pop_def SetJobDoneFlag_def IsEmpty_def

lemma mq_inv_init: "mq_inv n xs (mq_init n xs)"
  by (simp add: mq_inv_def mq_init_def MessageQueue_new_def)

lemma mq_inv_step: "mq_step s t \<Longrightarrow> mq_inv n xs s \<Longrightarrow> mq_inv n xs t"
  by (elim mq_stepE) (auto simp: mq_inv_def mq_ops split: if_splits list.splits)

lemma mq_reachable_inv: "mq_reachable n xs s \<Longrightarrow> mq_inv n xs s"
  unfolding mq_reachable_def
  by (induction rule: rtranclp_induct) (auto intro: mq_inv_init mq_inv_step)

section \<open>Progress\<close>

definition mq_weight :: "'a mq_sys \<Rightarrow> nat" where
  "mq_weight s = 8 * length (to_push s) + 4 * length (lockFreeQueue (mq s)) + (if producer_over s then 0 else 3)
     + (case consumer s of AtPop \<Rightarrow> if lockFreeQueue (mq s) = [] then 3 else 0
        | AtDone \<Rightarrow> 2 | AtEmpty \<Rightarrow> 1 | Exited \<Rightarrow> 0)"

definition mq_finished :: "'a mq_sys \<Rightarrow> bool" where
  "mq_finished s \<longleftrightarrow> producer_over s \<and> consumer s = Exited"

lemma consumer_drains:
  assumes "mq_inv n xs s" "lockFreeQueue (mq s) \<noteq> []"
  shows "\<exists>t. mq_step s t \<and> mq_weight t < mq_weight s"
proof (cases "consumer s")
  case AtDone
  show ?thesis
  proof (cases "done_flag (mq s)")
    case True
    from mq_step.seen_done [OF AtDone True] AtDone show ?thesis by (force simp: mq_weight_def)
  next
    case False
    from mq_step.not_done [OF AtDone False] AtDone assms(2) show ?thesis by (force simp: mq_weight_def)
  qed
next
  case AtEmpty
  have "\<not> IsEmpty (mq s)" using assms(2) by (simp add: IsEmpty_def)
  from mq_step.not_empty [OF AtEmpty this] AtEmpty assms(2) show ?thesis by (force simp: mq_weight_def)
next
  case AtPop
  obtain x q where q: "lockFreeQueue (mq s) = x # q" using assms(2) by (cases "lockFreeQueue (mq s)") auto
  then have "Pop (mq s) = Some (x, (mq s)\<lparr>lockFreeQueue := q\<rparr>)" by (simp add: Pop_def)
  from mq_step.pop [OF AtPop this] AtPop q show ?thesis by (force simp: mq_weight_def)
next
  case Exited
  with assms show ?thesis by (simp add: mq_inv_def)
qed

lemma consumer_leaves:
  assumes "mq_inv n xs s" "lockFreeQueue (mq s) = []" "producer_over s" "consumer s \<noteq> Exited"
  shows "\<exists>t. mq_step s t \<and> mq_weight t < mq_weight s"
proof (cases "consumer s")
  case AtDone
  have "done_flag (mq s)" using assms by (simp add: mq_inv_def)
  from mq_step.seen_done [OF AtDone this] AtDone show ?thesis by (force simp: mq_weight_def)
next
  case AtEmpty
  have "IsEmpty (mq s)" using assms(2) by (simp add: IsEmpty_def)
  from mq_step.leave [OF AtEmpty this] AtEmpty show ?thesis by (force simp: mq_weight_def)
next
  case AtPop
  have "Pop (mq s) = None" using assms(2) by (simp add: Pop_def)
  from mq_step.pop_fails [OF AtPop this] AtPop assms(2) show ?thesis by (force simp: mq_weight_def)
qed (use assms in simp)

lemma mq_progress:
  assumes "mq_inv n xs s" "0 < n" "\<not> mq_finished s"
  shows "\<exists>t. mq_step s t \<and> mq_weight t < mq_weight s"
proof (cases "lockFreeQueue (mq s) = []")
  case False
  with consumer_drains [OF assms(1)] show ?thesis by blast
next
  case True
  show ?thesis
  proof (cases "to_push s")
    case (Cons x ys)
    let ?q = "(mq s)\<lparr>lockFreeQueue := lockFreeQueue (mq s) @ [x]\<rparr>"
    have "try_enqueue x (mq s) = Some ?q" using True assms(1,2) by (simp add: try_enqueue_def mq_inv_def)
    from mq_step.push [OF Cons this] have "mq_step s (s\<lparr>to_push := ys, mq := ?q\<rparr>)" .
    moreover have "mq_weight (s\<lparr>to_push := ys, mq := ?q\<rparr>) < mq_weight s"
      using Cons True by (cases "consumer s") (simp_all add: mq_weight_def)
    ultimately show ?thesis by blast
  next
    case Nil
    show ?thesis
    proof (cases "producer_over s")
      case False
      let ?t = "s\<lparr>producer_over := True, mq := SetJobDoneFlag (mq s)\<rparr>"
      from mq_step.finish [OF Nil False] have "mq_step s ?t" .
      moreover have "mq_weight ?t < mq_weight s"
        using Nil False by (cases "consumer s") (simp_all add: mq_weight_def SetJobDoneFlag_def)
      ultimately show ?thesis by blast
    next
      case over: True
      with consumer_leaves [OF assms(1) True over] assms(3) show ?thesis by (simp add: mq_finished_def)
    qed
  qed
qed

lemma mq_reaches_end:
  assumes "mq_inv n xs s" "0 < n"
  shows "\<exists>t. mq_step\<^sup>*\<^sup>* s t \<and> mq_finished t \<and> mq_inv n xs t"
  using assms(1)
proof (induction "mq_weight s" arbitrary: s rule: less_induct)
  case less
  show ?case
  proof (cases "mq_finished s")
    case False
    from mq_progress [OF less.prems assms(2) False] obtain u where u: "mq_step s u" "mq_weight u < mq_weight s"
      by blast
    from less.hyps [OF u(2) mq_inv_step [OF u(1) less.prems]] u(1) show ?thesis
      by (meson converse_rtranclp_into_rtranclp)
  qed (use less.prems in auto)
qed

section \<open>Correctness of the protocol\<close>

text \<open>
  Whatever the interleaving, when the consumer has left its loop it has received exactly the pushed
  items in order, the producer is over, the queue is empty (so its destructor does not exit) and
  \<open>done_\<close> is cleared: the queue is ready for the next backup.
\<close>

theorem consumer_exit_complete:
  assumes "mq_reachable n xs s" "consumer s = Exited"
  shows "received s = xs \<and> producer_over s \<and> mq s = MessageQueue_new n \<and> MessageQueue_delete (mq s) = Inr ()"
  using mq_reachable_inv [OF assms(1)] assms(2)
  by (cases "mq s") (auto simp: mq_inv_def MessageQueue_new_def MessageQueue_delete_def IsEmpty_def)

theorem consumer_exit_complete_witness:
  "\<exists>s :: nat mq_sys. mq_reachable 2 [4] s \<and> consumer s = Exited \<and> received s = [4]"
proof -
  obtain t :: "nat mq_sys" where t: "mq_reachable 2 [4] t" "consumer t = Exited"
    using mq_reaches_end [OF mq_inv_init, of 2 "[4 :: nat]"] by (auto simp: mq_reachable_def mq_finished_def)
  from consumer_exit_complete [OF this] t show ?thesis by blast
qed

text \<open>
  The protocol cannot get stuck: with a queue of positive capacity, from every reachable state both
  threads can run to their end, and the consumer has then received everything.
\<close>

theorem protocol_can_finish:
  assumes "mq_reachable n xs s" "0 < n"
  shows "\<exists>t. mq_step\<^sup>*\<^sup>* s t \<and> mq_finished t \<and> received t = xs"
  using mq_reaches_end [OF mq_reachable_inv [OF assms(1)] assms(2)]
  by (auto simp: mq_inv_def mq_finished_def)

theorem protocol_can_finish_witness:
  "\<exists>t :: nat mq_sys. mq_step\<^sup>*\<^sup>* (mq_init 1 [4, 5]) t \<and> received t = [4, 5]"
  using protocol_can_finish [of 1 "[4, 5 :: nat]" "mq_init 1 [4, 5]"] by (auto simp: mq_reachable_def)

end
