(* ===== verification/Backup.thy ===== *)
theory Backup
  imports Dedup MessageQueue
begin

text \<open>
  The driver \<open>src/app/main.cc\<close>: the loop over the backups, each chunked by one thread and processed by the
  method in the other.  The queue between them delivers the pushed chunks in order (theory
  \<open>MessageQueue\<close>), so a backup is the sequential composition of both.
\<close>

section \<open>The loop over the backups\<close>

text \<open>
  \<open>LoadChunkFile\<close> ends the program when the file cannot be opened.  The queue is empty and \<open>done_\<close> is
  reset by the consumer when the next backup starts.
\<close>

definition LoadChunkFile :: "(string \<rightharpoonup> byte list) \<Rightarrow> string \<Rightarrow> byte list result" where
  "LoadChunkFile files path = (case files path of None \<Rightarrow> Inl ExitFailure | Some data \<Rightarrow> Inr data)"

definition main_backup ::
  "('m \<Rightarrow> string \<times> Chunk_t list \<Rightarrow> 'm result) \<Rightarrow> (string \<rightharpoonup> byte list) \<Rightarrow> string \<Rightarrow> Chunker \<times> 'm
    \<Rightarrow> (Chunker \<times> 'm) result option" where
  "main_backup job files name = (\<lambda>(c, m).
     case LoadChunkFile files name of
       Inl e \<Rightarrow> Some (Inl e)
     | Inr data \<Rightarrow>
         map_option (\<lambda>r. rbind r (\<lambda>c. rbind (job m (name, outputMQ c)) (\<lambda>m. Inr (c, m))))
           (Chunking data (c\<lparr>outputMQ := [], mq_done := False\<rparr>)))"

text \<open>\<open>backupNum\<close> may exceed the number of files: \<open>readfileList[i]\<close> is then out of range.\<close>

fun main_loop ::
  "('m \<Rightarrow> string \<times> Chunk_t list \<Rightarrow> 'm result) \<Rightarrow> (string \<rightharpoonup> byte list) \<Rightarrow> nat \<Rightarrow> string list \<Rightarrow> Chunker \<times> 'm
    \<Rightarrow> (Chunker \<times> 'm) result option" where
  "main_loop job files 0 names s = Some (Inr s)"
| "main_loop job files (Suc n) [] s = Some (Inl OutOfBounds)"
| "main_loop job files (Suc n) (name # names) s =
     (case main_backup job files name s of
        None \<Rightarrow> None
      | Some (Inl e) \<Rightarrow> Some (Inl e)
      | Some (Inr s) \<Rightarrow> main_loop job files n names s)"

section \<open>Chunkers that keep their configuration\<close>

text \<open>
  A chunker for the loop: it stays usable for the next file, and its chunks are well formed, not headers,
  at most \<open>hi\<close> bytes long, and concatenate to the file.
\<close>

locale backup_chunker =
  fixes ready :: "Chunker \<Rightarrow> bool" and hi :: nat
  assumes ready_upd: "ready c \<Longrightarrow> ready (c\<lparr>outputMQ := out, localOffset := off, mq_done := d\<rparr>)"
    and chunks: "ready c \<Longrightarrow> outputMQ c = [] \<Longrightarrow>
      \<exists>out off. Chunking f c = Some (Inr (c\<lparr>outputMQ := out, localOffset := off, mq_done := True\<rparr>))
        \<and> pieces out f \<and> sized 0 hi True out \<and> (\<forall>ch \<in> set out. \<not> HeaderFlag ch)"

lemma sized_weaken: "sized lo hi e out \<Longrightarrow> sized 0 hi e out"
  by (auto simp: sized_def)

lemma Chunking_cut_stateless:
  assumes "chunkType c \<in> {FIXED_SIZE, FASTCDC, GEARCDC}" "Chunking_cut buf len c = Inr (cp, c')"
  shows "c' = c"
  using assms by (cases "chunkType c") (auto simp: Chunking_cut_def Let_def split: if_splits)

lemma Chunking_body_pushes:
  assumes "chunkType c \<in> {FIXED_SIZE, FASTCDC, GEARCDC}" "Chunking_body buf len c = Some (Inr c')"
  shows "chunkType c' = chunkType c \<and> (outputMQ c' = outputMQ c \<or> (\<exists>ch. outputMQ c' = outputMQ c @ [ch] \<and> \<not> HeaderFlag ch))"
proof -
  from assms(1) have "chunkType c \<noteq> TAR_MultiHeader" by auto
  with assms(2) obtain cp c1 where cut: "Chunking_cut buf len c = Inr (cp, c1)"
    and r: "(if cp = 0 then Inr c1 else rbind (push_data False buf (localOffset c1) cp c1)
        (\<lambda>c. Inr (c\<lparr>localOffset := localOffset c + cp\<rparr>))) = Inr c'"
    by (auto simp: Chunking_body_def rbind_eq_Inr_iff)
  have "c1 = c" by (rule Chunking_cut_stateless [OF assms(1) cut])
  with r show ?thesis
    by (cases "cp = 0") (auto simp: push_data_def rbind_eq_Inr_iff simp del: append_same_eq split: if_splits)
qed

lemma Chunking_no_headers:
  assumes "Chunking f c = Some (Inr c')" "chunkType c \<in> {FIXED_SIZE, FASTCDC, GEARCDC}" "outputMQ c = []"
  shows "\<forall>ch \<in> set (outputMQ c'). \<not> HeaderFlag ch"
proof -
  let ?P = "\<lambda>c. chunkType c \<in> {FIXED_SIZE, FASTCDC, GEARCDC} \<and> (\<forall>ch \<in> set (outputMQ c). \<not> HeaderFlag ch)"
  from assms(1) obtain d where d: "read_loop (CONTAINER_MAX_SIZE * 16) Chunking_body f c = Some (Inr d)"
    "c' = d\<lparr>mq_done := True\<rparr>"
    by (auto simp: Chunking_def rbind_eq_Inr_iff)
  have "?P d"
  proof (rule read_loop_keeps [OF d(1), where P = ?P])
    fix buf len and c c' :: Chunker
    assume b: "Chunking_body buf len c = Some (Inr c')" and P: "?P c"
    from Chunking_body_pushes [OF P [THEN conjunct1] b] P
    show "?P c'" by auto
  qed (use assms(2,3) in auto)
  with d(2) show ?thesis by simp
qed

lemma backup_chunker_step:
  assumes "chunk_loop lo hi ct c" "chunkType c \<in> {FIXED_SIZE, FASTCDC, GEARCDC}" "outputMQ c = []"
  shows "\<exists>out off. Chunking f c = Some (Inr (c\<lparr>outputMQ := out, localOffset := off, mq_done := True\<rparr>))
    \<and> pieces out f \<and> sized 0 hi True out \<and> (\<forall>ch \<in> set out. \<not> HeaderFlag ch)"
proof -
  obtain out off where s: "Chunking f c = Some (Inr (c\<lparr>outputMQ := out, localOffset := off, mq_done := True\<rparr>))"
    "pieces out f" "sized lo hi True out"
    using chunk_loop.Chunking_state [OF assms(1), of f] assms(3) by auto
  from Chunking_no_headers [OF s(1) assms(2,3)] s sized_weaken show ?thesis by fastforce
qed

definition fixed_ready :: "Chunker \<Rightarrow> bool" where
  "fixed_ready c \<longleftrightarrow> chunkType c = FIXED_SIZE \<and> avgChunkSize c = 8192"

definition fastcdc_ready :: "Chunker \<Rightarrow> bool" where
  "fastcdc_ready c \<longleftrightarrow> chunkType c = FASTCDC \<and> cdc_ok c \<and> minChunkSize c = 4096 \<and> maxChunkSize c = 16384"

interpretation fixed_files: backup_chunker fixed_ready 8192
proof unfold_locales
  fix c :: Chunker and f
  assume "fixed_ready c" "outputMQ c = []"
  then show "\<exists>out off. Chunking f c = Some (Inr (c\<lparr>outputMQ := out, localOffset := off, mq_done := True\<rparr>))
      \<and> pieces out f \<and> sized 0 8192 True out \<and> (\<forall>ch \<in> set out. \<not> HeaderFlag ch)"
    using backup_chunker_step [OF chunk_loop_FIXED, of c f] by (simp add: fixed_ready_def size_consts)
qed (simp add: fixed_ready_def)

interpretation fastcdc_files: backup_chunker fastcdc_ready 16384
proof unfold_locales
  fix c :: Chunker and f
  assume "fastcdc_ready c" "outputMQ c = []"
  then show "\<exists>out off. Chunking f c = Some (Inr (c\<lparr>outputMQ := out, localOffset := off, mq_done := True\<rparr>))
      \<and> pieces out f \<and> sized 0 16384 True out \<and> (\<forall>ch \<in> set out. \<not> HeaderFlag ch)"
    using backup_chunker_step [OF chunk_loop_FASTCDC, of c f] by (simp add: fastcdc_ready_def size_consts)
qed (simp add: fastcdc_ready_def cdc_ok_def)

text \<open>The loop is a run of the jobs of the method over the chunks of the files, for every method.\<close>

context backup_chunker
begin

lemma main_backup_job:
  assumes "ready c" "files name = Some data"
  shows "\<exists>c' chunks. ready c' \<and> pieces chunks data \<and> sized 0 hi True chunks \<and> (\<forall>ch \<in> set chunks. \<not> HeaderFlag ch)
    \<and> (\<forall>m. main_backup job files name (c, m) = Some (rbind (job m (name, chunks)) (\<lambda>m. Inr (c', m))))"
proof -
  let ?c = "c\<lparr>outputMQ := [], mq_done := False\<rparr>"
  have "ready ?c" using ready_upd [OF assms(1), where out = "[]" and off = "localOffset c" and d = False] by simp
  then obtain out off where "Chunking data ?c = Some (Inr (?c\<lparr>outputMQ := out, localOffset := off, mq_done := True\<rparr>))"
    "pieces out data" "sized 0 hi True out" "\<forall>ch \<in> set out. \<not> HeaderFlag ch"
    using chunks [of ?c data] by auto
  with ready_upd [OF assms(1), where out = out and off = off and d = True] assms(2) show ?thesis
    by (intro exI [of _ "c\<lparr>outputMQ := out, localOffset := off, mq_done := True\<rparr>"] exI [of _ out])
      (auto simp: main_backup_def LoadChunkFile_def)
qed

lemma main_loop_jobs:
  assumes "ready c" "n \<le> length names" "\<forall>name \<in> set (take n names). files name \<noteq> None"
  shows "\<exists>c' jobs. map fst jobs = take n names
    \<and> (\<forall>(name, chunks) \<in> set jobs. pieces chunks (the (files name)) \<and> sized 0 hi True chunks \<and> (\<forall>ch \<in> set chunks. \<not> HeaderFlag ch))
    \<and> (\<forall>m. main_loop job files n names (c, m) = Some (rbind (rfold job m jobs) (\<lambda>m. Inr (c', m))))"
  using assms
proof (induction n arbitrary: names c)
  case 0
  then show ?case by (intro exI [of _ c] exI [of _ "[]"]) simp
next
  case (Suc n)
  then obtain name names' data where ns: "names = name # names'" "files name = Some data" by (cases names) auto
  obtain c1 chunks where b: "ready c1" "pieces chunks data" "sized 0 hi True chunks" "\<forall>ch \<in> set chunks. \<not> HeaderFlag ch"
    "\<forall>m. main_backup job files name (c, m) = Some (rbind (job m (name, chunks)) (\<lambda>m. Inr (c1, m)))"
    using main_backup_job [where files = files and job = job, OF Suc.prems(1) ns(2)] by blast
  obtain c' jobs where j: "map fst jobs = take n names'"
    "\<forall>(name, chunks) \<in> set jobs. pieces chunks (the (files name)) \<and> sized 0 hi True chunks \<and> (\<forall>ch \<in> set chunks. \<not> HeaderFlag ch)"
    "\<forall>m. main_loop job files n names' (c1, m) = Some (rbind (rfold job m jobs) (\<lambda>m. Inr (c', m)))"
    using Suc.IH [OF b(1), of names'] Suc.prems(2,3) ns(1) by auto
  have "main_loop job files (Suc n) names (c, m) = Some (rbind (rfold job m ((name, chunks) # jobs)) (\<lambda>m. Inr (c', m)))" for m
    using b(5) j(3) ns(1) by (cases "job m (name, chunks)") simp_all
  then show ?case
    using b j ns by (intro exI [of _ c'] exI [of _ "(name, chunks) # jobs"]) auto
qed

end

section \<open>Chunker, method and store together\<close>

text \<open>The non-empty contiguous parts of a file, and of several files: what a chunk can contain.\<close>

definition blocks :: "byte list \<Rightarrow> byte list set" where
  "blocks data = {b. b \<noteq> [] \<and> (\<exists>us vs. data = us @ b @ vs)}"

lemma pieces_blocks: "pieces out data \<Longrightarrow> ch \<in> set out \<Longrightarrow> chunkPtr ch \<in> blocks data"
  unfolding pieces_def blocks_def by (auto simp: chunk_wf_def dest!: split_list) blast

locale pipeline = backup_run x step inv store okc job start finish left + backup_chunker ready hi
  for x :: env and step :: "'m \<Rightarrow> Chunk_t \<Rightarrow> 'm result" and inv store okc job start finish left ready hi +
  fixes C :: "byte list set"
  assumes okc_small: "chunk_wf ch \<Longrightarrow> chunkSize ch \<le> hi \<Longrightarrow> \<not> HeaderFlag ch \<Longrightarrow> chunkPtr ch \<in> C \<Longrightarrow> okc ch"
begin

theorem main_loop_ok:
  assumes "inv m" "left n m" "ready c" "n \<le> length names" "distinct (take n names)"
    and "\<forall>name \<in> set (take n names). files name \<noteq> None \<and> RecipeMap (store m) name = [] \<and> blocks (the (files name)) \<subseteq> C"
  shows "\<exists>c' m'. main_loop job files n names (c, m) = Some (Inr (c', m')) \<and> inv m' \<and> writable (store m') = writable (store m)
    \<and> (\<forall>name \<in> set (take n names). holds_backup x (store m') name (the (files name)))"
proof -
  obtain c' jobs where j: "map fst jobs = take n names"
    "\<forall>(name, chunks) \<in> set jobs. pieces chunks (the (files name)) \<and> sized 0 hi True chunks \<and> (\<forall>ch \<in> set chunks. \<not> HeaderFlag ch)"
    "\<forall>m. main_loop job files n names (c, m) = Some (rbind (rfold job m jobs) (\<lambda>m. Inr (c', m)))"
    using main_loop_jobs [where files = files and job = job, OF assms(3,4)] assms(6) by blast
  have len: "length jobs = n" using arg_cong [OF j(1), of length] assms(4) by simp
  have names: "fst ` set jobs = set (take n names)" using j(1) by (metis image_set)
  have fst: "name \<in> set (take n names)" if "(name, chunks) \<in> set jobs" for name chunks
    unfolding names [symmetric] by (rule image_eqI [OF _ that]) simp
  have "list_all okc chunks" if "(name, chunks) \<in> set jobs" for name chunks
  proof -
    have p: "pieces chunks (the (files name))" "sized 0 hi True chunks" "\<forall>ch \<in> set chunks. \<not> HeaderFlag ch"
      "blocks (the (files name)) \<subseteq> C"
      using j(2) that assms(6) fst [OF that] by auto
    then show ?thesis
      using pieces_blocks [OF p(1)] by (auto intro!: okc_small simp: list_all_iff pieces_def sized_def)
  qed
  then have "\<forall>j \<in> set jobs. list_all okc (snd j)" by auto
  moreover have "distinct (map fst jobs)" using j(1) assms(5) by simp
  moreover have "\<forall>name \<in> fst ` set jobs. RecipeMap (store m) name = []" unfolding names using assms(6) by simp
  ultimately obtain m' where m': "rfold job m jobs = Inr m'" "inv m'" "writable (store m') = writable (store m)"
    "list_all (\<lambda>(name, chunks). holds_backup x (store m') name (concat (map chunkPtr chunks))) jobs"
    using run_keeps_all [OF assms(1), of jobs] len assms(2) by blast
  have "holds_backup x (store m') name (the (files name))" if "name \<in> set (take n names)" for name
  proof -
    have "name \<in> fst ` set jobs" unfolding names by (rule that)
    then obtain chunks where "(name, chunks) \<in> set jobs" by force
    from bspec [OF j(2) this] bspec [OF m'(4) [unfolded list_all_iff] this] show ?thesis by (simp add: pieces_def)
  qed
  with m' j(3) show ?thesis by auto
qed

text \<open>Every backed-up file is restored exactly.\<close>

theorem main_restores:
  assumes "inv m" "left n m" "ready c" "n \<le> length names" "distinct (take n names)" "\<forall>path. writable (store m) path"
    and "\<forall>name \<in> set (take n names). files name \<noteq> None \<and> RecipeMap (store m) name = [] \<and> blocks (the (files name)) \<subseteq> C"
  shows "\<exists>c' m'. main_loop job files n names (c, m) = Some (Inr (c', m'))
    \<and> (\<forall>name \<in> set (take n names). \<exists>dw'. restoreFile x name (store m') = Inr dw' \<and> fs dw' (restore_path name) = files name)"
proof -
  from main_loop_ok [OF assms(1-5,7)] obtain c' m' where
    r: "main_loop job files n names (c, m) = Some (Inr (c', m'))" "inv m'" "writable (store m') = writable (store m)"
      "\<forall>name \<in> set (take n names). holds_backup x (store m') name (the (files name))" by blast
  then have "\<exists>dw'. restoreFile x name (store m') = Inr dw' \<and> fs dw' (restore_path name) = files name"
    if "name \<in> set (take n names)" for name
    using that holds_backup_restores [OF inv_store [OF r(2)], of x name "the (files name)"] assms(6,7) by force
  with r(1) show ?thesis by blast
qed

end

text \<open>Nothing changes when the caller updates statistics after every backup.\<close>

context pipeline
begin

lemma main_restores_logged:
  assumes "\<And>m. inv m \<Longrightarrow> inv (lg m)" "\<And>n m. left n m \<Longrightarrow> left n (lg m)" "\<And>m. store (lg m) = store m"
    and "inv m" "left n m" "ready c" "n \<le> length names" "distinct (take n names)" "\<forall>path. writable (store m) path"
    and "\<forall>name \<in> set (take n names). files name \<noteq> None \<and> RecipeMap (store m) name = [] \<and> blocks (the (files name)) \<subseteq> C"
  shows "\<exists>c' m'. main_loop (\<lambda>m j. rbind (job m j) (\<lambda>m. Inr (lg m))) files n names (c, m) = Some (Inr (c', m'))
    \<and> (\<forall>name \<in> set (take n names). \<exists>dw'. restoreFile x name (store m') = Inr dw' \<and> fs dw' (restore_path name) = files name)"
proof -
  have "pipeline x step inv store okc (\<lambda>m j. rbind (job m j) (\<lambda>m. Inr (lg m))) start (\<lambda>m. lg (finish m)) left ready hi C"
    by (unfold_locales; (erule (3) step_left)?)
      (simp_all add: job_eq rbind_assoc assms(1-3) start_inv start_left finish_inv finish_left start_store finish_store okc_small)
  from pipeline.main_restores [OF this assms(4-)] show ?thesis .
qed

end

text \<open>The chunkers of \<open>chunkType\<close> 0 and 1.\<close>

definition std_ready :: "Chunker \<Rightarrow> bool" where
  "std_ready c \<longleftrightarrow> fixed_ready c \<or> fastcdc_ready c"

lemma sized_mono: "sized lo hi e out \<Longrightarrow> hi \<le> hi' \<Longrightarrow> sized lo hi' e out"
  by (auto simp: sized_def)

interpretation std_files: backup_chunker std_ready 16384
proof unfold_locales
  fix c :: Chunker and f
  assume "std_ready c" "outputMQ c = []"
  then show "\<exists>out off. Chunking f c = Some (Inr (c\<lparr>outputMQ := out, localOffset := off, mq_done := True\<rparr>))
      \<and> pieces out f \<and> sized 0 16384 True out \<and> (\<forall>ch \<in> set out. \<not> HeaderFlag ch)"
    using fixed_files.chunks [of c f] fastcdc_files.chunks [of c f] sized_mono [of 0 8192 True _ 16384]
    unfolding std_ready_def by fastforce
qed (auto simp: std_ready_def intro: fixed_files.ready_upd fastcdc_files.ready_upd)

interpretation dedup_files: pipeline x "dedup_chunk x" "\<lambda>m. lz4_law x \<and> hash_law x C \<and> dedup_inv x C m" dataWrite
    "dedup_chunk_ok C" "Dedup_backup x" set_backup "\<lambda>m. m\<lparr>ads_Version := Suc (ads_Version m)\<rparr>" "\<lambda>n m. True" std_ready 16384 C
  for x C
  by unfold_locales (auto simp: dedup_chunk_ok_def size_consts)

lemma Chunker_new_std: "t \<in> {0, 1} \<Longrightarrow> Chunker_new t = Inr c \<Longrightarrow> std_ready c"
  using fastcdc0_ok
  by (auto simp: std_ready_def Chunker_new_def ChunkTypeNum_of_int_def fixed_ready_def fastcdc_ready_def
      fixed0_def [symmetric] fastcdc0_def [symmetric])

lemma new_method_store:
  "RecipeMap (dataWrite (AbsMethod_new (dataWrite_new f w))) = (\<lambda>_. [])"
  "writable (dataWrite (AbsMethod_new (dataWrite_new f w))) = w"
  by (simp_all add: AbsMethod_new_def dataWrite_new_def Let_def)

definition file_blocks :: "(string \<rightharpoonup> byte list) \<Rightarrow> string list \<Rightarrow> byte list set" where
  "file_blocks files names = (\<Union>name \<in> set names. blocks (the (files name)))"

lemma blocks_12: "blocks [1, 2] = {[1], [2], [1, 2 :: byte]}"
  by (auto simp: blocks_def Cons_eq_append_conv append_eq_Cons_conv)

end
