(* ===== verification/Delta.thy ===== *)
theory Delta
  imports Backup
begin

text \<open>
  What the methods with similarity detection share (\<open>src/method/Finesse.cc\<close>, \<open>NTrans.cc\<close>, \<open>palantir.cc\<close>): a
  unique chunk is stored as a base, compressed with LZ4, or as a delta against a similar base chunk.
  The invariant \<open>delta_inv\<close> records that the similarity index only names base chunks, so that a delta
  can always be decoded in one step; the lemmas about both ways to store a chunk serve all methods.
\<close>

section \<open>Storing a unique chunk\<close>

text \<open>Base chunks: compressed when that saves space, with the place left to the store.\<close>

definition store_base :: "env \<Rightarrow> Chunk_t \<Rightarrow> 'z AbsMethod_scheme \<Rightarrow> (Chunk_t \<times> 'z AbsMethod_scheme) result" where
  "store_base x ch m =
     rbind (lz4_chunk x ch) (\<lambda>(ch, buf).
     let ch = ch\<lparr>basechunkID := - 1\<rparr> in
     rbind (if deltaFlag ch = NO_LZ4 then Chunk_Insert ch (dataWrite m) else Chunk_Insert_lz4 ch buf (dataWrite m))
       (\<lambda>dw. Inr (ch, m\<lparr>dataWrite := dw, basechunkNum := Suc (basechunkNum m),
          basechunkSize := basechunkSize m + of_nat (saveSize ch),
          LocalReduct := LocalReduct m + (of_nat (chunkSize ch) - of_nat (saveSize ch))\<rparr>)))"

text \<open>The delta of a chunk against a base that is read from the store.\<close>

definition encode_delta :: "env \<Rightarrow> int \<Rightarrow> Chunk_t \<Rightarrow> dataWrite \<Rightarrow> (byte list \<times> dataWrite) result" where
  "encode_delta x base ch dw =
     rbind (Get_Chunk_Info x base dw) (\<lambda>(b, dw).
     rbind (read_ptr (chunkSize ch) (chunkPtr ch)) (\<lambda>target.
     rbind (read_ptr (chunkSize b) (chunkPtr b)) (\<lambda>ref.
     rbind (xd3_encode x target ref) (\<lambda>d. Inr (d, dw)))))"

text \<open>
  The delta is copied over the chunk, whose buffer has \<open>chunkSize\<close> bytes: a longer delta writes past it.
\<close>

definition put_delta ::
  "DELTA_TYPE \<Rightarrow> int \<Rightarrow> byte list \<Rightarrow> Chunk_t \<Rightarrow> 'z AbsMethod_scheme \<Rightarrow> (Chunk_t \<times> 'z AbsMethod_scheme) result" where
  "put_delta flag base d ch m =
     (if length d > length (chunkPtr ch) then Inl OutOfBounds
      else let ch = ch\<lparr>saveSize := length d, deltaFlag := flag, basechunkID := base,
                       chunkPtr := overwrite 0 d (chunkPtr ch)\<rparr> in
        rbind (StatsDelta ch m) (\<lambda>m.
        rbind (Chunk_Insert ch (dataWrite m)) (\<lambda>dw. Inr (ch, m\<lparr>dataWrite := dw\<rparr>))))"

definition store_delta ::
  "env \<Rightarrow> DELTA_TYPE \<Rightarrow> int \<Rightarrow> Chunk_t \<Rightarrow> 'z AbsMethod_scheme \<Rightarrow> (Chunk_t \<times> 'z AbsMethod_scheme) result" where
  "store_delta x flag base ch m =
     rbind (encode_delta x base ch (dataWrite m)) (\<lambda>(d, dw).
       if d = [] then Inl DeltaError else put_delta flag base d ch (m\<lparr>dataWrite := dw\<rparr>))"

definition count_unique :: "Chunk_t \<times> 'z AbsMethod_scheme \<Rightarrow> (Chunk_t \<times> 'z AbsMethod_scheme) result" where
  "count_unique = (\<lambda>(ch, m).
     Inr (ch, m\<lparr>uniquechunkNum := Suc (uniquechunkNum m), uniquechunkSize := uniquechunkSize m + of_nat (saveSize ch)\<rparr>))"

text \<open>
  The frame of every \<open>ProcessTrace\<close>: hash the chunk, look it up, store it or use the stored one, and enter it
  in the recipe.
\<close>

definition process_chunk ::
  "env \<Rightarrow> (byte list \<Rightarrow> Chunk_t \<Rightarrow> 'z AbsMethod_scheme \<Rightarrow> (Chunk_t \<times> 'z AbsMethod_scheme) result)
    \<Rightarrow> (int \<Rightarrow> Chunk_t \<Rightarrow> 'z AbsMethod_scheme \<Rightarrow> (Chunk_t \<times> 'z AbsMethod_scheme) result)
    \<Rightarrow> 'z AbsMethod_scheme \<Rightarrow> Chunk_t \<Rightarrow> 'z AbsMethod_scheme result" where
  "process_chunk x unique dup m ch =
     rbind (read_ptr (chunkSize ch) (chunkPtr ch)) (\<lambda>data.
     rbind (GenerateHash x data) (\<lambda>h.
     let i = FP_Find h m in
     rbind (if i = - 1 then unique h ch m else dup i ch m)
       (\<lambda>(ch, m). Inr (note_recipe ch m))))"

section \<open>The invariant\<close>

text \<open>
  \<open>feat b k\<close> says that the content \<open>b\<close> has the feature \<open>k\<close>.  What the methods rely on in xdelta3 on contents
  of \<open>C\<close> that share a feature: the encoder succeeds, the decoder inverts it, and the delta is neither
  empty nor longer than the chunk it replaces.
\<close>

definition xd3_law :: "env \<Rightarrow> byte list set \<Rightarrow> (byte list \<Rightarrow> 'k \<Rightarrow> bool) \<Rightarrow> bool" where
  "xd3_law x C feat \<longleftrightarrow> (\<forall>t \<in> C. \<forall>b \<in> C. \<forall>k. feat t k \<longrightarrow> feat b k \<longrightarrow> (\<exists>d. xd3_encode_memory x t b (CONTAINER_MAX_SIZE * 2) = Some d
     \<and> d \<noteq> [] \<and> length d \<le> length t \<and> xd3_decode_memory x d b (CONTAINER_MAX_SIZE * 2) = Some t))"

definition known :: "env \<Rightarrow> (Chunk_t \<times> byte list) list \<Rightarrow> nat \<Rightarrow> byte list \<Rightarrow> bool" where
  "known x es k b \<longleftrightarrow> k < length es \<and> good x es k b \<and> chunkID (fst (es ! k)) = k \<and> \<not> HeaderFlag (fst (es ! k))
     \<and> (deltaFlag (fst (es ! k)) \<in> {NO_DELTA, NO_LZ4} \<longrightarrow> plain_entry x k (es ! k) b)"

definition base_known :: "env \<Rightarrow> byte list set \<Rightarrow> (Chunk_t \<times> byte list) list \<Rightarrow> int \<Rightarrow> bool" where
  "base_known x C es i \<longleftrightarrow> (\<exists>k < length es. \<exists>b \<in> C. i = int k \<and> plain_entry x k (es ! k) b)"

text \<open>\<open>ids\<close> holds the pairs of a feature and a chunk that the similarity index names for it.\<close>

definition delta_inv :: "env \<Rightarrow> byte list set \<Rightarrow> (byte list \<Rightarrow> 'k \<Rightarrow> bool) \<Rightarrow> ('k \<times> int) set \<Rightarrow> 'z AbsMethod_scheme \<Rightarrow> bool" where
  "delta_inv x C feat ids m \<longleftrightarrow> (let es = store_abs (dataWrite m) in
     dw_inv (dataWrite m) \<and> uniquechunkNum m = length es \<and> (\<forall>(k, i) \<in> ids. base_known x {b \<in> C. feat b k} es i)
     \<and> (\<forall>h i. FPindex m h = Some i \<longrightarrow> (\<exists>k. \<exists>b \<in> C. i = int k \<and> known x es k b \<and> sha256 x b = Some h)))"

lemma known_append: "known x es k b \<Longrightarrow> known x (es @ es') k b"
  by (auto simp: known_def good_append nth_append)

lemma base_known_append: "base_known x C es i \<Longrightarrow> base_known x C (es @ es') i"
  unfolding base_known_def by (metis (no_types, lifting) length_append nth_append trans_less_add1)

text \<open>What storing a unique chunk with content \<open>b\<close> has to achieve.\<close>

definition stored :: "env \<Rightarrow> byte list \<Rightarrow> byte list \<Rightarrow> 'z AbsMethod_scheme \<Rightarrow> Chunk_t \<Rightarrow> 'z AbsMethod_scheme \<Rightarrow> bool" where
  "stored x h b m ch m' \<longleftrightarrow> (\<exists>e. store_abs (dataWrite m') = store_abs (dataWrite m) @ [e]
     \<and> known x (store_abs (dataWrite m')) (uniquechunkNum m) b \<and> dw_inv (dataWrite m')
     \<and> chunkID ch = uniquechunkNum m \<and> \<not> HeaderFlag ch \<and> recipes (dataWrite m') = recipes (dataWrite m)
     \<and> uniquechunkNum m' = Suc (uniquechunkNum m) \<and> FPindex m' = (FPindex m)(h \<mapsto> int (uniquechunkNum m)))"

lemma stored_inv:
  assumes "delta_inv x C feat ids m" "stored x h b m ch m'" "b \<in> C" "sha256 x b = Some h"
    and "\<forall>(k, i) \<in> ids'. (k, i) \<in> ids \<or> base_known x {b \<in> C. feat b k} (store_abs (dataWrite m')) i"
  shows "delta_inv x C feat ids' m'"
proof -
  let ?es = "store_abs (dataWrite m)" and ?es' = "store_abs (dataWrite m')"
  obtain e where e: "?es' = ?es @ [e]" "known x ?es' (uniquechunkNum m) b" "dw_inv (dataWrite m')"
    "uniquechunkNum m' = Suc (uniquechunkNum m)" "FPindex m' = (FPindex m)(h \<mapsto> int (uniquechunkNum m))"
    using assms(2) by (auto simp: stored_def)
  have i: "uniquechunkNum m = length ?es" "\<And>k i. (k, i) \<in> ids \<Longrightarrow> base_known x {b \<in> C. feat b k} ?es i"
    and f: "\<And>h i. FPindex m h = Some i \<Longrightarrow> \<exists>k. \<exists>b \<in> C. i = int k \<and> known x ?es k b \<and> sha256 x b = Some h"
    using assms(1) by (auto simp: delta_inv_def Let_def)
  have "\<exists>k. \<exists>b \<in> C. i = int k \<and> known x ?es' k b \<and> sha256 x b = Some h'" if "FPindex m' h' = Some i" for h' i
  proof (cases "h' = h")
    case True
    with that e assms(3,4) show ?thesis by auto
  next
    case False
    with that e(5) f [of h' i] show ?thesis unfolding e(1) using known_append by fastforce
  qed
  moreover have "base_known x {b \<in> C. feat b k} ?es' i" if "(k, i) \<in> ids'" for k i
    using that assms(5) i(2) [of k i] base_known_append e(1) by fastforce
  ultimately show ?thesis using e(1,3,4) i(1) by (auto simp: delta_inv_def Let_def)
qed

text \<open>The store part of it, before the chunk is counted.\<close>

definition stores :: "env \<Rightarrow> byte list \<Rightarrow> 'z AbsMethod_scheme \<Rightarrow> Chunk_t \<Rightarrow> 'z AbsMethod_scheme \<Rightarrow> bool" where
  "stores x b m ch m' \<longleftrightarrow> (let es = store_abs (dataWrite m); es' = store_abs (dataWrite m') in
     (\<exists>e. es' = es @ [e]) \<and> known x es' (length es) b \<and> dw_inv (dataWrite m')
     \<and> chunkID ch = length es \<and> \<not> HeaderFlag ch \<and> recipes (dataWrite m') = recipes (dataWrite m)
     \<and> uniquechunkNum m' = uniquechunkNum m \<and> FPindex m' = FPindex m)"

definition appended :: "env \<Rightarrow> byte list \<Rightarrow> 'z AbsMethod_scheme \<Rightarrow> Chunk_t \<Rightarrow> 'z AbsMethod_scheme \<Rightarrow> bool" where
  "appended x b m ch m' \<longleftrightarrow> stores x b m ch m' \<and> SFindex m' = SFindex m \<and> chunker m' = chunker m
     \<and> AbsMethod.more m' = AbsMethod.more m"

lemma store_base_ok:
  assumes "lz4_law x" "chunk_wf ch" "chunkSize ch \<le> CONTAINER_MAX_SIZE" "\<not> HeaderFlag ch"
    and inv: "dw_inv (dataWrite m)" and k: "chunkID ch = length (store_abs (dataWrite m))"
  shows "\<exists>ch' m'. store_base x ch m = Inr (ch', m') \<and> appended x (chunkPtr ch) m ch' m'
    \<and> plain_entry x (chunkID ch) (store_abs (dataWrite m') ! chunkID ch) (chunkPtr ch)"
proof -
  obtain f n buf where l: "lz4_chunk x ch = Inr (ch\<lparr>deltaFlag := f, saveSize := n\<rparr>, buf)" "n \<le> CONTAINER_MAX_SIZE"
    and fn: "f = NO_LZ4 \<and> n = chunkSize ch
       \<or> f = NO_DELTA \<and> n = length buf \<and> lz4_decompress x buf CONTAINER_MAX_SIZE = Some (chunkPtr ch)"
    using lz4_chunk_ok [OF assms(1-3)] by blast
  define c where "c = ch\<lparr>deltaFlag := f, saveSize := n, basechunkID := - 1\<rparr>"
  have len: "chunkSize ch = length (chunkPtr ch)" using assms(2) by (simp add: chunk_wf_def)
  define src where "src = (if f = NO_LZ4 then chunkPtr ch else buf)"
  define ins where "ins = (if f = NO_LZ4 then Chunk_Insert c (dataWrite m) else Chunk_Insert_lz4 c buf (dataWrite m))"
  have "\<exists>dw. ins = Inr dw
      \<and> dw_inv dw \<and> store_abs dw = store_abs (dataWrite m) @ [(core c, take n src)] \<and> recipes dw = recipes (dataWrite m)"
    using fn l(2) len store.raw_ok [OF inv, of c] store.lz4_ok [OF inv, of c buf] by (auto simp: src_def c_def ins_def)
  then obtain dw where dw: "ins = Inr dw" "dw_inv dw"
    "store_abs dw = store_abs (dataWrite m) @ [(core c, take n src)]" "recipes dw = recipes (dataWrite m)" by blast
  have p: "plain_entry x (chunkID ch) (core c, take n src) (chunkPtr ch)"
    using fn len assms(4) by (auto simp: plain_entry_def decode_def src_def c_def)
  then have "known x (store_abs dw) (chunkID ch) (chunkPtr ch)"
    using plain_entry_good [of "chunkID ch" "store_abs dw" x "chunkPtr ch"] k assms(4)
    by (simp add: known_def dw(3) c_def plain_entry_def)
  then have "appended x (chunkPtr ch) m c (m\<lparr>dataWrite := dw, basechunkNum := Suc (basechunkNum m),
      basechunkSize := basechunkSize m + of_nat n, LocalReduct := LocalReduct m + (of_nat (chunkSize ch) - of_nat n)\<rparr>)"
    using dw(2-4) k assms(4) by (simp add: appended_def stores_def Let_def) (simp add: c_def)
  moreover have "store_base x ch m = Inr (c, m\<lparr>dataWrite := dw, basechunkNum := Suc (basechunkNum m),
      basechunkSize := basechunkSize m + of_nat n, LocalReduct := LocalReduct m + (of_nat (chunkSize ch) - of_nat n)\<rparr>)"
    using l(1) dw(1) by (cases "f = NO_LZ4") (simp_all add: store_base_def ins_def c_def Let_def)
  ultimately show ?thesis using p dw(3) k by auto
qed

lemma StatsDelta_ok:
  assumes "saveSize ch \<noteq> 0"
  shows "\<exists>m'. StatsDelta ch m = Inr m' \<and> dataWrite m' = dataWrite m \<and> uniquechunkNum m' = uniquechunkNum m
    \<and> FPindex m' = FPindex m \<and> SFindex m' = SFindex m \<and> chunker m' = chunker m \<and> AbsMethod.more m' = AbsMethod.more m"
  using assms by (simp add: StatsDelta_def)

lemma encode_delta_ok:
  assumes "xd3_law x C feat" "chunk_wf ch" "chunkPtr ch \<in> C" "dw_inv dw"
    and "feat (chunkPtr ch) key" "base_known x {b \<in> C. feat b key} (store_abs dw) base"
  shows "\<exists>d k b dw'. encode_delta x base ch dw = Inr (d, dw') \<and> d \<noteq> [] \<and> length d \<le> chunkSize ch
    \<and> base = int k \<and> k < length (store_abs dw) \<and> plain_entry x k (store_abs dw ! k) b
    \<and> xd3_decode_memory x d b (CONTAINER_MAX_SIZE * 2) = Some (chunkPtr ch)
    \<and> dw_inv dw' \<and> store_abs dw' = store_abs dw \<and> recipes dw' = recipes dw"
proof -
  from assms(6) obtain k b where k: "k < length (store_abs dw)" "b \<in> C \<and> feat b key" "base = int k" "plain_entry x k (store_abs dw ! k) b"
    by (auto simp: base_known_def)
  then have dec: "decode x (fst (store_abs dw ! k)) (snd (store_abs dw ! k)) = Inr b" by (simp add: plain_entry_def)
  obtain bch dw' where g: "Get_Chunk_Info x (int k) dw = Inr (bch, dw')" "core bch = fst (store_abs dw ! k)"
    "chunkPtr bch = b" "dw_inv dw'" "store_abs dw' = store_abs dw" "recipes dw' = recipes dw"
    using store.get_ok [OF assms(4) k(1) dec] by blast
  have "chunkSize bch = length b" using g(2) k(4) core_sel(2) [of bch] by (simp add: plain_entry_def)
  moreover obtain d where "xd3_encode_memory x (chunkPtr ch) b (CONTAINER_MAX_SIZE * 2) = Some d" "d \<noteq> []"
    "length d \<le> length (chunkPtr ch)" "xd3_decode_memory x d b (CONTAINER_MAX_SIZE * 2) = Some (chunkPtr ch)"
    using assms(1,3,5) k(2) unfolding xd3_law_def by blast
  ultimately show ?thesis
    using g k assms(2) by (auto simp: encode_delta_def read_ptr_def xd3_encode_def chunk_wf_def)
qed

lemma delta_entry_good:
  assumes "k < length es" "plain_entry x k (es ! k) b" "flag \<notin> {NO_DELTA, NO_LZ4}"
    and "deltaFlag ch = flag" "basechunkID ch = int k" "chunkSize ch = length t" "saveSize ch = length d"
    and "xd3_decode_memory x d b (CONTAINER_MAX_SIZE * 2) = Some t"
  shows "good x (es @ [(ch, d)]) (length es) t"
proof -
  obtain bk bp where e: "es ! k = (bk, bp)" by (cases "es ! k")
  with assms(2) have "decode x bk bp = Inr b" "chunkSize bk = length b" by (simp_all add: plain_entry_def)
  with assms e show ?thesis
    by (simp add: good_def base_ok_def content_def nth_append read_ptr_def xd3_decode_def)
qed

lemma put_delta_ok:
  assumes "chunk_wf ch" "chunkSize ch \<le> CONTAINER_MAX_SIZE" "\<not> HeaderFlag ch" "flag \<notin> {NO_DELTA, NO_LZ4}"
    and inv: "dw_inv (dataWrite m)" and id: "chunkID ch = length (store_abs (dataWrite m))"
    and d: "d \<noteq> []" "length d \<le> chunkSize ch" "xd3_decode_memory x d b (CONTAINER_MAX_SIZE * 2) = Some (chunkPtr ch)"
    and k: "k < length (store_abs (dataWrite m))" "plain_entry x k (store_abs (dataWrite m) ! k) b"
  shows "\<exists>ch' m'. put_delta flag (int k) d ch m = Inr (ch', m') \<and> appended x (chunkPtr ch) m ch' m'"
proof -
  let ?es = "store_abs (dataWrite m)"
  define c where "c = ch\<lparr>saveSize := length d, deltaFlag := flag, basechunkID := int k, chunkPtr := overwrite 0 d (chunkPtr ch)\<rparr>"
  have len: "chunkSize ch = length (chunkPtr ch)" using assms(1) by (simp add: chunk_wf_def)
  obtain m1 where m1: "StatsDelta c m = Inr m1" "dataWrite m1 = dataWrite m" "uniquechunkNum m1 = uniquechunkNum m"
    "FPindex m1 = FPindex m" "SFindex m1 = SFindex m" "chunker m1 = chunker m" "AbsMethod.more m1 = AbsMethod.more m"
    using StatsDelta_ok [of c m] d(1) by (auto simp: c_def)
  have "take (saveSize c) (chunkPtr c) = d" "saveSize c \<le> length (chunkPtr c)"
    using d(2) len by (simp_all add: c_def overwrite_def)
  with store.raw_ok [OF inv, of c] obtain dw where dw: "Chunk_Insert c (dataWrite m) = Inr dw" "dw_inv dw"
    "store_abs dw = ?es @ [(core c, d)]" "recipes dw = recipes (dataWrite m)"
    using assms(2,4) d(2) by (auto simp: c_def)
  have "good x (?es @ [(core c, d)]) (length ?es) (chunkPtr ch)"
    by (rule delta_entry_good [OF k assms(4)]) (use len d(3) in \<open>simp_all add: c_def\<close>)
  then have "known x (store_abs dw) (length ?es) (chunkPtr ch)"
    using id assms(3,4) by (simp add: known_def dw(3)) (simp add: c_def)
  then have "appended x (chunkPtr ch) m c (m1\<lparr>dataWrite := dw\<rparr>)"
    using dw m1 id assms(3) by (simp add: appended_def stores_def Let_def) (simp add: c_def)
  moreover have "put_delta flag (int k) d ch m = Inr (c, m1\<lparr>dataWrite := dw\<rparr>)"
    using d(2) len m1(1,2) dw(1) by (simp add: put_delta_def c_def [symmetric])
  ultimately show ?thesis by blast
qed

lemma store_delta_ok:
  assumes "xd3_law x C feat" "chunk_wf ch" "chunkSize ch \<le> CONTAINER_MAX_SIZE" "\<not> HeaderFlag ch" "chunkPtr ch \<in> C"
    and "flag \<notin> {NO_DELTA, NO_LZ4}" and inv: "dw_inv (dataWrite m)"
    and "chunkID ch = length (store_abs (dataWrite m))"
    and "feat (chunkPtr ch) key" "base_known x {b \<in> C. feat b key} (store_abs (dataWrite m)) base"
  shows "\<exists>ch' m'. store_delta x flag base ch m = Inr (ch', m') \<and> appended x (chunkPtr ch) m ch' m'"
proof -
  obtain d k b dw where e: "encode_delta x base ch (dataWrite m) = Inr (d, dw)" "d \<noteq> []" "length d \<le> chunkSize ch"
    "base = int k" "k < length (store_abs (dataWrite m))" "plain_entry x k (store_abs (dataWrite m) ! k) b"
    "xd3_decode_memory x d b (CONTAINER_MAX_SIZE * 2) = Some (chunkPtr ch)"
    "dw_inv dw" "store_abs dw = store_abs (dataWrite m)" "recipes dw = recipes (dataWrite m)"
    using encode_delta_ok [OF assms(1,2,5) inv assms(9,10)] by blast
  obtain ch' m' where p: "put_delta flag (int k) d ch (m\<lparr>dataWrite := dw\<rparr>) = Inr (ch', m')"
    "appended x (chunkPtr ch) (m\<lparr>dataWrite := dw\<rparr>) ch' m'"
    using put_delta_ok [OF assms(2-4,6), of "m\<lparr>dataWrite := dw\<rparr>" d x b k] e assms(8) by auto
  have "appended x (chunkPtr ch) m ch' m'" using p(2) e(9,10) by (simp add: appended_def stores_def)
  with e(1,2,4) p(1) show ?thesis by (auto simp: store_delta_def)
qed

section \<open>The frame of the methods\<close>

lemma count_unique_ok:
  assumes "stores x b m1 ch m'" "uniquechunkNum m1 = length (store_abs (dataWrite m1))"
    and "dataWrite m1 = dataWrite m" "uniquechunkNum m1 = uniquechunkNum m" "FPindex m1 = (FPindex m)(h \<mapsto> int (uniquechunkNum m))"
  shows "\<exists>m''. count_unique (ch, m') = Inr (ch, m'') \<and> stored x h b m ch m''
    \<and> m'' = m'\<lparr>uniquechunkNum := uniquechunkNum m'', uniquechunkSize := uniquechunkSize m''\<rparr>"
  using assms by (auto simp: count_unique_def stored_def stores_def Let_def)

lemma count_unique_stored:
  assumes "appended x b m1 ch m'" "uniquechunkNum m1 = length (store_abs (dataWrite m1))"
    and "dataWrite m1 = dataWrite m" "uniquechunkNum m1 = uniquechunkNum m" "FPindex m1 = (FPindex m)(h \<mapsto> int (uniquechunkNum m))"
  shows "\<exists>m''. count_unique (ch, m') = Inr (ch, m'') \<and> stored x h b m ch m'' \<and> SFindex m'' = SFindex m1
    \<and> dataWrite m'' = dataWrite m' \<and> chunker m'' = chunker m1 \<and> AbsMethod.more m'' = AbsMethod.more m1"
  using assms by (auto simp: count_unique_def stored_def appended_def stores_def Let_def)

lemma note_recipe_delta_inv: "\<not> HeaderFlag c \<Longrightarrow> delta_inv x C feat I (note_recipe c m) = delta_inv x C feat I m"
  using note_recipe_ok(2-5) [of c m] by (simp add: delta_inv_def)

lemma known_duplicate_ok:
  assumes "known x (store_abs (dataWrite m)) k b"
  shows "\<exists>ch' m'. dedup_duplicate (int k) m = Inr (ch', m') \<and> chunkID ch' = k \<and> \<not> HeaderFlag ch'
    \<and> m' = m\<lparr>DedupReduct := DedupReduct m'\<rparr>"
  using assms
  by (auto simp: dedup_duplicate_def Get_Chunk_MetaInfo_def chunk_at_def known_def store_abs_def entry_def)

definition same_store :: "'z AbsMethod_scheme \<Rightarrow> 'z AbsMethod_scheme \<Rightarrow> bool" where
  "same_store m m' \<longleftrightarrow> dataWrite m' = dataWrite m \<and> uniquechunkNum m' = uniquechunkNum m \<and> FPindex m' = FPindex m"

lemma same_store_inv:
  assumes "delta_inv x C feat I m" "same_store m m'"
    and "\<forall>(k, i) \<in> J. (k, i) \<in> I \<or> base_known x {b \<in> C. feat b k} (store_abs (dataWrite m)) i"
  shows "delta_inv x C feat J m'"
  using assms unfolding delta_inv_def same_store_def Let_def by fastforce

text \<open>
  The contract of a method in this frame, with its own part \<open>P\<close> of the invariant: both ways to process a
  chunk work and only enter base chunks with the feature into the index.  The frame then appends an
  entry with the content of the chunk to the recipe: it is a lossless method.
\<close>

locale delta_method =
  fixes x :: env and C :: "byte list set" and feat :: "byte list \<Rightarrow> 'k \<Rightarrow> bool"
    and ids :: "'z AbsMethod_scheme \<Rightarrow> ('k \<times> int) set" and P :: "'z AbsMethod_scheme \<Rightarrow> bool"
    and unique :: "byte list \<Rightarrow> Chunk_t \<Rightarrow> 'z AbsMethod_scheme \<Rightarrow> (Chunk_t \<times> 'z AbsMethod_scheme) result"
    and dup :: "int \<Rightarrow> Chunk_t \<Rightarrow> 'z AbsMethod_scheme \<Rightarrow> (Chunk_t \<times> 'z AbsMethod_scheme) result"
  assumes hashes: "P m \<Longrightarrow> hash_law x C"
    and unique_ok: "delta_inv x C feat (ids m) m \<Longrightarrow> P m \<Longrightarrow> dedup_chunk_ok C ch \<Longrightarrow> \<exists>ch' m'. unique h ch m = Inr (ch', m')
      \<and> stored x h (chunkPtr ch) m ch' m' \<and> P m'
      \<and> (\<forall>(k, i) \<in> ids m'. (k, i) \<in> ids m \<or> base_known x {b \<in> C. feat b k} (store_abs (dataWrite m')) i)"
    and dup_ok: "delta_inv x C feat (ids m) m \<Longrightarrow> P m \<Longrightarrow> dedup_chunk_ok C ch \<Longrightarrow> known x (store_abs (dataWrite m)) k (chunkPtr ch)
      \<Longrightarrow> \<exists>ch' m'. dup (int k) ch m = Inr (ch', m') \<and> chunkID ch' = k \<and> \<not> HeaderFlag ch' \<and> same_store m m' \<and> P m'
      \<and> (\<forall>(k, i) \<in> ids m'. (k, i) \<in> ids m \<or> base_known x {b \<in> C. feat b k} (store_abs (dataWrite m)) i)"
    and note_ids: "ids (note_recipe c m) = ids m" and note_P: "P (note_recipe c m) = P m"
begin

definition method_inv :: "'z AbsMethod_scheme \<Rightarrow> bool" where
  "method_inv m \<longleftrightarrow> P m \<and> delta_inv x C feat (ids m) m"

lemma note_inv: "\<not> HeaderFlag c \<Longrightarrow> method_inv (note_recipe c m) = method_inv m"
  by (simp add: method_inv_def note_P note_ids note_recipe_delta_inv)

lemma frame_ok:
  assumes "method_inv m" "dedup_chunk_ok C ch"
  shows "\<exists>m' i. process_chunk x unique dup m ch = Inr m' \<and> method_inv m'
    \<and> appends_recipe (dataWrite m) (dataWrite m') i \<and> good x (store_abs (dataWrite m')) i (chunkPtr ch)
    \<and> (\<forall>j b. good x (store_abs (dataWrite m)) j b \<longrightarrow> good x (store_abs (dataWrite m')) j b)"
proof -
  let ?es = "store_abs (dataWrite m)" and ?b = "chunkPtr ch"
  have ch: "chunk_wf ch" "?b \<in> C" using assms(2) by (simp_all add: dedup_chunk_ok_def)
  have i: "P m" "delta_inv x C feat (ids m) m" using assms(1) by (simp_all add: method_inv_def)
  note law = hashes [OF i(1)]
  obtain h where h: "sha256 x ?b = Some h" "length h = CHUNK_HASH_SIZE" using law ch(2) by (auto simp: hash_law_def)
  have run: "process_chunk x unique dup m ch = rbind (if FP_Find h m = - 1 then unique h ch m else dup (FP_Find h m) ch m)
      (\<lambda>(ch, m). Inr (note_recipe ch m))"
    using ch(1) h by (simp add: process_chunk_def read_ptr_def chunk_wf_def GenerateHash_def)
  show ?thesis
  proof (cases "FPindex m h")
    case None
    obtain c m1 where u: "unique h ch m = Inr (c, m1)" "stored x h ?b m c m1" "P m1"
      "\<forall>(k, i) \<in> ids m1. (k, i) \<in> ids m \<or> base_known x {b \<in> C. feat b k} (store_abs (dataWrite m1)) i"
      using unique_ok [OF i(2,1) assms(2)] by blast
    then obtain e where s: "store_abs (dataWrite m1) = ?es @ [e]" "known x (store_abs (dataWrite m1)) (uniquechunkNum m) ?b"
      "chunkID c = uniquechunkNum m" "\<not> HeaderFlag c" "recipes (dataWrite m1) = recipes (dataWrite m)"
      by (auto simp: stored_def)
    let ?m = "note_recipe c m1"
    have n: "store_abs (dataWrite ?m) = store_abs (dataWrite m1)" using note_recipe_ok(2) [OF s(4), of m1] .
    have "method_inv ?m" using stored_inv [OF i(2) u(2) ch(2) h(1) u(4)] u(3) note_inv [OF s(4)] by (simp add: method_inv_def)
    moreover have "appends_recipe (dataWrite m) (dataWrite ?m) (uniquechunkNum m)"
      using note_recipe_ok(1) [OF s(4), of m1] s(3,5) by (simp add: appends_recipe_def recipes_def)
    moreover have "good x (store_abs (dataWrite ?m)) (uniquechunkNum m) ?b" using s(2) n by (simp add: known_def)
    moreover have "process_chunk x unique dup m ch = Inr ?m" using run None u(1) by (simp add: FP_Find_def)
    ultimately show ?thesis using n s(1) good_append by metis
  next
    case (Some j)
    then obtain k b where k: "b \<in> C" "j = int k" "known x ?es k b" "sha256 x b = Some h"
      using i(2) by (fastforce simp: delta_inv_def Let_def)
    have "b = ?b" using k(1,4) ch(2) h(1) law by (auto simp: hash_law_def inj_on_def)
    with k(3) have kb: "known x ?es k ?b" by simp
    obtain c m1 where d: "dup (int k) ch m = Inr (c, m1)" "chunkID c = k" "\<not> HeaderFlag c" "same_store m m1" "P m1"
      "\<forall>(k, i) \<in> ids m1. (k, i) \<in> ids m \<or> base_known x {b \<in> C. feat b k} ?es i"
      using dup_ok [OF i(2,1) assms(2) kb] by blast
    let ?m = "note_recipe c m1"
    have m1: "dataWrite m1 = dataWrite m" using d(4) by (simp add: same_store_def)
    have "method_inv ?m" using same_store_inv [OF i(2) d(4,6)] d(5) note_inv [OF d(3)] by (simp add: method_inv_def)
    moreover have "appends_recipe (dataWrite m) (dataWrite ?m) k" using note_recipe_ok(1) [OF d(3), of m1] d(2) m1 by simp
    moreover have "good x ?es k ?b" using kb by (simp add: known_def)
    moreover have "process_chunk x unique dup m ch = Inr ?m" using run Some k(2) d(1) by (simp add: FP_Find_def)
    ultimately show ?thesis using note_recipe_ok(2) [OF d(3), of m1] m1 by metis
  qed
qed

end

sublocale delta_method \<subseteq> backup_method x "process_chunk x unique dup" method_inv dataWrite "dedup_chunk_ok C"
proof unfold_locales
  show "dw_inv (dataWrite m)" if "method_inv m" for m using that by (simp add: method_inv_def delta_inv_def Let_def)
qed (rule frame_ok)

text \<open>A duplicate that only counts the saved bytes.\<close>

lemma duplicate_same_store:
  assumes "known x (store_abs (dataWrite m)) k b"
  shows "\<exists>ch' m'. dedup_duplicate (int k) m = Inr (ch', m') \<and> chunkID ch' = k \<and> \<not> HeaderFlag ch' \<and> same_store m m'
    \<and> m' = m\<lparr>DedupReduct := DedupReduct m'\<rparr>"
proof -
  obtain ch' m' where d: "dedup_duplicate (int k) m = Inr (ch', m')" "chunkID ch' = k" "\<not> HeaderFlag ch'"
    "m' = m\<lparr>DedupReduct := DedupReduct m'\<rparr>"
    using known_duplicate_ok [OF assms] by blast
  have "same_store m m'" by (subst d(4)) (simp add: same_store_def)
  with d show ?thesis by blast
qed

section \<open>Similarity indexes\<close>

text \<open>
  The contract of a similarity index with queries \<open>q\<close> that stand for sets of features: it only answers with
  a chunk that was entered with one of them.
\<close>

locale similarity_index =
  fixes keys :: "'q \<Rightarrow> 'k set" and find :: "'q \<Rightarrow> 's \<Rightarrow> int" and enter :: "'q \<Rightarrow> int \<Rightarrow> 's \<Rightarrow> 's"
    and ids :: "'s \<Rightarrow> ('k \<times> int) set"
  assumes find_ids: "find q s \<noteq> - 1 \<Longrightarrow> \<exists>k \<in> keys q. (k, find q s) \<in> ids s"
    and enter_ids: "ids (enter q i s) \<subseteq> ids s \<union> {(k, i) | k. k \<in> keys q}"
begin

lemma find_base:
  "\<forall>(k, i) \<in> ids s. base_known x {b \<in> C. feat b k} es i \<Longrightarrow> find q s \<noteq> - 1 \<Longrightarrow> \<forall>k \<in> keys q. feat t k
   \<Longrightarrow> \<exists>k. feat t k \<and> base_known x {b \<in> C. feat b k} es (find q s)"
  using find_ids by fastforce

lemma enter_base:
  "base_known x {b} es i \<Longrightarrow> b \<in> C \<Longrightarrow> \<forall>k \<in> keys q. feat b k
   \<Longrightarrow> \<forall>(k, j) \<in> ids (enter q i s). (k, j) \<in> ids s \<or> base_known x {b \<in> C. feat b k} es j"
  using enter_ids [of q i s] unfolding base_known_def by fastforce

end

text \<open>An encoder whose deltas are one byte longer than the chunk: it shows what happens to a long delta.\<close>

definition long_env :: env where
  "long_env = plain_env\<lparr>xd3_encode_memory := (\<lambda>t b n. Some (0 # t))\<rparr>"

lemma long_env_encode:
  assumes "chunk_wf ch"
  shows "\<exists>dw. encode_delta long_env 0 ch one_chunk_store = Inr (0 # chunkPtr ch, dw)"
proof -
  have "decode long_env (fst (store_abs one_chunk_store ! 0)) (snd (store_abs one_chunk_store ! 0)) = Inr [1, 2]"
    using one_chunk_decode by (simp add: one_chunk_store(2) decode_def long_env_def)
  from store.get_ok [OF one_chunk_store(1) _ this] obtain b dw where
    b: "Get_Chunk_Info long_env 0 one_chunk_store = Inr (b, dw)" "core b = fst (store_abs one_chunk_store ! 0)" "chunkPtr b = [1, 2]"
    using one_chunk_store(2) by auto
  have "chunkSize b = 2" using core_sel(2) [of b] b(2) by (simp add: one_chunk_store(2) new_Chunk_def)
  with b assms show ?thesis
    by (simp add: encode_delta_def read_ptr_def xd3_encode_def chunk_wf_def long_env_def)
qed

end
