(* ===== verification/Finesse.thy ===== *)
theory Finesse
  imports Delta
begin

text \<open>
  The method of \<open>src/method/Finesse.cc\<close>: a unique chunk that shares a super-feature with an earlier base
  chunk is stored as a delta against it, any other one as a base.  The super-features are three hashes of
  Rabin features (\<open>GetSF\<close> in theory \<open>AbsMethod\<close>).  Finesse meets the contract \<open>pipeline\<close>.
\<close>

section \<open>Processing a chunk\<close>

text \<open>Chunks of at most 576 bytes have no features: twelve subchunks of 48 bytes do not fit.\<close>

definition finesse_features :: "env \<Rightarrow> Chunk_t \<Rightarrow> byte list option result" where
  "finesse_features x ch =
     (if chunkSize ch > 576
      then rbind (read_ptr (chunkSize ch) (chunkPtr ch)) (\<lambda>data. rbind (GetSF x data) (\<lambda>sf. Inr (Some sf)))
      else Inr None)"

definition finesse_unique :: "env \<Rightarrow> byte list \<Rightarrow> Chunk_t \<Rightarrow> AbsMethod \<Rightarrow> (Chunk_t \<times> AbsMethod) result" where
  "finesse_unique x h ch m =
     (let ch = ch\<lparr>chunkID := uniquechunkNum m, deltaFlag := NO_DELTA\<rparr>;
          m = FP_Insert h (int (chunkID ch)) m in
      rbind (finesse_features x ch) (\<lambda>sf.
      let base = (case sf of None \<Rightarrow> - 1 | Some key \<Rightarrow> SF_Find key m);
          m = (case sf of None \<Rightarrow> m | Some key \<Rightarrow> m\<lparr>computeSFtimes := Suc (computeSFtimes m)\<rparr>) in
      rbind (if base = - 1
             then store_base x ch (case sf of None \<Rightarrow> m | Some key \<Rightarrow> SF_Insert key (int (chunkID ch)) m)
             else store_delta x FINESSE_DELTA base ch m)
        count_unique))"

definition finesse_chunk :: "env \<Rightarrow> AbsMethod \<Rightarrow> Chunk_t \<Rightarrow> AbsMethod result" where
  "finesse_chunk x = process_chunk x (finesse_unique x) (\<lambda>i ch. dedup_duplicate i)"

definition finesse_end :: "AbsMethod \<Rightarrow> AbsMethod" where
  "finesse_end m = m\<lparr>ads_Version := Suc (ads_Version m), SFnum := basechunkNum m * 3\<rparr>"

definition Finesse_ProcessTrace :: "env \<Rightarrow> Chunk_t list \<Rightarrow> AbsMethod \<Rightarrow> AbsMethod result" where
  "Finesse_ProcessTrace x chunks m = rbind (rfold (finesse_chunk x) m chunks) (\<lambda>m. Inr (finesse_end m))"

definition Finesse_backup :: "env \<Rightarrow> AbsMethod \<Rightarrow> string \<times> Chunk_t list \<Rightarrow> AbsMethod result" where
  "Finesse_backup x m job = (case job of (name, chunks) \<Rightarrow> Finesse_ProcessTrace x chunks (set_backup name m))"

section \<open>The features stay inside the chunk\<close>

definition hash_total :: "env \<Rightarrow> bool" where
  "hash_total x \<longleftrightarrow> (\<forall>b. \<exists>h. sha256 x b = Some h \<and> length h = CHUNK_HASH_SIZE)"

lemma hash_total_plain: "hash_total plain_env"
  by (auto simp: hash_total_def plain_env_def CHUNK_HASH_SIZE_def)

lemma hash_total_GenerateHash: "hash_total x \<Longrightarrow> \<exists>h. GenerateHash x b = Inr h \<and> length h = CHUNK_HASH_SIZE"
  unfolding hash_total_def by (metis (mono_tags, lifting) GenerateHash_def option.simps(5))

lemma subchunk_feature_ok_iff:
  "(\<forall>i < FEATURE_NUM. isOk (subchunk_feature data i)) \<longleftrightarrow> 565 \<le> length data"
proof
  assume "\<forall>i < FEATURE_NUM. isOk (subchunk_feature data i)"
  then have "isOk (subchunk_feature data 11)" by (simp add: sf_consts)
  then show "565 \<le> length data"
    by (auto simp: subchunk_feature_def subchunkIndex_def sf_consts Let_def split: if_splits)
next
  assume l: "565 \<le> length data"
  have "length data * i div 12 + 48 \<le> length data" if "i \<le> 11" for i
  proof -
    have "length data * i \<le> length data * 11" using that by simp
    then show ?thesis using l by linarith
  qed
  then show "\<forall>i < FEATURE_NUM. isOk (subchunk_feature data i)"
    by (auto simp: subchunk_feature_def subchunkIndex_def sf_consts Let_def)
qed

lemma rfold_isOk: "isOk (rfold (\<lambda>s i. rbind (f i) (\<lambda>v. Inr (g s v))) s is) \<longleftrightarrow> (\<forall>i \<in> set is. isOk (f i))"
proof (induction "is" arbitrary: s)
  case (Cons i "is")
  then show ?case by (cases "f i") auto
qed simp

lemma sf_hashes_ok:
  assumes "hash_total x"
  shows "\<exists>sf. rfold (\<lambda>sf i. rbind (GenerateHash x (sf_input feats i)) (\<lambda>h. Inr (sf @ h))) s0 is = Inr sf
    \<and> length sf = length s0 + length is * CHUNK_HASH_SIZE"
proof (induction "is" arbitrary: s0)
  case (Cons i "is")
  obtain h where "GenerateHash x (sf_input feats i) = Inr h" "length h = CHUNK_HASH_SIZE"
    using hash_total_GenerateHash [OF assms] by blast
  with Cons [of "s0 @ h"] show ?case by auto
qed simp

lemma GetSF_isOk: "hash_total x \<Longrightarrow> isOk (GetSF x data) \<longleftrightarrow> 565 \<le> length data"
  and GetSF_ok: "hash_total x \<Longrightarrow> 565 \<le> length data \<Longrightarrow> \<exists>sf. GetSF x data = Inr sf \<and> length sf = FINESSE_SF_NUM * CHUNK_HASH_SIZE"
proof -
  let ?fs = "rfold (\<lambda>feats i. rbind (subchunk_feature data i) (\<lambda>v. Inr (feats @ [v]))) [] [0..<FEATURE_NUM]"
  assume h: "hash_total x"
  have ok: "isOk ?fs \<longleftrightarrow> 565 \<le> length data"
    using rfold_isOk [of "subchunk_feature data" "\<lambda>fs v. fs @ [v]" "[]" "[0..<FEATURE_NUM]"] subchunk_feature_ok_iff [of data] by auto
  note sf = sf_hashes_ok [OF h, where ?s0.0 = "[]" and ?is = "[0..<FINESSE_SF_NUM]"]
  have *: "\<exists>sf. GetSF x data = Inr sf \<and> length sf = FINESSE_SF_NUM * CHUNK_HASH_SIZE" if "565 \<le> length data"
    using that by (cases ?fs) (use ok sf in \<open>auto simp: GetSF_def Let_def\<close>)
  moreover have "\<not> isOk (GetSF x data)" if "\<not> 565 \<le> length data"
    using that by (cases ?fs) (use ok in \<open>auto simp: GetSF_def\<close>)
  ultimately show "isOk (GetSF x data) \<longleftrightarrow> 565 \<le> length data" by force
  show "565 \<le> length data \<Longrightarrow> \<exists>sf. GetSF x data = Inr sf \<and> length sf = FINESSE_SF_NUM * CHUNK_HASH_SIZE" by (rule *)
qed

text \<open>
  C30: \<open>GetSF\<close> reads inside the chunk exactly when it has at least 565 bytes, and then writes three hashes
  of 32 bytes; on every shorter chunk the first window of the last subchunk ends behind the buffer.
  The guard \<open>chunkSize > 576\<close> of \<open>ProcessTrace\<close> is therefore enough.
\<close>

theorem GetSF_in_bounds:
  assumes "hash_total x"
  shows "(565 \<le> length data \<longrightarrow> (\<exists>sf. GetSF x data = Inr sf \<and> length sf = FINESSE_SF_NUM * CHUNK_HASH_SIZE))
    \<and> (length data < 565 \<longrightarrow> \<not> isOk (GetSF x data))"
  using GetSF_isOk [OF assms, of data] GetSF_ok [OF assms, of data] by auto

theorem GetSF_in_bounds_witness:
  "(\<exists>sf. GetSF plain_env (replicate 577 7) = Inr sf \<and> length sf = 96) \<and> \<not> isOk (GetSF plain_env (replicate 564 7))"
  using GetSF_in_bounds [OF hash_total_plain, of "replicate 577 7"] GetSF_in_bounds [OF hash_total_plain, of "replicate 564 7"]
  by (simp add: FINESSE_SF_NUM_def CHUNK_HASH_SIZE_def)

section \<open>Finesse is lossless\<close>

text \<open>The features of a content: its super-features, each with its position.\<close>

definition sf_keys :: "byte list \<Rightarrow> (nat \<times> byte list) set" where
  "sf_keys sf = {(j, sf_key sf j) | j. j < FINESSE_SF_NUM}"

definition finesse_feat :: "env \<Rightarrow> byte list \<Rightarrow> nat \<times> byte list \<Rightarrow> bool" where
  "finesse_feat x b k \<longleftrightarrow> (\<exists>sf. GetSF x b = Inr sf \<and> k \<in> sf_keys sf)"

definition finesse_ids :: "'z AbsMethod_scheme \<Rightarrow> ((nat \<times> byte list) \<times> int) set" where
  "finesse_ids m = {((j, k), i). i \<in> set (SFindex m j k)}"

lemma SF_Find_from_ids:
  "SF_Find_from key js m \<noteq> - 1 \<Longrightarrow> \<exists>j \<in> set js. ((j, sf_key key j), SF_Find_from key js m) \<in> finesse_ids m"
  by (induction key js m rule: SF_Find_from.induct) (auto simp: finesse_ids_def)

interpretation finesse_index: similarity_index sf_keys SF_Find SF_Insert finesse_ids
proof unfold_locales
  fix q and s :: "'z AbsMethod_scheme"
  show "SF_Find q s \<noteq> - 1 \<Longrightarrow> \<exists>k \<in> sf_keys q. (k, SF_Find q s) \<in> finesse_ids s"
    unfolding SF_Find_def sf_keys_def by (drule SF_Find_from_ids) auto
next
  fix q i and s :: "'z AbsMethod_scheme"
  show "finesse_ids (SF_Insert q i s) \<subseteq> finesse_ids s \<union> {(k, i) | k. k \<in> sf_keys q}"
    by (auto simp: SF_Insert_def finesse_ids_def sf_keys_def split: if_splits)
qed

lemma finesse_features_ok:
  assumes "hash_total x" "chunk_wf ch"
  shows "\<exists>sf. finesse_features x ch = Inr sf \<and> (\<forall>key. sf = Some key \<longrightarrow> (\<forall>k \<in> sf_keys key. finesse_feat x (chunkPtr ch) k))"
proof -
  have "\<exists>sf. GetSF x (chunkPtr ch) = Inr sf" if "chunkSize ch > 576"
    using GetSF_ok [OF assms(1), of "chunkPtr ch"] that assms(2) by (auto simp: chunk_wf_def)
  with assms(2) show ?thesis by (auto simp: finesse_features_def read_ptr_def chunk_wf_def finesse_feat_def)
qed

lemma finesse_unique_ok:
  assumes "lz4_law x" "hash_total x" "xd3_law x C (finesse_feat x)"
    and "delta_inv x C (finesse_feat x) (finesse_ids m) m" "dedup_chunk_ok C ch"
  shows "\<exists>ch' m'. finesse_unique x h ch m = Inr (ch', m') \<and> stored x h (chunkPtr ch) m ch' m'
    \<and> (\<forall>(k, i) \<in> finesse_ids m'. (k, i) \<in> finesse_ids m
         \<or> base_known x {b \<in> C. finesse_feat x b k} (store_abs (dataWrite m')) i)"
proof -
  let ?c = "ch\<lparr>chunkID := uniquechunkNum m, deltaFlag := NO_DELTA\<rparr>" and ?es = "store_abs (dataWrite m)"
  let ?m = "FP_Insert h (int (uniquechunkNum m)) m"
  have ch: "chunk_wf ?c" "chunkSize ?c \<le> CONTAINER_MAX_SIZE" "\<not> HeaderFlag ?c" "chunkPtr ?c \<in> C"
    using assms(5) by (simp_all add: dedup_chunk_ok_def chunk_wf_def)
  have inv: "dw_inv (dataWrite m)" "uniquechunkNum m = length ?es" "\<forall>(k, i) \<in> finesse_ids m. base_known x {b \<in> C. finesse_feat x b k} ?es i"
    using assms(4) by (simp_all add: delta_inv_def Let_def)
  obtain sf where sf: "finesse_features x ?c = Inr sf" "\<forall>key. sf = Some key \<longrightarrow> (\<forall>k \<in> sf_keys key. finesse_feat x (chunkPtr ch) k)"
    using finesse_features_ok [OF assms(2) ch(1)] by auto
  define m1 where "m1 = (case sf of None \<Rightarrow> ?m | Some key \<Rightarrow> ?m\<lparr>computeSFtimes := Suc (computeSFtimes ?m)\<rparr>)"
  define base where "base = (case sf of None \<Rightarrow> - 1 | Some key \<Rightarrow> SF_Find key ?m)"
  define m2 where "m2 = (case sf of None \<Rightarrow> m1 | Some key \<Rightarrow> SF_Insert key (int (uniquechunkNum m)) m1)"
  have same: "dataWrite m1 = dataWrite m" "uniquechunkNum m1 = uniquechunkNum m" "FPindex m1 = (FPindex m)(h \<mapsto> int (uniquechunkNum m))"
    "SFindex m1 = SFindex m" "dataWrite m2 = dataWrite m" "uniquechunkNum m2 = uniquechunkNum m"
    "FPindex m2 = (FPindex m)(h \<mapsto> int (uniquechunkNum m))"
    by (cases sf; simp add: m1_def m2_def FP_Insert_def SF_Insert_def)+
  have run: "finesse_unique x h ch m = rbind (if base = - 1 then store_base x ?c m2 else store_delta x FINESSE_DELTA base ?c m1) count_unique"
    using sf(1) by (cases sf) (simp_all add: finesse_unique_def Let_def base_def m1_def m2_def)
  show ?thesis
  proof (cases "base = - 1")
    case True
    obtain c m' where b: "store_base x ?c m2 = Inr (c, m')" "appended x (chunkPtr ch) m2 c m'"
      "plain_entry x (uniquechunkNum m) (store_abs (dataWrite m') ! uniquechunkNum m) (chunkPtr ch)"
      using store_base_ok [OF assms(1) ch(1-3), of m2] inv(1,2) same by auto
    obtain m'' where u: "count_unique (c, m') = Inr (c, m'')" "stored x h (chunkPtr ch) m c m''" "SFindex m'' = SFindex m2"
      "dataWrite m'' = dataWrite m'"
      using count_unique_stored [OF b(2), of m h] same inv(2) by auto
    have "base_known x {chunkPtr ch} (store_abs (dataWrite m'')) (int (uniquechunkNum m))"
      using b(2,3) u(4) inv(2) same(5) unfolding base_known_def
      by (intro exI [of _ "uniquechunkNum m"]) (auto simp: appended_def stores_def Let_def)
    then have "\<forall>(k, i) \<in> finesse_ids m2. (k, i) \<in> finesse_ids m1
        \<or> base_known x {b \<in> C. finesse_feat x b k} (store_abs (dataWrite m'')) i"
      using finesse_index.enter_base [where x = x and C = C and feat = "finesse_feat x" and s = m1] ch(4) sf(2)
      by (cases sf) (auto simp: m2_def)
    moreover have "finesse_ids m'' = finesse_ids m2" "finesse_ids m1 = finesse_ids m"
      using u(3) same(4) by (simp_all add: finesse_ids_def)
    ultimately show ?thesis using run True b(1) u by auto
  next
    case False
    obtain key where key: "sf = Some key" "base = SF_Find key ?m" using False by (cases sf) (auto simp: base_def)
    have "finesse_ids ?m = finesse_ids m" by (simp add: finesse_ids_def FP_Insert_def)
    then obtain k where k: "finesse_feat x (chunkPtr ch) k" "base_known x {b \<in> C. finesse_feat x b k} ?es base"
      using finesse_index.find_base [where s = ?m and q = key and x = x and C = C and feat = "finesse_feat x" and es = ?es
          and t = "chunkPtr ch"] inv(3) sf(2) key False by auto
    obtain c m' where b: "store_delta x FINESSE_DELTA base ?c m1 = Inr (c, m')" "appended x (chunkPtr ch) m1 c m'"
      using store_delta_ok [OF assms(3) ch, of FINESSE_DELTA m1 k base] inv(1,2) same k by auto
    obtain m'' where "count_unique (c, m') = Inr (c, m'')" "stored x h (chunkPtr ch) m c m''" "SFindex m'' = SFindex m1"
      using count_unique_stored [OF b(2), of m h] same inv(2) by auto
    with run False b(1) same(4) show ?thesis by (auto simp: finesse_ids_def)
  qed
qed

definition finesse_laws :: "env \<Rightarrow> byte list set \<Rightarrow> AbsMethod \<Rightarrow> bool" where
  "finesse_laws x C m \<longleftrightarrow> lz4_law x \<and> hash_total x \<and> hash_law x C \<and> xd3_law x C (finesse_feat x)"

lemma finesse_ids_upd:
  "finesse_ids (note_recipe c m) = finesse_ids m" "finesse_ids (m\<lparr>DedupReduct := r\<rparr>) = finesse_ids m"
  by (simp_all add: finesse_ids_def note_recipe_def)

interpretation finesse: delta_method x C "finesse_feat x" finesse_ids "finesse_laws x C" "finesse_unique x" "\<lambda>i ch. dedup_duplicate i"
  for x C
proof unfold_locales
  fix m :: AbsMethod and ch h k
  assume inv: "delta_inv x C (finesse_feat x) (finesse_ids m) m" and l: "finesse_laws x C m" and ch: "dedup_chunk_ok C ch"
  show "\<exists>ch' m'. finesse_unique x h ch m = Inr (ch', m') \<and> stored x h (chunkPtr ch) m ch' m' \<and> finesse_laws x C m'
    \<and> (\<forall>(k, i) \<in> finesse_ids m'. (k, i) \<in> finesse_ids m
         \<or> base_known x {b \<in> C. finesse_feat x b k} (store_abs (dataWrite m')) i)"
    using finesse_unique_ok [OF _ _ _ inv ch] l unfolding finesse_laws_def by blast
  assume "known x (store_abs (dataWrite m)) k (chunkPtr ch)"
  from duplicate_same_store [OF this] obtain c m' where
    d: "dedup_duplicate (int k) m = Inr (c, m')" "chunkID c = k" "\<not> HeaderFlag c" "same_store m m'" "m' = m\<lparr>DedupReduct := DedupReduct m'\<rparr>"
    by blast
  have "finesse_ids m' = finesse_ids m" by (subst d(5)) (rule finesse_ids_upd)
  with d l show "\<exists>ch' m'. dedup_duplicate (int k) m = Inr (ch', m') \<and> chunkID ch' = k \<and> \<not> HeaderFlag ch' \<and> same_store m m'
    \<and> finesse_laws x C m' \<and> (\<forall>(k, i) \<in> finesse_ids m'. (k, i) \<in> finesse_ids m
         \<or> base_known x {b \<in> C. finesse_feat x b k} (store_abs (dataWrite m)) i)" by (auto simp: finesse_laws_def)
qed (auto simp: finesse_laws_def finesse_ids_upd)

interpretation finesse_files: pipeline x "finesse_chunk x" "finesse.method_inv x C" dataWrite "dedup_chunk_ok C" "Finesse_backup x"
    set_backup finesse_end "\<lambda>n m. True" std_ready 16384 C
  for x C
  unfolding finesse_chunk_def
  by unfold_locales (auto simp: finesse.method_inv_def finesse_laws_def delta_inv_def Let_def Finesse_backup_def Finesse_ProcessTrace_def finesse_chunk_def
    set_backup_def am_SetFilename_def dw_SetFilename_def finesse_end_def finesse_ids_def dedup_chunk_ok_def size_consts)

lemma finesse_inv_new:
  assumes "lz4_law x" "hash_total x" "hash_law x C" "xd3_law x C (finesse_feat x)" "\<forall>cid. w (container_path cid)"
  shows "finesse.method_inv x C (AbsMethod_new (dataWrite_new f w))"
  using assms dataWrite_new_inv [OF assms(5)]
  by (simp add: finesse.method_inv_def finesse_laws_def delta_inv_def AbsMethod_new_def finesse_ids_def)

text \<open>
  Backup and restore with Finesse are inverse: after a run of \<open>main\<close> with fixed-size or FastCDC chunking and
  the method Finesse over any files with distinct names, \<open>restoreFile\<close> writes back every file exactly,
  although similar chunks are stored as deltas.  Besides LZ4 and SHA-256 this relies on xdelta3: the delta
  between chunks that share a super-feature decodes to the chunk and is not longer than it.
\<close>

theorem Finesse_restores:
  assumes "t \<in> {0, 1}" "Chunker_new t = Inr c" "n \<le> length names" "distinct (take n names)"
    and "\<forall>name \<in> set (take n names). files name \<noteq> None" "\<forall>path. w path"
    and "lz4_law x" "hash_total x" "hash_law x (file_blocks files (take n names))"
    and "xd3_law x (file_blocks files (take n names)) (finesse_feat x)"
  shows "\<exists>c' m'. main_loop (Finesse_backup x) files n names (c, AbsMethod_new (dataWrite_new f w)) = Some (Inr (c', m'))
    \<and> (\<forall>name \<in> set (take n names). \<exists>dw'. restoreFile x name (dataWrite m') = Inr dw'
         \<and> fs dw' (restore_path name) = files name)"
  using finesse_inv_new [OF assms(7-10), of w f] Chunker_new_std [OF assms(1,2)] assms(3-6)
  by (intro finesse_files.main_restores) (auto simp: new_method_store file_blocks_def)

text \<open>An environment in which all chunks with features are similar, and contents are told apart by their length.\<close>

definition length_env :: env where
  "length_env = plain_env\<lparr>sha256 := (\<lambda>xs. Some (le_bytes 32 (length xs)))\<rparr>"

lemma blocks_replicate: "b \<in> blocks (replicate n v) \<Longrightarrow> n \<le> N \<Longrightarrow> \<exists>k \<le> N. b = replicate k v"
proof -
  assume "b \<in> blocks (replicate n v)" and N: "n \<le> N"
  then obtain us vs where e: "replicate n v = us @ b @ vs" by (auto simp: blocks_def)
  then have "set b \<subseteq> {v}" "length b \<le> n"
    using set_replicate_conv_if [of n v] by (metis Un_iff empty_iff in_set_replicate set_append singletonI subsetI)
      (metis e le_add1 le_add2 le_trans length_append length_replicate)
  then show ?thesis using N by (metis le_trans replicate_eqI singletonD subsetD)
qed

lemma length_env_sel:
  "lz4_compress length_env = lz4_compress plain_env" "lz4_decompress length_env = lz4_decompress plain_env"
  "sha256 length_env = (\<lambda>xs. Some (le_bytes 32 (length xs)))"
  "length t \<le> 601 \<Longrightarrow> xd3_encode_memory length_env t b (CONTAINER_MAX_SIZE * 2) = Some t"
  "length t \<le> 601 \<Longrightarrow> xd3_decode_memory length_env t b (CONTAINER_MAX_SIZE * 2) = Some t"
  by (simp_all add: length_env_def plain_env_def size_consts)

lemma length_env_lz4: "lz4_law length_env"
  using plain_env_laws(1) unfolding lz4_law_def length_env_sel .

lemma length_env_total: "hash_total length_env"
  by (simp add: hash_total_def length_env_sel CHUNK_HASH_SIZE_def)

lemma le_bytes_inj: "le_bytes 32 k = le_bytes 32 l \<Longrightarrow> k \<le> 601 \<Longrightarrow> l \<le> 601 \<Longrightarrow> k = l"
proof -
  have "n < 256 ^ 32" if "n \<le> 601" for n :: nat by (rule le_less_trans [OF that]) simp
  then show "le_bytes 32 k = le_bytes 32 l \<Longrightarrow> k \<le> 601 \<Longrightarrow> l \<le> 601 \<Longrightarrow> k = l" using of_le_bytes by metis
qed

lemma replicates_len: "\<forall>b \<in> C. \<exists>k \<le> 601. b = replicate k v \<Longrightarrow> b \<in> C \<Longrightarrow> length b \<le> 601 \<and> b = replicate (length b) v"
  by fastforce

lemma length_env_hash:
  assumes "\<forall>b \<in> C. \<exists>k \<le> 601. b = replicate k v"
  shows "hash_law length_env C"
proof -
  have "inj_on (sha256 length_env) C"
  proof (rule inj_onI)
    fix b b' assume b: "b \<in> C" "b' \<in> C" "sha256 length_env b = sha256 length_env b'"
    then have "length b = length b'"
      using le_bytes_inj replicates_len [OF assms] unfolding length_env_sel by blast
    then show "b = b'" using replicates_len [OF assms] b by metis
  qed
  with length_env_total show ?thesis unfolding hash_law_def hash_total_def by blast
qed

lemma length_env_xd3:
  assumes "\<forall>b \<in> C. \<exists>k \<le> 601. b = replicate k v"
  shows "xd3_law length_env C (finesse_feat length_env)"
  unfolding xd3_law_def
proof (intro ballI allI impI)
  fix t b k assume t: "t \<in> C" "finesse_feat length_env t k"
  then have "t \<noteq> []" using GetSF_isOk [OF length_env_total, of t] by (auto simp: finesse_feat_def)
  with replicates_len [OF assms t(1)] length_env_sel(4,5) [of t]
  show "\<exists>d. xd3_encode_memory length_env t b (CONTAINER_MAX_SIZE * 2) = Some d \<and> d \<noteq> [] \<and> length d \<le> length t
      \<and> xd3_decode_memory length_env d b (CONTAINER_MAX_SIZE * 2) = Some t" by auto
qed

theorem Finesse_restores_witness:
  "\<exists>c' m' dw'. main_loop (Finesse_backup length_env) [''a'' \<mapsto> replicate 600 1, ''b'' \<mapsto> replicate 601 1] 2 [''a'', ''b'']
      (fastcdc0, AbsMethod_new (dataWrite_new Map.empty (\<lambda>_. True))) = Some (Inr (c', m'))
    \<and> restoreFile length_env ''b'' (dataWrite m') = Inr dw' \<and> fs dw' (restore_path ''b'') = Some (replicate 601 1)"
proof -
  define A B :: "byte list" where "A = replicate 600 1" and "B = replicate 601 1"
  define F where "F = [''a'' \<mapsto> A, ''b'' \<mapsto> B]"
  have F: "F ''a'' = Some A" "F ''b'' = Some B" by (simp_all add: F_def)
  have n: "take 2 [''a'', ''b''] = [''a'', ''b'']" by simp
  have "\<exists>k \<le> 601. b = replicate k 1" if "b \<in> blocks A \<or> b \<in> blocks B" for b
    using that unfolding A_def B_def by (elim disjE) (erule blocks_replicate, simp)+
  then have "\<forall>b \<in> file_blocks F [''a'', ''b'']. \<exists>k \<le> 601. b = replicate k 1" by (simp add: file_blocks_def F)
  note l = length_env_lz4 length_env_total length_env_hash [OF this] length_env_xd3 [OF this]
  have "Chunker_new 1 = Inr fastcdc0" by (simp add: Chunker_new_def ChunkTypeNum_of_int_def fastcdc0_def)
  from Finesse_restores [where n = 2 and names = "[''a'', ''b'']", unfolded n, OF _ this _ _ _ _ l, of "\<lambda>_. True" Map.empty]
  obtain c' m' where r: "main_loop (Finesse_backup length_env) F 2 [''a'', ''b''] (fastcdc0, AbsMethod_new (dataWrite_new Map.empty (\<lambda>_. True)))
      = Some (Inr (c', m'))" "\<exists>dw'. restoreFile length_env ''b'' (dataWrite m') = Inr dw' \<and> fs dw' (restore_path ''b'') = F ''b''"
    unfolding n by (auto simp: F simp del: main_loop.simps)
  then show ?thesis unfolding A_def [symmetric] B_def [symmetric] F_def [symmetric] F(2) by blast
qed

text \<open>
  C31: A delta may be longer than its chunk.  \<open>ProcessTrace\<close> notices that (it counts a \<open>bug\<close>) and still copies the
  delta over the chunk, whose buffer has only \<open>chunkSize\<close> bytes: the copy writes past the buffer.
\<close>

theorem Finesse_delta_overflow:
  assumes "chunk_wf ch" "chunkSize ch > 576" "sha256 x (chunkPtr ch) = Some h" "length h = CHUNK_HASH_SIZE"
    and "FPindex m h = None" "GetSF x (chunkPtr ch) = Inr sf" "SF_Find sf m \<noteq> - 1"
    and "encode_delta x (SF_Find sf m) ch (dataWrite m) = Inr (d, dw)" "length d > chunkSize ch"
  shows "finesse_chunk x m ch = Inl OutOfBounds"
proof -
  let ?ch = "ch\<lparr>chunkID := uniquechunkNum m, deltaFlag := NO_DELTA\<rparr>" and ?i = "int (uniquechunkNum m)"
  have "SF_Find_from sf js (FP_Insert h ?i m) = SF_Find_from sf js m" for js
    by (induction js) (simp_all add: FP_Insert_def)
  then have f: "SF_Find sf (FP_Insert h ?i m) = SF_Find sf m" by (simp add: SF_Find_def)
  have "finesse_features x ?ch = Inr (Some sf)"
    using assms(1,2,6) by (simp add: finesse_features_def read_ptr_def chunk_wf_def)
  moreover have "encode_delta x (SF_Find sf m) ?ch (dataWrite m) = Inr (d, dw)"
    using assms(8) by (simp add: encode_delta_def)
  ultimately have "finesse_unique x h ch m = Inl OutOfBounds"
    using f assms(1,7,9) by (auto simp: finesse_unique_def Let_def store_delta_def put_delta_def chunk_wf_def FP_Insert_def)
  with assms(1,3-5) show ?thesis
    by (simp add: finesse_chunk_def process_chunk_def read_ptr_def chunk_wf_def GenerateHash_def FP_Find_def)
qed

theorem Finesse_delta_overflow_witness:
  "finesse_chunk long_env ((AbsMethod_new one_chunk_store)\<lparr>SFindex := (\<lambda>_ _. [0])\<rparr>) (new_Chunk (replicate 600 1) 600 False)
     = Inl OutOfBounds"
proof -
  define B :: "byte list" where "B = replicate 600 1"
  let ?m = "(AbsMethod_new one_chunk_store)\<lparr>SFindex := (\<lambda>_ _. [0])\<rparr>" and ?ch = "new_Chunk B 600 False"
  have wf: "chunk_wf ?ch" "chunkPtr ?ch = B" "chunkSize ?ch = 600" "length B = 600"
    by (simp_all add: chunk_wf_def new_Chunk_def) (simp_all add: B_def)
  have t: "hash_total long_env" using hash_total_plain by (simp add: hash_total_def long_env_def)
  then obtain h where h: "sha256 long_env B = Some h" "length h = CHUNK_HASH_SIZE" by (auto simp: hash_total_def)
  obtain sf where sf: "GetSF long_env B = Inr sf" using GetSF_ok [OF t, of B] wf(4) by auto
  have f: "SF_Find sf ?m = 0" by (simp add: SF_Find_def FINESSE_SF_NUM_def upt_rec)
  obtain dw where "encode_delta long_env 0 ?ch one_chunk_store = Inr (0 # B, dw)" using long_env_encode [OF wf(1)] wf(2) by auto
  then show ?thesis unfolding B_def [symmetric]
    using Finesse_delta_overflow [OF wf(1), of long_env h ?m sf "0 # B" dw] wf h sf f by (simp add: AbsMethod_new_def)
qed

end
