(* ===== verification/XXHash.thy ===== *)
theory XXHash
  imports Definitions
begin

text \<open>
  The hash functions of \<open>src/util/xxhash.cc\<close> that turn groups of features into super-features: the
  one-shot functions \<open>XXH32\<close> and \<open>XXH64\<close> and their streaming variants.  The machine is little endian, so
  the byte-swapping branches are not taken; aligned and unaligned reads give the same value.
  The contract \<open>streaming\<close> states what both streaming interfaces promise; their digests are the one-shot
  hashes of the concatenated input.
\<close>

unbundle bit_operations_syntax

section \<open>Constants and reads\<close>

definition PRIME32_1 :: u32 where "PRIME32_1 = 2654435761"
definition PRIME32_2 :: u32 where "PRIME32_2 = 2246822519"
definition PRIME32_3 :: u32 where "PRIME32_3 = 3266489917"
definition PRIME32_4 :: u32 where "PRIME32_4 = 668265263"
definition PRIME32_5 :: u32 where "PRIME32_5 = 374761393"

definition PRIME64_1 :: u64 where "PRIME64_1 = 11400714785074694791"
definition PRIME64_2 :: u64 where "PRIME64_2 = 14029467366897019727"
definition PRIME64_3 :: u64 where "PRIME64_3 = 1609587929392839161"
definition PRIME64_4 :: u64 where "PRIME64_4 = 9650029242287828579"
definition PRIME64_5 :: u64 where "PRIME64_5 = 2870177450012600261"

definition XXH_rotl32 :: "u32 \<Rightarrow> nat \<Rightarrow> u32" where
  "XXH_rotl32 x r = push_bit r x OR drop_bit (32 - r) x"

definition XXH_rotl64 :: "u64 \<Rightarrow> nat \<Rightarrow> u64" where
  "XXH_rotl64 x r = push_bit r x OR drop_bit (64 - r) x"

definition XXH_readLE32 :: "byte list \<Rightarrow> u32" where
  "XXH_readLE32 p = le_word (take 4 p)"

definition XXH_readLE64 :: "byte list \<Rightarrow> u64" where
  "XXH_readLE64 p = le_word (take 8 p)"

section \<open>The loop over whole blocks\<close>

text \<open>
  \<open>do { \<dots> } while (p <= limit)\<close> and its guards: all whole blocks of \<open>B\<close> bytes are mixed into the lanes, the
  rest stays.
\<close>

function absorb :: "nat \<Rightarrow> ('v \<Rightarrow> byte list \<Rightarrow> 'v) \<Rightarrow> 'v \<Rightarrow> byte list \<Rightarrow> 'v \<times> byte list" where
  "absorb B f v p = (if B = 0 \<or> length p < B then (v, p) else absorb B f (f v (take B p)) (drop B p))"
  by pat_completeness auto
termination
  by (relation "measure (\<lambda>(B, f, v, p). length p)") auto

declare absorb.simps [simp del]

section \<open>One-shot hashes\<close>

subsection \<open>32 bit\<close>

definition XXH32_round :: "u32 \<Rightarrow> u32 \<Rightarrow> u32" where
  "XXH32_round v k = XXH_rotl32 (v + k * PRIME32_2) 13 * PRIME32_1"

type_synonym lanes32 = "u32 \<times> u32 \<times> u32 \<times> u32"

definition XXH32_init :: "u32 \<Rightarrow> lanes32" where
  "XXH32_init seed = (seed + PRIME32_1 + PRIME32_2, seed + PRIME32_2, seed + 0, seed - PRIME32_1)"

definition XXH32_block :: "lanes32 \<Rightarrow> byte list \<Rightarrow> lanes32" where
  "XXH32_block = (\<lambda>(v1, v2, v3, v4) p.
     (XXH32_round v1 (XXH_readLE32 p), XXH32_round v2 (XXH_readLE32 (drop 4 p)),
      XXH32_round v3 (XXH_readLE32 (drop 8 p)), XXH32_round v4 (XXH_readLE32 (drop 12 p))))"

definition XXH32_merge :: "lanes32 \<Rightarrow> u32" where
  "XXH32_merge = (\<lambda>(v1, v2, v3, v4). XXH_rotl32 v1 1 + XXH_rotl32 v2 7 + XXH_rotl32 v3 12 + XXH_rotl32 v4 18)"

fun XXH32_bytes :: "u32 \<Rightarrow> byte list \<Rightarrow> u32" where
  "XXH32_bytes h [] = h"
| "XXH32_bytes h (b # p) = XXH32_bytes (XXH_rotl32 (h + ucast b * PRIME32_5) 11 * PRIME32_1) p"

function XXH32_words :: "u32 \<Rightarrow> byte list \<Rightarrow> u32" where
  "XXH32_words h p =
     (if 4 \<le> length p then XXH32_words (XXH_rotl32 (h + XXH_readLE32 p * PRIME32_3) 17 * PRIME32_4) (drop 4 p)
      else XXH32_bytes h p)"
  by pat_completeness auto
termination
  by (relation "measure (\<lambda>(h, p). length p)") auto

declare XXH32_words.simps [simp del]

definition XXH32_avalanche :: "u32 \<Rightarrow> u32" where
  "XXH32_avalanche h =
     (let h = h XOR drop_bit 15 h; h = h * PRIME32_2; h = h XOR drop_bit 13 h; h = h * PRIME32_3
      in h XOR drop_bit 16 h)"

definition XXH32 :: "byte list \<Rightarrow> u32 \<Rightarrow> u32" where
  "XXH32 p seed =
     (let len = length p;
          (h, p) = (if len \<ge> 16 then let (v, p) = absorb 16 XXH32_block (XXH32_init seed) p in (XXH32_merge v, p)
                    else (seed + PRIME32_5, p))
      in XXH32_avalanche (XXH32_words (h + of_nat len) p))"

subsection \<open>64 bit\<close>

definition XXH64_round :: "u64 \<Rightarrow> u64 \<Rightarrow> u64" where
  "XXH64_round v k = XXH_rotl64 (v + k * PRIME64_2) 31 * PRIME64_1"

type_synonym lanes64 = "u64 \<times> u64 \<times> u64 \<times> u64"

definition XXH64_init :: "u64 \<Rightarrow> lanes64" where
  "XXH64_init seed = (seed + PRIME64_1 + PRIME64_2, seed + PRIME64_2, seed + 0, seed - PRIME64_1)"

definition XXH64_block :: "lanes64 \<Rightarrow> byte list \<Rightarrow> lanes64" where
  "XXH64_block = (\<lambda>(v1, v2, v3, v4) p.
     (XXH64_round v1 (XXH_readLE64 p), XXH64_round v2 (XXH_readLE64 (drop 8 p)),
      XXH64_round v3 (XXH_readLE64 (drop 16 p)), XXH64_round v4 (XXH_readLE64 (drop 24 p))))"

definition XXH64_mergeRound :: "u64 \<Rightarrow> u64 \<Rightarrow> u64" where
  "XXH64_mergeRound h v =
     (let v = v * PRIME64_2; v = XXH_rotl64 v 31; v = v * PRIME64_1; h = h XOR v in h * PRIME64_1 + PRIME64_4)"

definition XXH64_merge :: "lanes64 \<Rightarrow> u64" where
  "XXH64_merge = (\<lambda>(v1, v2, v3, v4).
     let h = XXH_rotl64 v1 1 + XXH_rotl64 v2 7 + XXH_rotl64 v3 12 + XXH_rotl64 v4 18;
         h = XXH64_mergeRound h v1; h = XXH64_mergeRound h v2; h = XXH64_mergeRound h v3
     in XXH64_mergeRound h v4)"

fun XXH64_bytes :: "u64 \<Rightarrow> byte list \<Rightarrow> u64" where
  "XXH64_bytes h [] = h"
| "XXH64_bytes h (b # p) = XXH64_bytes (XXH_rotl64 (h XOR ucast b * PRIME64_5) 11 * PRIME64_1) p"

definition XXH64_word :: "u64 \<Rightarrow> byte list \<Rightarrow> u64" where
  "XXH64_word h p =
     (if 4 \<le> length p
      then XXH64_bytes (XXH_rotl64 (h XOR ucast (XXH_readLE32 p) * PRIME64_1) 23 * PRIME64_2 + PRIME64_3) (drop 4 p)
      else XXH64_bytes h p)"

function XXH64_words :: "u64 \<Rightarrow> byte list \<Rightarrow> u64" where
  "XXH64_words h p =
     (if 8 \<le> length p then
        let k = XXH_readLE64 p; k = k * PRIME64_2; k = XXH_rotl64 k 31; k = k * PRIME64_1; h = h XOR k
        in XXH64_words (XXH_rotl64 h 27 * PRIME64_1 + PRIME64_4) (drop 8 p)
      else XXH64_word h p)"
  by pat_completeness auto
termination
  by (relation "measure (\<lambda>(h, p). length p)") auto

declare XXH64_words.simps [simp del]

definition XXH64_avalanche :: "u64 \<Rightarrow> u64" where
  "XXH64_avalanche h =
     (let h = h XOR drop_bit 33 h; h = h * PRIME64_2; h = h XOR drop_bit 29 h; h = h * PRIME64_3
      in h XOR drop_bit 32 h)"

definition XXH64 :: "byte list \<Rightarrow> u64 \<Rightarrow> u64" where
  "XXH64 p seed =
     (let len = length p;
          (h, p) = (if len \<ge> 32 then let (v, p) = absorb 32 XXH64_block (XXH64_init seed) p in (XXH64_merge v, p)
                    else (seed + PRIME64_5, p))
      in XXH64_avalanche (XXH64_words (h + of_nat len) p))"

section \<open>Streaming hashes\<close>

text \<open>
  The states.  \<open>mem32\<close> and \<open>mem64\<close> are the buffers as bytes; \<open>memsize\<close> stays below the block size.  A new
  state comes from \<open>malloc\<close>: its contents are arbitrary and the buffer stays so after a reset.
\<close>

record XXH_istate32_t =
  total_len32 :: u64
  seed32 :: u32
  lanes_of32 :: lanes32
  mem32 :: "byte list"
  memsize32 :: nat

record XXH_istate64_t =
  total_len64 :: u64
  seed64 :: u64
  lanes_of64 :: lanes64
  mem64 :: "byte list"
  memsize64 :: nat

definition XXH32_reset :: "XXH_istate32_t \<Rightarrow> u32 \<Rightarrow> XXH_istate32_t" where
  "XXH32_reset s seed = s\<lparr>seed32 := seed, lanes_of32 := XXH32_init seed, total_len32 := 0, memsize32 := 0\<rparr>"

definition XXH64_reset :: "XXH_istate64_t \<Rightarrow> u64 \<Rightarrow> XXH_istate64_t" where
  "XXH64_reset s seed = s\<lparr>seed64 := seed, lanes_of64 := XXH64_init seed, total_len64 := 0, memsize64 := 0\<rparr>"

definition XXH32_update :: "XXH_istate32_t \<Rightarrow> byte list \<Rightarrow> XXH_istate32_t" where
  "XXH32_update s p =
     (let s = s\<lparr>total_len32 := total_len32 s + of_nat (length p)\<rparr> in
      if memsize32 s + length p < 16 then
        s\<lparr>mem32 := overwrite (memsize32 s) p (mem32 s), memsize32 := memsize32 s + length p\<rparr>
      else
        let (s, p) =
              (if memsize32 s \<noteq> 0 then
                 let n = 16 - memsize32 s; mem = overwrite (memsize32 s) (take n p) (mem32 s)
                 in (s\<lparr>mem32 := mem, lanes_of32 := XXH32_block (lanes_of32 s) mem, memsize32 := 0\<rparr>, drop n p)
               else (s, p));
            (v, p) = absorb 16 XXH32_block (lanes_of32 s) p;
            s = s\<lparr>lanes_of32 := v\<rparr>
        in if p \<noteq> [] then s\<lparr>mem32 := overwrite 0 p (mem32 s), memsize32 := length p\<rparr> else s)"

definition XXH64_update :: "XXH_istate64_t \<Rightarrow> byte list \<Rightarrow> XXH_istate64_t" where
  "XXH64_update s p =
     (let s = s\<lparr>total_len64 := total_len64 s + of_nat (length p)\<rparr> in
      if memsize64 s + length p < 32 then
        s\<lparr>mem64 := overwrite (memsize64 s) p (mem64 s), memsize64 := memsize64 s + length p\<rparr>
      else
        let (s, p) =
              (if memsize64 s \<noteq> 0 then
                 let n = 32 - memsize64 s; mem = overwrite (memsize64 s) (take n p) (mem64 s)
                 in (s\<lparr>mem64 := mem, lanes_of64 := XXH64_block (lanes_of64 s) mem, memsize64 := 0\<rparr>, drop n p)
               else (s, p));
            (v, p) = absorb 32 XXH64_block (lanes_of64 s) p;
            s = s\<lparr>lanes_of64 := v\<rparr>
        in if p \<noteq> [] then s\<lparr>mem64 := overwrite 0 p (mem64 s), memsize64 := length p\<rparr> else s)"

definition XXH32_digest :: "XXH_istate32_t \<Rightarrow> u32" where
  "XXH32_digest s =
     (let h = (if total_len32 s \<ge> 16 then XXH32_merge (lanes_of32 s) else seed32 s + PRIME32_5)
      in XXH32_avalanche (XXH32_words (h + ucast (total_len32 s)) (take (memsize32 s) (mem32 s))))"

definition XXH64_digest :: "XXH_istate64_t \<Rightarrow> u64" where
  "XXH64_digest s =
     (let h = (if total_len64 s \<ge> 32 then XXH64_merge (lanes_of64 s) else seed64 s + PRIME64_5)
      in XXH64_avalanche (XXH64_words (h + total_len64 s) (take (memsize64 s) (mem64 s))))"

section \<open>Lemmas\<close>

lemma absorb_short: "length p < B \<Longrightarrow> absorb B f v p = (v, p)"
  by (simp add: absorb.simps)

lemma absorb_block: "0 < B \<Longrightarrow> length b = B \<Longrightarrow> absorb B f v (b @ p) = absorb B f (f v b) p"
  by (simp add: absorb.simps [of B f v])

lemma absorb_rest: "0 < B \<Longrightarrow> absorb B f v p = (v', r) \<Longrightarrow> length r < B"
  by (induction B f v p rule: absorb.induct) (subst (asm) (2) absorb.simps, auto split: if_splits)

lemma absorb_append:
  "absorb B f v p = (v', r) \<Longrightarrow> absorb B f v (p @ q) = absorb B f v' (r @ q)"
proof (induction B f v p arbitrary: v' r rule: absorb.induct)
  case (1 B f v p)
  show ?case
  proof (cases "B = 0 \<or> length p < B")
    case True
    with "1.prems" show ?thesis by (simp add: absorb.simps [of B f v p])
  next
    case False
    with "1.prems" have "absorb B f (f v (take B p)) (drop B p) = (v', r)" by (simp add: absorb.simps [of B f v p])
    with "1.IH" [OF False] have "absorb B f (f v (take B p)) (drop B p @ q) = absorb B f v' (r @ q)" by blast
    with False absorb_block [of B "take B p" f v "drop B p @ q"]
    have "absorb B f v (take B p @ drop B p @ q) = absorb B f v' (r @ q)" by simp
    then show ?thesis by (simp only: append_assoc [symmetric] append_take_drop_id)
  qed
qed

subsection \<open>The streaming contract\<close>

text \<open>
  A streaming state shows its lanes and the bytes that wait in its buffer; feeding bytes has to have the
  effect of the block loop on the waiting bytes followed by the new ones.
\<close>

locale streaming =
  fixes B :: nat and block :: "'v \<Rightarrow> byte list \<Rightarrow> 'v" and inv :: "'s \<Rightarrow> bool"
    and lanes :: "'s \<Rightarrow> 'v" and waiting :: "'s \<Rightarrow> byte list" and update :: "'s \<Rightarrow> byte list \<Rightarrow> 's"
  assumes B_pos: "0 < B"
    and update_ok: "inv s \<Longrightarrow> inv (update s p)
      \<and> (lanes (update s p), waiting (update s p)) = absorb B block (lanes s) (waiting s @ p)"
begin

theorem feed_all:
  assumes "inv s" "absorb B block v xs = (lanes s, waiting s)"
  shows "inv (fold (\<lambda>p s. update s p) ps s)
    \<and> absorb B block v (xs @ concat ps)
      = (lanes (fold (\<lambda>p s. update s p) ps s), waiting (fold (\<lambda>p s. update s p) ps s))"
  using assms
proof (induction ps arbitrary: s xs)
  case Nil
  then show ?case by simp
next
  case (Cons p ps)
  from Cons.prems(2) have "absorb B block v (xs @ p) = absorb B block (lanes s) (waiting s @ p)" by (rule absorb_append)
  with update_ok [OF Cons.prems(1), of p] have "inv (update s p)"
    "absorb B block v (xs @ p) = (lanes (update s p), waiting (update s p))" by simp_all
  from Cons.IH [OF this] show ?case by simp
qed

end

text \<open>What the buffering code of both update functions has in common.\<close>

lemma buffered_update:
  assumes "length mem = B" "n < B" "n + length p \<ge> B" "n \<noteq> 0"
  shows "absorb B f v (take n mem @ p) = absorb B f (f v (overwrite n (take (B - n) p) mem)) (drop (B - n) p)"
    and "length (overwrite n (take (B - n) p) mem) = B"
proof -
  have "overwrite n (take (B - n) p) mem = take n mem @ take (B - n) p" using assms by (simp add: overwrite_def)
  moreover have "take n mem @ p = (take n mem @ take (B - n) p) @ drop (B - n) p" by simp
  moreover have "length (take n mem @ take (B - n) p) = B" using assms by simp
  ultimately show "absorb B f v (take n mem @ p) = absorb B f (f v (overwrite n (take (B - n) p) mem)) (drop (B - n) p)"
    "length (overwrite n (take (B - n) p) mem) = B"
    using absorb_block [of B "take n mem @ take (B - n) p" f v "drop (B - n) p"] assms(2) by simp_all
qed

definition inv32 :: "XXH_istate32_t \<Rightarrow> bool" where
  "inv32 s \<longleftrightarrow> length (mem32 s) = 16 \<and> memsize32 s < 16"

definition inv64 :: "XXH_istate64_t \<Rightarrow> bool" where
  "inv64 s \<longleftrightarrow> length (mem64 s) = 32 \<and> memsize64 s < 32"

lemma store_rest:
  assumes "length mem = B" "length r < B"
  shows "length (overwrite 0 r mem) = B" "take (length r) (overwrite 0 r mem) = r"
  using assms by (simp_all add: overwrite_def)

lemma XXH32_update_ok:
  assumes "inv32 s"
  shows "inv32 (XXH32_update s p) \<and> (lanes_of32 (XXH32_update s p), take (memsize32 (XXH32_update s p)) (mem32 (XXH32_update s p)))
    = absorb 16 XXH32_block (lanes_of32 s) (take (memsize32 s) (mem32 s) @ p)"
proof (cases "memsize32 s + length p < 16")
  case True
  then show ?thesis using assms
    by (simp add: XXH32_update_def inv32_def overwrite_length take_overwrite absorb_short)
next
  case big: False
  let ?n = "memsize32 s"
  define mem where "mem = (if ?n = 0 then mem32 s else overwrite ?n (take (16 - ?n) p) (mem32 s))"
  define w where "w = (if ?n = 0 then lanes_of32 s else XXH32_block (lanes_of32 s) mem)"
  define q where "q = (if ?n = 0 then p else drop (16 - ?n) p)"
  obtain v r where a: "absorb 16 XXH32_block w q = (v, r)" by fastforce
  have r: "length r < 16" using absorb_rest [OF _ a] by simp
  have mem: "length mem = 16" and e: "absorb 16 XXH32_block (lanes_of32 s) (take ?n (mem32 s) @ p) = (v, r)"
    using buffered_update(1) [of "mem32 s" 16 ?n p XXH32_block "lanes_of32 s"] buffered_update(2) [of "mem32 s" 16 ?n p] big assms a
    by (cases "?n = 0"; simp add: mem_def w_def q_def inv32_def)+
  show ?thesis
    using big a e r mem store_rest [OF mem r] assms
    by (cases "?n = 0"; cases "r = []") (auto simp: XXH32_update_def Let_def mem_def w_def q_def inv32_def)
qed

lemma XXH64_update_ok:
  assumes "inv64 s"
  shows "inv64 (XXH64_update s p) \<and> (lanes_of64 (XXH64_update s p), take (memsize64 (XXH64_update s p)) (mem64 (XXH64_update s p)))
    = absorb 32 XXH64_block (lanes_of64 s) (take (memsize64 s) (mem64 s) @ p)"
proof (cases "memsize64 s + length p < 32")
  case True
  then show ?thesis using assms
    by (simp add: XXH64_update_def inv64_def overwrite_length take_overwrite absorb_short)
next
  case big: False
  let ?n = "memsize64 s"
  define mem where "mem = (if ?n = 0 then mem64 s else overwrite ?n (take (32 - ?n) p) (mem64 s))"
  define w where "w = (if ?n = 0 then lanes_of64 s else XXH64_block (lanes_of64 s) mem)"
  define q where "q = (if ?n = 0 then p else drop (32 - ?n) p)"
  obtain v r where a: "absorb 32 XXH64_block w q = (v, r)" by fastforce
  have r: "length r < 32" using absorb_rest [OF _ a] by simp
  have mem: "length mem = 32" and e: "absorb 32 XXH64_block (lanes_of64 s) (take ?n (mem64 s) @ p) = (v, r)"
    using buffered_update(1) [of "mem64 s" 32 ?n p XXH64_block "lanes_of64 s"] buffered_update(2) [of "mem64 s" 32 ?n p] big assms a
    by (cases "?n = 0"; simp add: mem_def w_def q_def inv64_def)+
  show ?thesis
    using big a e r mem store_rest [OF mem r] assms
    by (cases "?n = 0"; cases "r = []") (auto simp: XXH64_update_def Let_def mem_def w_def q_def inv64_def)
qed

interpretation xxh32: streaming 16 XXH32_block inv32 lanes_of32 "\<lambda>s. take (memsize32 s) (mem32 s)" XXH32_update
  by unfold_locales (simp, rule XXH32_update_ok)

interpretation xxh64: streaming 32 XXH64_block inv64 lanes_of64 "\<lambda>s. take (memsize64 s) (mem64 s)" XXH64_update
  by unfold_locales (simp, rule XXH64_update_ok)

section \<open>Correctness\<close>

lemma XXH32_fold_keeps:
  "total_len32 (fold (\<lambda>p s. XXH32_update s p) ps s) = total_len32 s + of_nat (length (concat ps))
   \<and> seed32 (fold (\<lambda>p s. XXH32_update s p) ps s) = seed32 s"
proof (induction ps arbitrary: s)
  case (Cons p ps)
  have "total_len32 (XXH32_update s p) = total_len32 s + of_nat (length p) \<and> seed32 (XXH32_update s p) = seed32 s"
    by (simp add: XXH32_update_def Let_def split: prod.split)
  with Cons show ?case by simp
qed simp

lemma XXH64_fold_keeps:
  "total_len64 (fold (\<lambda>p s. XXH64_update s p) ps s) = total_len64 s + of_nat (length (concat ps))
   \<and> seed64 (fold (\<lambda>p s. XXH64_update s p) ps s) = seed64 s"
proof (induction ps arbitrary: s)
  case (Cons p ps)
  have "total_len64 (XXH64_update s p) = total_len64 s + of_nat (length p) \<and> seed64 (XXH64_update s p) = seed64 s"
    by (simp add: XXH64_update_def Let_def split: prod.split)
  with Cons show ?case by simp
qed simp

lemma ucast_len: "(ucast (of_nat n :: u64) :: u32) = of_nat n"
  by transfer (simp add: take_bit_eq_mod mod_mod_cancel flip: of_nat_mod)

lemma len_ge: "n < 2 ^ 64 \<Longrightarrow> (numeral k :: u64) \<le> of_nat n \<longleftrightarrow> take_bit 64 (numeral k) \<le> n"
  by (simp add: word_le_nat_alt unsigned_of_nat take_bit_nat_eq_self)

text \<open>
  C26: Streaming and one-shot hashing agree: however the input is cut into updates, the digest of
  \<open>XXH32\<close> and of \<open>XXH64\<close> is the hash of the concatenated input (shorter than \<open>2 ^ 64\<close> bytes).
\<close>

theorem XXH_streaming:
  assumes "length (concat ps) < 2 ^ 64" "length (mem32 s) = 16" "length (mem64 t) = 32"
  shows "XXH32_digest (fold (\<lambda>p s. XXH32_update s p) ps (XXH32_reset s seed)) = XXH32 (concat ps) seed
    \<and> XXH64_digest (fold (\<lambda>p s. XXH64_update s p) ps (XXH64_reset t seed')) = XXH64 (concat ps) seed'"
proof
  let ?s = "XXH32_reset s seed" and ?t = "XXH64_reset t seed'"
  have i: "inv32 ?s" "absorb 16 XXH32_block (XXH32_init seed) [] = (lanes_of32 ?s, take (memsize32 ?s) (mem32 ?s))"
    using assms(2) by (simp_all add: inv32_def XXH32_reset_def absorb_short)
  show "XXH32_digest (fold (\<lambda>p s. XXH32_update s p) ps ?s) = XXH32 (concat ps) seed"
  proof -
    define e where "e = fold (\<lambda>p s. XXH32_update s p) ps ?s"
    have a: "absorb 16 XXH32_block (XXH32_init seed) (concat ps) = (lanes_of32 e, take (memsize32 e) (mem32 e))"
      using xxh32.feed_all [OF i, of ps] by (simp add: e_def)
    moreover have "total_len32 e = of_nat (length (concat ps))" "seed32 e = seed"
      using XXH32_fold_keeps [of ps ?s] by (simp_all add: e_def XXH32_reset_def)
    moreover from a have "length (concat ps) < 16 \<Longrightarrow> take (memsize32 e) (mem32 e) = concat ps" by (simp add: absorb_short)
    ultimately show ?thesis
      unfolding e_def [symmetric] using assms(1) by (auto simp: XXH32_digest_def XXH32_def len_ge ucast_len)
  qed
  have j: "inv64 ?t" "absorb 32 XXH64_block (XXH64_init seed') [] = (lanes_of64 ?t, take (memsize64 ?t) (mem64 ?t))"
    using assms(3) by (simp_all add: inv64_def XXH64_reset_def absorb_short)
  show "XXH64_digest (fold (\<lambda>p s. XXH64_update s p) ps ?t) = XXH64 (concat ps) seed'"
  proof -
    define e where "e = fold (\<lambda>p s. XXH64_update s p) ps ?t"
    have a: "absorb 32 XXH64_block (XXH64_init seed') (concat ps) = (lanes_of64 e, take (memsize64 e) (mem64 e))"
      using xxh64.feed_all [OF j, of ps] by (simp add: e_def)
    moreover have "total_len64 e = of_nat (length (concat ps))" "seed64 e = seed'"
      using XXH64_fold_keeps [of ps ?t] by (simp_all add: e_def XXH64_reset_def)
    moreover from a have "length (concat ps) < 32 \<Longrightarrow> take (memsize64 e) (mem64 e) = concat ps" by (simp add: absorb_short)
    ultimately show ?thesis
      unfolding e_def [symmetric] using assms(1) by (auto simp: XXH64_digest_def XXH64_def len_ge ucast_len)
  qed
qed

theorem XXH_streaming_witness:
  "XXH64_digest (XXH64_update (XXH64_update (XXH64_reset
       \<lparr>total_len64 = 7, seed64 = 1, lanes_of64 = (0, 0, 0, 0), mem64 = replicate 32 9, memsize64 = 5\<rparr> 0x7fcaf1)
       [1, 2, 3]) [4]) = XXH64 [1, 2, 3, 4] 0x7fcaf1"
  using XXH_streaming [of "[[1, 2, 3], [4]]"
      "\<lparr>total_len32 = 0, seed32 = 0, lanes_of32 = (0, 0, 0, 0), mem32 = replicate 16 0, memsize32 = 0\<rparr>"
      "\<lparr>total_len64 = 7, seed64 = 1, lanes_of64 = (0, 0, 0, 0), mem64 = replicate 32 9, memsize64 = 5\<rparr>" 0 "0x7fcaf1"]
  by simp

end
