(* ===== verification/Similarity.thy ===== *)
theory Similarity
  imports DataWrite XXHash "HOL-Library.Mapping" "HOL-Library.Char_ord" "HOL-Library.List_Lexorder"
begin

unbundle bit_operations_syntax

text \<open>
  The features of \<open>src/method/odess_similarity_detection.cc\<close>, used by the methods Odess and Palantir: the
  class \<open>FeatureGenerator\<close> samples a Gear rolling hash of the chunk and keeps the maximum of twelve linear
  transformations; groups of features are hashed with XXH64 to super-features.  The class
  \<open>FeatureIndexTable\<close> maps super-features to the keys of the records that have them.

  The transformations are drawn from \<open>std::default_random_engine\<close>, whose numbers the standard does not
  fix: the drawn sequence is a parameter.  So is the order in which an \<open>unordered_set\<close> is iterated.
\<close>

section \<open>FeatureGenerator\<close>

record FeatureGenerator =
  fg_features :: "u64 list"
  transform_args_a :: "u64 list"
  transform_args_b :: "u64 list"
  kSampleRatioMask :: u64
  kFeatureNumber :: nat
  kSuperFeatureNumber :: nat

definition k1_128RatioMask :: u64 where "k1_128RatioMask = 0x0000400303410000"

definition FeatureGenerator_new :: "(nat \<Rightarrow> u64) \<Rightarrow> u64 \<Rightarrow> nat \<Rightarrow> nat \<Rightarrow> FeatureGenerator result" where
  "FeatureGenerator_new dis sample_mask n k =
     (if k = 0 then Inl DivideByZero
      else if n mod k \<noteq> 0 then Inl ExitFailure
      else Inr \<lparr>fg_features = replicate n 0, transform_args_a = map (\<lambda>i. dis (2 * i)) [0..<n],
                transform_args_b = map (\<lambda>i. dis (2 * i + 1)) [0..<n],
                kSampleRatioMask = sample_mask, kFeatureNumber = n, kSuperFeatureNumber = k\<rparr>)"

definition gear64_next :: "u64 \<Rightarrow> byte \<Rightarrow> u64" where
  "gear64_next hash v = push_bit 1 hash + GEARmx ! unat v"

definition sample_hash :: "u64 \<Rightarrow> FeatureGenerator \<Rightarrow> FeatureGenerator" where
  "sample_hash hash g =
     g\<lparr>fg_features := map (\<lambda>j. let r = hash * transform_args_a g ! j + transform_args_b g ! j
                               in if r > fg_features g ! j then r else fg_features g ! j) [0..<kFeatureNumber g]\<rparr>"

fun sample_loop :: "u64 \<Rightarrow> byte list \<Rightarrow> FeatureGenerator \<Rightarrow> FeatureGenerator" where
  "sample_loop hash [] g = g"
| "sample_loop hash (v # vs) g =
     (let hash = gear64_next hash v
      in sample_loop hash vs (if hash AND kSampleRatioMask g = 0 then sample_hash hash g else g))"

definition OdessResemblanceDetect :: "byte list \<Rightarrow> FeatureGenerator \<Rightarrow> FeatureGenerator" where
  "OdessResemblanceDetect value g = sample_loop 0 value g"

text \<open>The hash of \<open>n\<close> features from position \<open>i\<close> on, read as bytes on a little-endian machine.\<close>

definition hash_features :: "nat \<Rightarrow> nat \<Rightarrow> FeatureGenerator \<Rightarrow> u64" where
  "hash_features i n g = XXH64 (concat (map (\<lambda>f. le_bytes 8 (unat f)) (slice i n (fg_features g)))) 0x7fcaf1"

definition GroupFeaturesAsSuperFeatures :: "FeatureGenerator \<Rightarrow> u64 list" where
  "GroupFeaturesAsSuperFeatures g =
     (let group_len = kFeatureNumber g div kSuperFeatureNumber g
      in map (\<lambda>i. hash_features (i * group_len) group_len g) [0..<kSuperFeatureNumber g])"

definition CopyFeaturesAsSuperFeatures :: "FeatureGenerator \<Rightarrow> u64 list" where
  "CopyFeaturesAsSuperFeatures g = fg_features g"

definition MakeSuperFeatures :: "FeatureGenerator \<Rightarrow> u64 list" where
  "MakeSuperFeatures g =
     (if kSuperFeatureNumber g = kFeatureNumber g then CopyFeaturesAsSuperFeatures g else GroupFeaturesAsSuperFeatures g)"

definition CleanFeatures :: "FeatureGenerator \<Rightarrow> FeatureGenerator" where
  "CleanFeatures g = g\<lparr>fg_features := map (\<lambda>i. 0) [0..<kFeatureNumber g]\<rparr>"

definition GenerateSuperFeatures :: "byte list \<Rightarrow> FeatureGenerator \<Rightarrow> u64 list \<times> FeatureGenerator" where
  "GenerateSuperFeatures value g = (let g = OdessResemblanceDetect value (CleanFeatures g) in (MakeSuperFeatures g, g))"

text \<open>Palantir hashes the twelve features in three, four and six groups.\<close>

definition PalantirResemblanceDetect :: "byte list \<Rightarrow> FeatureGenerator \<Rightarrow> FeatureGenerator" where
  "PalantirResemblanceDetect value g = sample_loop 0 value g"

definition PalantirMakeSF :: "FeatureGenerator \<Rightarrow> u64 list" where
  "PalantirMakeSF g =
     map (\<lambda>i. let group_len = kFeatureNumber g div 3 in hash_features (i * group_len) group_len g) [0..<3]
     @ map (\<lambda>i. let group_len = kFeatureNumber g div 4 in hash_features ((i - 3) * group_len) group_len g) [3..<7]
     @ map (\<lambda>i. let group_len = kFeatureNumber g div 6 in hash_features ((i - 7) * group_len) group_len g) [7..<13]"

definition PalantirGetSF :: "byte list \<Rightarrow> FeatureGenerator \<Rightarrow> u64 list \<times> FeatureGenerator" where
  "PalantirGetSF value g = (let g = PalantirResemblanceDetect value (CleanFeatures g) in (PalantirMakeSF g, g))"

section \<open>FeatureIndexTable\<close>

record FeatureIndexTable =
  feature_generator :: FeatureGenerator
  feature_key_table :: "(u64, string set) mapping"
  key_feature_table :: "(string, u64 list) mapping"
  fit_SFindex :: "(u64, u64 list) mapping"

definition FeatureIndexTable_new :: "FeatureGenerator \<Rightarrow> FeatureIndexTable" where
  "FeatureIndexTable_new g =
     \<lparr>feature_generator = g, feature_key_table = Mapping.empty, key_feature_table = Mapping.empty, fit_SFindex = Mapping.empty\<rparr>"

text \<open>\<open>operator[]\<close> on \<open>feature_key_table_\<close> enters an empty set for a new super-feature.\<close>

definition keys_at :: "FeatureIndexTable \<Rightarrow> u64 \<Rightarrow> string set" where
  "keys_at t sf = (case Mapping.lookup (feature_key_table t) sf of None \<Rightarrow> {} | Some ks \<Rightarrow> ks)"

definition set_keys :: "u64 \<Rightarrow> string set \<Rightarrow> FeatureIndexTable \<Rightarrow> FeatureIndexTable" where
  "set_keys sf ks t = t\<lparr>feature_key_table := Mapping.update sf ks (feature_key_table t)\<rparr>"

definition GetSuperFeatures :: "string \<Rightarrow> FeatureIndexTable \<Rightarrow> u64 list option" where
  "GetSuperFeatures key t = Mapping.lookup (key_feature_table t) key"

definition ExecuteDelete :: "string \<Rightarrow> u64 list \<Rightarrow> FeatureIndexTable \<Rightarrow> FeatureIndexTable" where
  "ExecuteDelete key sfs t =
     (let t = fold (\<lambda>sf t. set_keys sf (keys_at t sf - {key}) t) sfs t
      in t\<lparr>key_feature_table := Mapping.delete key (key_feature_table t)\<rparr>)"

definition fit_Delete :: "string \<Rightarrow> FeatureIndexTable \<Rightarrow> FeatureIndexTable" where
  "fit_Delete key t = (case GetSuperFeatures key t of None \<Rightarrow> t | Some sfs \<Rightarrow> ExecuteDelete key sfs t)"

definition fit_Put :: "string \<Rightarrow> byte list \<Rightarrow> FeatureIndexTable \<Rightarrow> FeatureIndexTable" where
  "fit_Put key value t =
     (let t = fit_Delete key t;
          (sfs, g) = GenerateSuperFeatures value (feature_generator t);
          t = t\<lparr>feature_generator := g, key_feature_table := Mapping.update key sfs (key_feature_table t)\<rparr>
      in fold (\<lambda>sf t. set_keys sf (insert key (keys_at t sf)) t) sfs t)"

definition CountAllSimilarRecords :: "FeatureIndexTable \<Rightarrow> nat" where
  "CountAllSimilarRecords t =
     card (\<Union>sf \<in> Mapping.keys (feature_key_table t). if card (keys_at t sf) > 1 then keys_at t sf else {})"

fun similar_key_from :: "(string set \<Rightarrow> string list) \<Rightarrow> string \<Rightarrow> u64 list \<Rightarrow> FeatureIndexTable \<Rightarrow> string \<times> FeatureIndexTable" where
  "similar_key_from iter key [] t = (''not found'', t)"
| "similar_key_from iter key (sf # sfs) t =
     (let t = set_keys sf (keys_at t sf) t
      in case find (\<lambda>k. k \<noteq> key) (iter (keys_at t sf)) of
           Some k \<Rightarrow> (k, t)
         | None \<Rightarrow> similar_key_from iter key sfs t)"

definition GetSimilarRecordsKeys :: "(string set \<Rightarrow> string list) \<Rightarrow> string \<Rightarrow> FeatureIndexTable \<Rightarrow> string \<times> FeatureIndexTable" where
  "GetSimilarRecordsKeys iter key t =
     (case GetSuperFeatures key t of None \<Rightarrow> (''not found'', t) | Some sfs \<Rightarrow> similar_key_from iter key sfs t)"

fun GetSimilarRecordKey :: "(string set \<Rightarrow> string list) \<Rightarrow> u64 list \<Rightarrow> FeatureIndexTable \<Rightarrow> string" where
  "GetSimilarRecordKey iter [] t = ''not found''"
| "GetSimilarRecordKey iter (sf # sfs) t =
     (case Mapping.lookup (feature_key_table t) sf of
        None \<Rightarrow> GetSimilarRecordKey iter sfs t
      | Some ks \<Rightarrow> (case iter ks of k # _ \<Rightarrow> k | [] \<Rightarrow> GetSimilarRecordKey iter sfs t))"

text \<open>The index from super-features to chunk identifiers; \<open>-1\<close> is the largest \<open>uint64_t\<close>.\<close>

fun fit_SF_Find :: "u64 list \<Rightarrow> FeatureIndexTable \<Rightarrow> u64" where
  "fit_SF_Find [] t = - 1"
| "fit_SF_Find (sf # sfs) t =
     (case Mapping.lookup (fit_SFindex t) sf of
        Some (i # _) \<Rightarrow> i
      | _ \<Rightarrow> fit_SF_Find sfs t)"

definition fit_SF_Insert :: "u64 list \<Rightarrow> u64 \<Rightarrow> FeatureIndexTable \<Rightarrow> FeatureIndexTable result" where
  "fit_SF_Insert sfs i t =
     (if length sfs < ODESS_SF_NUM then Inl OutOfBounds
      else Inr (t\<lparr>fit_SFindex := fold (\<lambda>sf idx. Mapping.map_default sf [] (\<lambda>ids. ids @ [i]) idx)
                                   (take ODESS_SF_NUM sfs) (fit_SFindex t)\<rparr>))"

section \<open>The features are maxima over windows\<close>

definition fg_wf :: "FeatureGenerator \<Rightarrow> bool" where
  "fg_wf g \<longleftrightarrow> length (fg_features g) = kFeatureNumber g \<and> length (transform_args_a g) = kFeatureNumber g
     \<and> length (transform_args_b g) = kFeatureNumber g \<and> 0 < kSuperFeatureNumber g \<and> kSuperFeatureNumber g dvd kFeatureNumber g"

lemma FeatureGenerator_new_wf: "FeatureGenerator_new dis msk n k = Inr g \<Longrightarrow> fg_wf g"
  by (auto simp: FeatureGenerator_new_def fg_wf_def split: if_splits)

definition gear64 :: "byte list \<Rightarrow> u64" where
  "gear64 vs = foldl gear64_next 0 vs"

lemma gear64_foldl: "foldl gear64_next h vs = push_bit (length vs) h + gear64 vs"
proof (induction vs rule: rev_induct)
  case (snoc v vs)
  then show ?case by (simp add: gear64_def gear64_next_def push_bit_eq_mult algebra_simps)
qed (simp add: gear64_def)

lemma gear64_suffix: "64 \<le> length w \<Longrightarrow> gear64 (u @ w) = gear64 w"
  using gear64_foldl [of "gear64 u" w] push_bit_word_beyond [of "length w" "gear64 u"] by (simp add: gear64_def)

text \<open>The hash at a position depends on the last 64 bytes only: the window that ends there.\<close>

definition windows :: "byte list \<Rightarrow> byte list set" where
  "windows vs = (\<lambda>i. drop (Suc i - 64) (take (Suc i) vs)) ` {..<length vs}"

lemma gear64_window:
  assumes "i < length vs"
  shows "gear64 (take (Suc i) vs) = gear64 (drop (Suc i - 64) (take (Suc i) vs))"
proof (cases "Suc i \<le> 64")
  case False
  have "take (Suc i) vs = take (Suc i - 64) vs @ drop (Suc i - 64) (take (Suc i) vs)"
    by (metis append_take_drop_id diff_le_self min_absorb1 take_take)
  then show ?thesis
    using gear64_suffix [of "drop (Suc i - 64) (take (Suc i) vs)" "take (Suc i - 64) vs"] assms False by simp
qed simp

fun gear64_hashes :: "u64 \<Rightarrow> byte list \<Rightarrow> u64 list" where
  "gear64_hashes h [] = []"
| "gear64_hashes h (v # vs) = gear64_next h v # gear64_hashes (gear64_next h v) vs"

lemma gear64_hashes_eq: "gear64_hashes h vs = map (\<lambda>i. foldl gear64_next h (take (Suc i) vs)) [0..<length vs]"
proof (induction vs arbitrary: h)
  case (Cons v vs)
  then show ?case by (simp add: upt_rec [of 0 "Suc _"] map_Suc_upt [symmetric] del: upt_Suc)
qed simp

lemma sample_loop_fold:
  "sample_loop h vs g = fold sample_hash (filter (\<lambda>h. h AND kSampleRatioMask g = 0) (gear64_hashes h vs)) g"
proof (induction h vs g rule: sample_loop.induct)
  case (2 h v vs g)
  then show ?case by (auto simp: Let_def sample_hash_def)
qed simp

lemma sample_hash_max:
  "sample_hash h g = g\<lparr>fg_features := map (\<lambda>j. max (fg_features g ! j) (h * transform_args_a g ! j + transform_args_b g ! j))
      [0..<kFeatureNumber g]\<rparr>"
proof -
  have "(if r > f then r else f) = max f r" for r f :: u64 by (auto simp: max_def)
  then show ?thesis by (simp add: sample_hash_def Let_def)
qed

lemma sample_fold_features:
  "fg_wf g \<Longrightarrow> fold sample_hash hs g = g\<lparr>fg_features := map (\<lambda>j. fold (\<lambda>h b. max b (h * transform_args_a g ! j + transform_args_b g ! j))
      hs (fg_features g ! j)) [0..<kFeatureNumber g]\<rparr>"
proof (induction hs arbitrary: g)
  case Nil
  then have "map ((!) (fg_features g)) [0..<kFeatureNumber g] = fg_features g" by (metis fg_wf_def map_nth)
  then show ?case by simp
next
  case (Cons h hs)
  have "fg_wf (sample_hash h g)" using Cons.prems by (simp add: fg_wf_def sample_hash_def)
  let ?a = "transform_args_a g" and ?b = "transform_args_b g"
  have "fold sample_hash (h # hs) g = fold sample_hash hs (sample_hash h g)" by simp
  also have "\<dots> = g\<lparr>fg_features := map (\<lambda>j. fold (\<lambda>h b. max b (h * ?a ! j + ?b ! j)) hs (fg_features (sample_hash h g) ! j))
      [0..<kFeatureNumber g]\<rparr>"
    using Cons.IH [OF \<open>fg_wf (sample_hash h g)\<close>] by (simp add: sample_hash_max [of h g])
  also have "\<dots> = g\<lparr>fg_features := map (\<lambda>j. fold (\<lambda>h b. max b (h * ?a ! j + ?b ! j)) (h # hs) (fg_features g ! j))
      [0..<kFeatureNumber g]\<rparr>"
    by (simp add: sample_hash_max)
  finally show ?case .
qed

text \<open>
  C32: The features of a chunk are what Odess promises: feature \<open>j\<close> is the maximum of the \<open>j\<close>-th transformation
  over the Gear hashes of all sampled 64-byte windows (shorter ones at the beginning), whatever the
  generator held before.  Chunks with the same set of windows therefore have the same super-features.
\<close>

theorem GenerateSuperFeatures_spec:
  assumes "fg_wf g"
  shows "fg_features (snd (GenerateSuperFeatures value g)) =
      map (\<lambda>j. Max (insert 0 ((\<lambda>w. gear64 w * transform_args_a g ! j + transform_args_b g ! j)
             ` {w \<in> windows value. gear64 w AND kSampleRatioMask g = 0}))) [0..<kFeatureNumber g]
    \<and> (windows value = windows value' \<longrightarrow> fst (GenerateSuperFeatures value g) = fst (GenerateSuperFeatures value' g))"
proof -
  let ?hs = "\<lambda>v. filter (\<lambda>h. h AND kSampleRatioMask g = 0) (gear64_hashes 0 v)"
  let ?f = "\<lambda>v. map (\<lambda>j. Max (insert 0 ((\<lambda>w. gear64 w * transform_args_a g ! j + transform_args_b g ! j)
             ` {w \<in> windows v. gear64 w AND kSampleRatioMask g = 0}))) [0..<kFeatureNumber g]"
  have "fg_wf (CleanFeatures g)" using assms by (simp add: fg_wf_def CleanFeatures_def)
  have set: "set (?hs v) = gear64 ` {w \<in> windows v. gear64 w AND kSampleRatioMask g = 0}" for v
  proof -
    have "set (gear64_hashes 0 v) = gear64 ` windows v"
      using gear64_window [of _ v] by (auto simp: gear64_hashes_eq windows_def gear64_def [symmetric] image_image)
    then show ?thesis by auto
  qed
  have feats: "OdessResemblanceDetect v (CleanFeatures g) = g\<lparr>fg_features := ?f v\<rparr>" for v
  proof -
    have "OdessResemblanceDetect v (CleanFeatures g) = fold sample_hash (?hs v) (CleanFeatures g)"
      by (simp add: OdessResemblanceDetect_def sample_loop_fold CleanFeatures_def)
    also have "\<dots> = g\<lparr>fg_features := map (\<lambda>j. fold (\<lambda>h b. max b (h * transform_args_a g ! j + transform_args_b g ! j)) (?hs v) 0)
        [0..<kFeatureNumber g]\<rparr>"
      using sample_fold_features [OF \<open>fg_wf (CleanFeatures g)\<close>, of "?hs v"] by (simp add: CleanFeatures_def)
    finally show ?thesis unfolding fold_max_list set by (simp add: image_image)
  qed
  then show ?thesis by (auto simp: GenerateSuperFeatures_def Let_def)
qed

theorem GenerateSuperFeatures_spec_witness:
  "\<exists>g. FeatureGenerator_new (\<lambda>i. of_nat (2 * i + 1)) k1_128RatioMask 12 3 = Inr g
    \<and> length (fg_features (snd (GenerateSuperFeatures [1, 2, 3] g))) = 12"
proof -
  obtain g where g: "FeatureGenerator_new (\<lambda>i. of_nat (2 * i + 1)) k1_128RatioMask 12 3 = Inr g" "kFeatureNumber g = 12"
    by (simp add: FeatureGenerator_new_def)
  from GenerateSuperFeatures_spec [OF FeatureGenerator_new_wf [OF g(1)], of "[1, 2, 3]" "[]"] g show ?thesis by auto
qed

text \<open>The sizes of the delivered vectors.\<close>

lemma sample_loop_wf: "fg_wf g \<Longrightarrow> fg_wf (sample_loop h vs g) \<and> kFeatureNumber (sample_loop h vs g) = kFeatureNumber g
    \<and> kSuperFeatureNumber (sample_loop h vs g) = kSuperFeatureNumber g"
  by (induction h vs g rule: sample_loop.induct) (auto simp: Let_def fg_wf_def sample_hash_def)

lemma sample_loop_Clean: "CleanFeatures (sample_loop h vs g) = CleanFeatures g"
  by (induction h vs g rule: sample_loop.induct) (simp_all add: Let_def CleanFeatures_def sample_hash_def)

lemma CleanFeatures_wf: "fg_wf g \<Longrightarrow> fg_wf (CleanFeatures g)"
  by (simp add: fg_wf_def CleanFeatures_def)



section \<open>The table is consistent\<close>

definition sfs_of :: "FeatureIndexTable \<Rightarrow> string \<Rightarrow> u64 list" where
  "sfs_of t key = (case GetSuperFeatures key t of None \<Rightarrow> [] | Some sfs \<Rightarrow> sfs)"

definition fit_inv :: "FeatureIndexTable \<Rightarrow> bool" where
  "fit_inv t \<longleftrightarrow> (\<forall>sf. finite (keys_at t sf) \<and> (\<forall>key. key \<in> keys_at t sf \<longleftrightarrow> sf \<in> set (sfs_of t key)))"

definition similar :: "FeatureIndexTable \<Rightarrow> string \<Rightarrow> string \<Rightarrow> bool" where
  "similar t key k \<longleftrightarrow> k \<noteq> key \<and> (\<exists>sf. sf \<in> set (sfs_of t key) \<and> sf \<in> set (sfs_of t k))"

lemma set_keys_sel [simp]:
  "keys_at (set_keys sf ks t) sf' = (if sf' = sf then ks else keys_at t sf')"
  "key_feature_table (set_keys sf ks t) = key_feature_table t" "feature_generator (set_keys sf ks t) = feature_generator t"
  by (simp_all add: keys_at_def set_keys_def lookup_update')

lemma keys_at_upd [simp]:
  "keys_at (t\<lparr>key_feature_table := kf\<rparr>) = keys_at t" "keys_at (t\<lparr>feature_generator := g\<rparr>) = keys_at t"
  by (simp_all add: keys_at_def fun_eq_iff)

lemma fold_set_keys:
  assumes "\<And>ks. F (F ks) = F ks"
  shows "keys_at (fold (\<lambda>sf t. set_keys sf (F (keys_at t sf)) t) sfs t) sf = (if sf \<in> set sfs then F (keys_at t sf) else keys_at t sf)"
    and "key_feature_table (fold (\<lambda>sf t. set_keys sf (F (keys_at t sf)) t) sfs t) = key_feature_table t"
    and "feature_generator (fold (\<lambda>sf t. set_keys sf (F (keys_at t sf)) t) sfs t) = feature_generator t"
  by (induction sfs arbitrary: t) (auto simp: assms)

lemma lookup_delete_if: "Mapping.lookup (Mapping.delete k m) k' = (if k' = k then None else Mapping.lookup m k')"
  by simp

lemma fit_inv_Delete:
  assumes "fit_inv t"
  shows "fit_inv (fit_Delete key t)" "sfs_of (fit_Delete key t) key = []"
  using assms fold_set_keys [of "\<lambda>ks. ks - {key}"]
  by (auto simp: fit_inv_def fit_Delete_def ExecuteDelete_def sfs_of_def GetSuperFeatures_def Let_def lookup_delete_if split: option.splits)

lemma fit_inv_Put:
  assumes "fit_inv t"
  shows "fit_inv (fit_Put key value t)"
proof -
  let ?t = "fit_Delete key t"
  obtain sfs g where g: "GenerateSuperFeatures value (feature_generator ?t) = (sfs, g)" by fastforce
  have "fit_inv ?t" "sfs_of ?t key = []" using fit_inv_Delete [OF assms] by auto
  with fold_set_keys [of "insert key"] g show ?thesis
    by (auto simp: fit_inv_def fit_Put_def sfs_of_def GetSuperFeatures_def Let_def lookup_update' split: option.splits)
qed

text \<open>What the iteration over an \<open>unordered_set\<close> guarantees.\<close>

definition iter_law :: "(string set \<Rightarrow> string list) \<Rightarrow> bool" where
  "iter_law iter \<longleftrightarrow> (\<forall>ks. finite ks \<longrightarrow> set (iter ks) = ks)"

lemma similar_key_from_spec:
  assumes "iter_law iter" "\<And>sf. finite (keys_at t sf)"
  shows "if \<exists>sf \<in> set sfs. \<exists>k \<in> keys_at t sf. k \<noteq> key
    then \<exists>sf \<in> set sfs. fst (similar_key_from iter key sfs t) \<in> keys_at t sf - {key}
    else fst (similar_key_from iter key sfs t) = ''not found''"
  using assms(2)
proof (induction sfs arbitrary: t)
  case (Cons sf sfs)
  let ?t = "set_keys sf (keys_at t sf) t"
  have same: "keys_at ?t = keys_at t" by (simp add: fun_eq_iff)
  have it: "set (iter (keys_at t sf)) = keys_at t sf" using assms(1) Cons.prems by (simp add: iter_law_def)
  show ?case
  proof (cases "find (\<lambda>k. k \<noteq> key) (iter (keys_at t sf))")
    case None
    then have "\<not> (\<exists>k \<in> keys_at t sf. k \<noteq> key)" using it by (auto simp: find_None_iff)
    moreover have "finite (keys_at ?t sf')" for sf' unfolding same by (rule Cons.prems)
    note Cons.IH [OF this, unfolded same]
    ultimately show ?thesis using None by (auto simp: Let_def split: if_splits)
  next
    case (Some k)
    then have "k \<in> keys_at t sf" "k \<noteq> key" using it by (auto simp: find_Some_iff)
    with Some show ?thesis by (auto simp: Let_def)
  qed
qed simp

lemma GetSimilarRecordsKeys_spec:
  assumes "iter_law iter" "fit_inv t"
  shows "if \<exists>k. similar t key k then similar t key (fst (GetSimilarRecordsKeys iter key t))
    else fst (GetSimilarRecordsKeys iter key t) = ''not found''"
proof (cases "GetSuperFeatures key t")
  case None
  then show ?thesis by (simp add: similar_def sfs_of_def GetSimilarRecordsKeys_def)
next
  case (Some sfs)
  have "\<And>sf. finite (keys_at t sf)" using assms(2) by (simp add: fit_inv_def)
  note spec = similar_key_from_spec [OF assms(1) this, of sfs key]
  have a: "(\<exists>sf \<in> set sfs. k \<in> keys_at t sf - {key}) \<longleftrightarrow> similar t key k" for k
    using assms(2) Some by (auto simp: similar_def fit_inv_def sfs_of_def [of t key])
  from a have "(\<exists>sf \<in> set sfs. \<exists>k \<in> keys_at t sf. k \<noteq> key) \<longleftrightarrow> (\<exists>k. similar t key k)" by blast
  from spec [unfolded this a] show ?thesis by (simp only: GetSimilarRecordsKeys_def Some option.simps)
qed

lemma CountAllSimilarRecords_spec:
  assumes "fit_inv t"
  shows "CountAllSimilarRecords t = card {k. \<exists>k'. similar t k k'}"
proof -
  have two: "card ks > 1 \<longleftrightarrow> (\<exists>a \<in> ks. \<exists>b \<in> ks. a \<noteq> b)" if "finite ks" for ks :: "string set"
    using that card_le_Suc0_iff_eq [of ks] by (metis One_nat_def not_less)
  have dom: "sf \<in> Mapping.keys (feature_key_table t)" if "k \<in> keys_at t sf" for k sf
    using that by (auto simp: keys_at_def keys_dom_lookup split: option.splits)
  have "k \<in> (\<Union>sf \<in> Mapping.keys (feature_key_table t). if card (keys_at t sf) > 1 then keys_at t sf else {})
      \<longleftrightarrow> (\<exists>k'. similar t k k')" for k
  proof -
    have "k \<in> (\<Union>sf \<in> Mapping.keys (feature_key_table t). if card (keys_at t sf) > 1 then keys_at t sf else {})
        \<longleftrightarrow> (\<exists>sf. k \<in> keys_at t sf \<and> card (keys_at t sf) > 1)"
      using dom by (auto split: if_splits)
    also have "\<dots> \<longleftrightarrow> (\<exists>sf k'. k \<in> keys_at t sf \<and> k' \<in> keys_at t sf \<and> k' \<noteq> k)"
      using assms two by (metis fit_inv_def)
    finally show ?thesis using assms by (auto simp: fit_inv_def similar_def)
  qed
  then have "(\<Union>sf \<in> Mapping.keys (feature_key_table t). if card (keys_at t sf) > 1 then keys_at t sf else {}) = {k. \<exists>k'. similar t k k'}"
    by blast
  then show ?thesis by (simp add: CountAllSimilarRecords_def)
qed

datatype index_op = OpPut string "byte list" | OpDelete string

fun apply_op :: "index_op \<Rightarrow> FeatureIndexTable \<Rightarrow> FeatureIndexTable" where
  "apply_op (OpPut key value) t = fit_Put key value t"
| "apply_op (OpDelete key) t = fit_Delete key t"

lemma fit_inv_ops: "fit_inv t \<Longrightarrow> fit_inv (fold apply_op ops t)"
proof (induction ops arbitrary: t)
  case (Cons op ops)
  then show ?case by (cases op) (simp_all add: fit_inv_Put fit_inv_Delete)
qed simp

lemma fit_inv_new: "fit_inv (FeatureIndexTable_new g)"
  by (simp add: fit_inv_def FeatureIndexTable_new_def keys_at_def sfs_of_def GetSuperFeatures_def)


lemma sorted_iter_law: "iter_law sorted_list_of_set"
  by (simp add: iter_law_def)

lemma fit_Put_sfs: "sfs_of (fit_Put key v t) k = (if k = key then fst (GenerateSuperFeatures v (feature_generator (fit_Delete key t)))
    else sfs_of (fit_Delete key t) k)"
  using fold_set_keys(2) [of "insert key"]
  by (auto simp: fit_Put_def sfs_of_def GetSuperFeatures_def Let_def lookup_update' split: prod.splits)


end
