(* ===== verification/Odess.thy ===== *)
theory Odess
  imports Backup Similarity "HOL-Library.Multiset"
begin

text \<open>
  Migratory compression, \<open>src/method/Odess.cc\<close>: the chunks of all backups are grouped by their first
  super-feature, \<open>Migratory\<close> writes the groups one behind the other to \<open>output.me\<close>, and \<open>MLC\<close> compresses
  that file in blocks.  The end of \<open>main\<close> compares this with the plain concatenation of the files.
\<close>

section \<open>The method\<close>

text \<open>The members \<open>Version\<close> and \<open>PrevDedupChunkid\<close> are never used.\<close>

record Odess = AbsMethod +
  table :: FeatureIndexTable

definition Odess_new :: "(nat \<Rightarrow> u64) \<Rightarrow> dataWrite \<Rightarrow> Odess result" where
  "Odess_new dis dw =
     rbind (FeatureGenerator_new dis k1_128RatioMask 12 3) (\<lambda>g.
       Inr (AbsMethod.extend (AbsMethod_new dw) (Odess.fields (FeatureIndexTable_new g))))"

text \<open>The first super-feature is read as a \<open>long long\<close>.  A key of \<open>hashTable\<close> never has an empty vector.\<close>

definition odess_chunk :: "Odess \<Rightarrow> Chunk_t \<Rightarrow> Odess result" where
  "odess_chunk m ch =
     rbind (read_ptr (chunkSize ch) (chunkPtr ch)) (\<lambda>content.
     let ch = ch\<lparr>chunkID := uniquechunkNum m\<rparr>;
         (superfeature, g) = GenerateSuperFeatures content (feature_generator (table m));
         m = m\<lparr>uniquechunkNum := Suc (uniquechunkNum m), logicalchunkSize := logicalchunkSize m + of_nat (chunkSize ch),
               table := (table m)\<lparr>feature_generator := g\<rparr>\<rparr>
     in case superfeature of
          [] \<Rightarrow> Inl OutOfBounds
        | sf # _ \<Rightarrow>
            let firstFeature = sint sf;
                m = (if hashTable m firstFeature = [] then m\<lparr>insertionOrder := insertionOrder m @ [firstFeature]\<rparr> else m)
            in Inr (m\<lparr>hashTable := (hashTable m)(firstFeature := hashTable m firstFeature @ [ch]),
                      localchunkSize := localchunkSize m + of_nat (chunkSize ch)\<rparr>))"

definition odess_end :: "Odess \<Rightarrow> Odess" where
  "odess_end m = m\<lparr>ads_Version := Suc (ads_Version m)\<rparr>"

definition Odess_ProcessTrace :: "Chunk_t list \<Rightarrow> Odess \<Rightarrow> Odess result" where
  "Odess_ProcessTrace chunks m = rbind (rfold odess_chunk m chunks) (\<lambda>m. Inr (odess_end m))"

definition Odess_backup :: "Odess \<Rightarrow> string \<times> Chunk_t list \<Rightarrow> Odess result" where
  "Odess_backup m job = (case job of (name, chunks) \<Rightarrow> Odess_ProcessTrace chunks (set_backup name m))"

text \<open>\<open>Migratory\<close> only prints a message when \<open>output.me\<close> cannot be opened; \<open>w\<close> tells which paths can.\<close>

definition Migratory :: "(string \<Rightarrow> bool) \<Rightarrow> (string \<rightharpoonup> byte list) \<Rightarrow> Odess \<Rightarrow> string \<rightharpoonup> byte list" where
  "Migratory w f m =
     (if w ''output.me''
      then f(''output.me'' \<mapsto> concat (map (\<lambda>key. concat (map (\<lambda>ch. take (chunkSize ch) (chunkPtr ch)) (hashTable m key)))
                                   (insertionOrder m)))
      else f)"

definition MLC :: "env \<Rightarrow> (string \<Rightarrow> bool) \<Rightarrow> (string \<rightharpoonup> byte list) \<Rightarrow> Odess \<Rightarrow> Odess \<times> (string \<rightharpoonup> byte list)" where
  "MLC x w f m = (let (n, f) = CompressLargeFile x w ''output.me'' ''output.me.lz4'' f in (m\<lparr>MLCSize := n\<rparr>, f))"

text \<open>The end of \<open>main\<close> after the loop over the backups.\<close>

definition main_compare ::
  "env \<Rightarrow> (string \<Rightarrow> bool) \<Rightarrow> string list \<Rightarrow> nat \<Rightarrow> (string \<rightharpoonup> byte list) \<Rightarrow> Odess \<Rightarrow> Odess \<times> (string \<rightharpoonup> byte list)" where
  "main_compare x w names n f m =
     (let f = Migratory w f m;
          (m, f) = MLC x w f m;
          f = OriGenerate w names n f
      in OriLC x w ''ori'' f m)"

section \<open>Grouping\<close>

text \<open>The reference: the different keys in the order of their first occurrence, each followed by all its elements.\<close>

definition first_occurrences :: "'k list \<Rightarrow> 'k list" where
  "first_occurrences ks = fold (\<lambda>k seen. if k \<in> set seen then seen else seen @ [k]) ks []"

definition grouped :: "('a \<Rightarrow> 'k) \<Rightarrow> 'a list \<Rightarrow> 'a list" where
  "grouped key xs = concat (map (\<lambda>k. filter (\<lambda>a. key a = k) xs) (first_occurrences (map key xs)))"

lemma first_occurrences_snoc_seen:
  "first_occurrences (ks @ [k]) = (if k \<in> set (first_occurrences ks) then first_occurrences ks else first_occurrences ks @ [k])"
  by (simp add: first_occurrences_def)

lemma first_occurrences_set: "set (first_occurrences ks) = set ks"
proof (induction ks rule: rev_induct)
  case (snoc k ks)
  then show ?case by (auto simp: first_occurrences_snoc_seen)
qed (simp add: first_occurrences_def)

lemma first_occurrences_distinct: "distinct (first_occurrences ks)"
proof (induction ks rule: rev_induct)
  case (snoc k ks)
  then show ?case by (simp add: first_occurrences_snoc_seen)
qed (simp add: first_occurrences_def)

lemma first_occurrences_snoc:
  "first_occurrences (ks @ [k]) = (if k \<in> set ks then first_occurrences ks else first_occurrences ks @ [k])"
  by (simp add: first_occurrences_snoc_seen first_occurrences_set)

lemma mset_groups:
  "distinct ks \<Longrightarrow> key ` set xs \<subseteq> set ks \<Longrightarrow> mset (concat (map (\<lambda>k. filter (\<lambda>a. key a = k) xs) ks)) = mset xs"
proof (induction ks arbitrary: xs)
  case (Cons k ks)
  let ?ys = "filter (\<lambda>a. key a \<noteq> k) xs"
  have eq: "filter (\<lambda>a. key a = l) ?ys = filter (\<lambda>a. key a = l) xs" if "l \<noteq> k" for l
    unfolding filter_filter by (rule filter_cong) (use that in auto)
  have m: "map (\<lambda>l. filter (\<lambda>a. key a = l) ?ys) ks = map (\<lambda>l. filter (\<lambda>a. key a = l) xs) ks"
    by (rule map_cong [OF refl], rule eq) (use Cons.prems(1) in auto)
  have "distinct ks" "key ` set ?ys \<subseteq> set ks" using Cons.prems by auto
  note ih = Cons.IH [OF this, unfolded m]
  have "mset (concat (map (\<lambda>l. filter (\<lambda>a. key a = l) xs) (k # ks))) = mset (filter (\<lambda>a. key a = k) xs) + mset ?ys"
    unfolding list.map concat.simps mset_append ih ..
  also have "\<dots> = mset xs" unfolding mset_filter by (rule multiset_partition [symmetric])
  finally show ?case .
qed simp

lemma grouped_mset: "mset (grouped key xs) = mset xs"
  unfolding grouped_def by (rule mset_groups) (simp_all add: first_occurrences_set first_occurrences_distinct)

lemma grouped_length: "length (concat (map f (grouped key xs))) = length (concat (map f xs))"
proof -
  have "mset (map (length \<circ> f) (grouped key xs)) = mset (map (length \<circ> f) xs)"
    unfolding mset_map grouped_mset ..
  then show ?thesis by (simp add: length_concat flip: sum_mset_sum_list)
qed

section \<open>The table holds the chunks by their first super-feature\<close>

definition sf_group :: "FeatureGenerator \<Rightarrow> Chunk_t \<Rightarrow> int" where
  "sf_group g ch = sint (hd (fst (GenerateSuperFeatures (chunkPtr ch) g)))"

definition odess_inv :: "FeatureGenerator \<Rightarrow> Chunk_t list \<Rightarrow> Odess \<Rightarrow> bool" where
  "odess_inv g cs m \<longleftrightarrow> fg_wf g \<and> CleanFeatures (feature_generator (table m)) = CleanFeatures g
     \<and> insertionOrder m = first_occurrences (map (sf_group g) cs)
     \<and> (\<forall>k. list_all chunk_wf (hashTable m k)
          \<and> map chunkPtr (hashTable m k) = map chunkPtr (filter (\<lambda>ch. sf_group g ch = k) cs))
     \<and> logicalchunkSize m = of_nat (length (concat (map chunkPtr cs)))"

lemma GenerateSuperFeatures_Clean:
  "CleanFeatures g = CleanFeatures g' \<Longrightarrow> GenerateSuperFeatures v g = GenerateSuperFeatures v g'"
  by (simp add: GenerateSuperFeatures_def)

lemma GenerateSuperFeatures_gen: "CleanFeatures (snd (GenerateSuperFeatures v g)) = CleanFeatures g"
  by (simp add: GenerateSuperFeatures_def OdessResemblanceDetect_def Let_def sample_loop_Clean) (simp add: CleanFeatures_def)

lemma superfeatures_nonempty: "fg_wf g \<Longrightarrow> fst (GenerateSuperFeatures v g) \<noteq> []"
  using sample_loop_wf [OF CleanFeatures_wf, of g 0 v]
  by (auto simp: GenerateSuperFeatures_def OdessResemblanceDetect_def MakeSuperFeatures_def CopyFeaturesAsSuperFeatures_def
      GroupFeaturesAsSuperFeatures_def Let_def fg_wf_def CleanFeatures_def)

lemma odess_chunk_ok:
  assumes "odess_inv g cs m" "chunk_wf ch"
  shows "\<exists>m'. odess_chunk m ch = Inr m' \<and> odess_inv g (cs @ [ch]) m'"
proof -
  have len: "chunkSize ch = length (chunkPtr ch)" using assms(2) by (simp add: chunk_wf_def)
  have g: "fg_wf g" "CleanFeatures (feature_generator (table m)) = CleanFeatures g"
    and io: "insertionOrder m = first_occurrences (map (sf_group g) cs)"
    and ht: "\<And>k. list_all chunk_wf (hashTable m k)"
      "\<And>k. map chunkPtr (hashTable m k) = map chunkPtr (filter (\<lambda>ch. sf_group g ch = k) cs)"
    and sz: "logicalchunkSize m = of_nat (length (concat (map chunkPtr cs)))"
    using assms(1) by (auto simp: odess_inv_def)
  obtain a g' where p: "GenerateSuperFeatures (chunkPtr ch) g = (a, g')" by fastforce
  then obtain sf sfs where "a = sf # sfs" using superfeatures_nonempty [OF g(1), of "chunkPtr ch"] by (cases a) auto
  then have sf: "GenerateSuperFeatures (chunkPtr ch) (feature_generator (table m)) = (sf # sfs, g')"
    using p GenerateSuperFeatures_Clean [OF g(2), of "chunkPtr ch"] by simp
  have g': "CleanFeatures g' = CleanFeatures g"
    using GenerateSuperFeatures_gen [of "chunkPtr ch" "feature_generator (table m)"] sf g(2) by simp
  have k: "sf_group g ch = sint sf"
    using sf GenerateSuperFeatures_Clean [OF g(2), of "chunkPtr ch"] by (simp add: sf_group_def)
  have new: "hashTable m (sint sf) = [] \<longleftrightarrow> sint sf \<notin> set (map (sf_group g) cs)"
  proof -
    have "hashTable m (sint sf) = [] \<longleftrightarrow> filter (\<lambda>ch. sf_group g ch = sint sf) cs = []"
      unfolding map_is_Nil_conv [of chunkPtr, symmetric] ht(2) ..
    also have "\<dots> \<longleftrightarrow> sint sf \<notin> sf_group g ` set cs" by (auto simp: filter_empty_conv image_iff)
    finally show ?thesis by simp
  qed
  obtain m' where m': "odess_chunk m ch = Inr m'" "table m' = (table m)\<lparr>feature_generator := g'\<rparr>"
    "insertionOrder m' = (if hashTable m (sint sf) = [] then insertionOrder m @ [sint sf] else insertionOrder m)"
    "hashTable m' = (hashTable m)(sint sf := hashTable m (sint sf) @ [ch\<lparr>chunkID := uniquechunkNum m\<rparr>])"
    "logicalchunkSize m' = logicalchunkSize m + of_nat (chunkSize ch)"
    using sf len by (cases "hashTable m (sint sf) = []") (auto simp: odess_chunk_def read_ptr_def Let_def)
  have "insertionOrder m' = first_occurrences (map (sf_group g) (cs @ [ch]))"
    using m'(3) new io k by (simp add: first_occurrences_snoc)
  moreover have "list_all chunk_wf (hashTable m' l)
      \<and> map chunkPtr (hashTable m' l) = map chunkPtr (filter (\<lambda>ch. sf_group g ch = l) (cs @ [ch]))" for l
    using m'(4) ht [of l] k assms(2) by (auto simp: chunk_wf_def)
  moreover have "logicalchunkSize m' = of_nat (length (concat (map chunkPtr (cs @ [ch]))))" using m'(5) sz len by simp
  ultimately show ?thesis using m'(1,2) g g' by (auto simp: odess_inv_def)
qed

lemma odess_chunks_ok:
  "odess_inv g cs m \<Longrightarrow> list_all chunk_wf chunks \<Longrightarrow> \<exists>m'. rfold odess_chunk m chunks = Inr m' \<and> odess_inv g (cs @ chunks) m'"
proof (induction chunks arbitrary: cs m)
  case (Cons ch chunks)
  then obtain m1 where "odess_chunk m ch = Inr m1" "odess_inv g (cs @ [ch]) m1" using odess_chunk_ok by force
  with Cons.IH [of "cs @ [ch]" m1] Cons.prems(2) show ?case by auto
qed simp

lemma odess_jobs_ok:
  "odess_inv g cs m \<Longrightarrow> \<forall>j \<in> set jobs. list_all chunk_wf (snd j)
   \<Longrightarrow> \<exists>m'. rfold Odess_backup m jobs = Inr m' \<and> odess_inv g (cs @ concat (map snd jobs)) m'"
proof (induction jobs arbitrary: cs m)
  case (Cons j jobs)
  obtain name chunks where j: "j = (name, chunks)" by (cases j)
  have "odess_inv g cs (set_backup name m)" using Cons.prems(1) by (simp add: odess_inv_def set_backup_def am_SetFilename_def)
  then obtain m1 where m1: "rfold odess_chunk (set_backup name m) chunks = Inr m1" "odess_inv g (cs @ chunks) m1"
    using odess_chunks_ok [of g cs _ chunks] Cons.prems(2) j by force
  then have "odess_inv g (cs @ chunks) (odess_end m1)" by (simp add: odess_inv_def odess_end_def)
  with m1(1) Cons.IH [of "cs @ chunks" "odess_end m1"] Cons.prems(2) j show ?case
    by (simp add: Odess_backup_def Odess_ProcessTrace_def)
qed simp

lemma odess_inv_new:
  assumes "Odess_new dis dw = Inr m"
  shows "odess_inv (feature_generator (table m)) [] m"
proof -
  from assms obtain g where g: "FeatureGenerator_new dis k1_128RatioMask 12 3 = Inr g"
    "m = AbsMethod.extend (AbsMethod_new dw) (Odess.fields (FeatureIndexTable_new g))"
    by (auto simp: Odess_new_def rbind_eq_Inr_iff)
  then show ?thesis
    using FeatureGenerator_new_wf [OF g(1)]
    by (simp add: odess_inv_def AbsMethod.defs Odess.defs AbsMethod_new_def FeatureIndexTable_new_def first_occurrences_def)
qed

lemma concat_map_concat: "concat (map f (concat xss)) = concat (map (\<lambda>xs. concat (map f xs)) xss)"
  by (induction xss) simp_all

lemma Migratory_grouped:
  assumes "odess_inv g cs m" "w ''output.me''"
  shows "Migratory w f m = f(''output.me'' \<mapsto> concat (map chunkPtr (grouped (sf_group g) cs)))"
proof -
  have "concat (map (\<lambda>ch. take (chunkSize ch) (chunkPtr ch)) (hashTable m k)) = concat (map chunkPtr (filter (\<lambda>ch. sf_group g ch = k) cs))" for k
  proof -
    have "map (\<lambda>ch. take (chunkSize ch) (chunkPtr ch)) (hashTable m k) = map chunkPtr (hashTable m k)"
    proof (rule map_cong [OF refl])
      fix ch assume "ch \<in> set (hashTable m k)"
      moreover have "list_all chunk_wf (hashTable m k)" using assms(1) by (simp add: odess_inv_def)
      ultimately show "take (chunkSize ch) (chunkPtr ch) = chunkPtr ch" by (auto simp: list_all_iff chunk_wf_def)
    qed
    also have "\<dots> = map chunkPtr (filter (\<lambda>ch. sf_group g ch = k) cs)" using assms(1) by (simp add: odess_inv_def)
    finally show ?thesis by simp
  qed
  then show ?thesis using assms by (simp add: Migratory_def odess_inv_def grouped_def concat_map_concat comp_def)
qed

section \<open>Correctness\<close>



end
