(* ===== verification/NTrans.thy ===== *)
theory NTrans
  imports Delta XXHash
begin

unbundle bit_operations_syntax

text \<open>
  The method N-transform, \<open>src/method/NTrans.cc\<close>, with its features (class \<open>FeatureGen\<close> of
  \<open>src/method/Ntrans_similarity.cc\<close>): a polynomial rolling hash over 64-byte windows, from which every
  feature selects the window with the largest image under a linear map.  The features are taken from
  the longest FastCDC subchunk.  The random numbers for the maps are a parameter.
\<close>

section \<open>FeatureGen\<close>

definition slidingWinSize :: nat where "slidingWinSize = 64"
definition polyBase :: u64 where "polyBase = 257"
definition polyMOD :: u64 where "polyMOD = - 1"
definition FEATURE_NUMBER :: nat where "FEATURE_NUMBER = 12"
definition FEATURE_NUMBER_PER_SF :: nat where "FEATURE_NUMBER_PER_SF = 4"
definition SF_NUMBER :: nat where "SF_NUMBER = FEATURE_NUMBER div FEATURE_NUMBER_PER_SF"

lemmas nt_consts = slidingWinSize_def FEATURE_NUMBER_def FEATURE_NUMBER_PER_SF_def SF_NUMBER_def

record FeatureGen =
  powerLUT :: "u64 list"
  removeLUT :: "u64 list"
  feature :: "u32 list"
  superfeature :: "u64 list"
  sfTable :: "nat \<Rightarrow> u64 \<Rightarrow> int list"
  mSet :: "u64 list"
  aSet :: "u64 list"

definition power_table :: "u64 list" where
  "power_table = fold (\<lambda>i t. t @ [(t ! (i - 1) * polyBase) AND polyMOD]) [1..<slidingWinSize] [1]"

definition remove_table :: "u64 list \<Rightarrow> u64 list" where
  "remove_table pw =
     map (\<lambda>i. let r = (of_nat i * pw ! (slidingWinSize - 1)) AND polyMOD
              in if r \<noteq> 0 then (polyMOD - r + 1) AND polyMOD else r) [0..<256]"

text \<open>The arrays \<open>feature\<close> and \<open>superfeature\<close> are not initialised; every use clears them first.\<close>

definition FeatureGen_new :: "(nat \<Rightarrow> u64) \<Rightarrow> u32 list \<Rightarrow> u64 list \<Rightarrow> FeatureGen" where
  "FeatureGen_new dis f0 s0 =
     \<lparr>powerLUT = power_table, removeLUT = remove_table power_table, feature = f0, superfeature = s0,
      sfTable = (\<lambda>_ _. []), mSet = map (\<lambda>i. dis (2 * i)) [0..<FEATURE_NUMBER],
      aSet = map (\<lambda>i. dis (2 * i + 1)) [0..<FEATURE_NUMBER]\<rparr>"

definition win_step :: "FeatureGen \<Rightarrow> byte list \<Rightarrow> nat \<Rightarrow> u64 \<times> u64 list \<Rightarrow> u64 \<times> u64 list" where
  "win_step g buf cnt = (\<lambda>(winFp, fpList).
     if cnt < slidingWinSize
     then ((winFp + ucast (buf ! cnt) * powerLUT g ! (slidingWinSize - cnt - 1)) AND polyMOD, fpList)
     else let winFp = winFp AND polyMOD;
              v = unat (buf ! (cnt - slidingWinSize))
          in (((winFp + removeLUT g ! v) * polyBase + ucast (buf ! cnt)) AND polyMOD, fpList @ [winFp]))"

definition fp_list :: "FeatureGen \<Rightarrow> byte list \<Rightarrow> u64 list" where
  "fp_list g buf = snd (fold (win_step g buf) [0..<length buf] (0, []))"

text \<open>The fingerprint whose image, modulo \<open>2 ^ 32\<close>, is the first largest one; 0 when no image is positive.\<close>

definition target_fp :: "u64 \<Rightarrow> u64 \<Rightarrow> u64 list \<Rightarrow> u64" where
  "target_fp m a fps =
     snd (fold (\<lambda>fp (maxPi, target). let p = (m * fp + a) AND 0xFFFFFFFF in if maxPi < p then (p, fp) else (maxPi, target))
            fps (0, 0))"

text \<open>
  The results are the super-features, the list of features, and the arrays of the object; \<open>feature\<close>
  keeps the low 32 bits only.
\<close>

definition getFeatureList :: "byte list \<Rightarrow> FeatureGen \<Rightarrow> u64 list \<times> u64 list \<times> FeatureGen" where
  "getFeatureList buf g =
     (let fps = fp_list g buf;
          targets = map (\<lambda>i. target_fp (mSet g ! i) (aSet g ! i) fps) [0..<FEATURE_NUMBER];
          g = g\<lparr>feature := map ucast targets, superfeature := replicate SF_NUMBER 0\<rparr>;
          sf = map (\<lambda>i. XXH64 (concat (map (\<lambda>j. le_bytes 8 (unat (feature g ! (j * SF_NUMBER + i)))) [0..<FEATURE_NUMBER_PER_SF])) 0)
                 [0..<SF_NUMBER]
      in (sf, targets, g))"

fun querySF_from :: "u64 list \<Rightarrow> nat list \<Rightarrow> FeatureGen \<Rightarrow> int" where
  "querySF_from sf [] g = - 1"
| "querySF_from sf (i # is) g =
     (if sfTable g i (sf ! i) \<noteq> [] then last (sfTable g i (sf ! i)) else querySF_from sf is g)"

definition querySF :: "u64 list \<Rightarrow> FeatureGen \<Rightarrow> int" where
  "querySF sf g = querySF_from sf [0..<SF_NUMBER] g"

definition insertSFIndex :: "u64 list \<Rightarrow> int \<Rightarrow> FeatureGen \<Rightarrow> FeatureGen" where
  "insertSFIndex sf i g =
     g\<lparr>sfTable := (\<lambda>j k. if j < SF_NUMBER \<and> k = sf ! j then sfTable g j k @ [i] else sfTable g j k)\<rparr>"

definition FeatureGen_insert :: "int \<Rightarrow> FeatureGen \<Rightarrow> FeatureGen" where
  "FeatureGen_insert label g = insertSFIndex (superfeature g) label g"

section \<open>The method\<close>

record NTransForm = AbsMethod +
  ntrans :: FeatureGen
  fealist :: "u64 list"
  PrevDedupChunkid :: int

definition NTransForm_new :: "(nat \<Rightarrow> u64) \<Rightarrow> u32 list \<Rightarrow> u64 list \<Rightarrow> dataWrite \<Rightarrow> NTransForm" where
  "NTransForm_new dis f0 s0 dw =
     AbsMethod.extend (AbsMethod_new dw) (NTransForm.fields (FeatureGen_new dis f0 s0) [] (- 1))"

text \<open>The features of a chunk are those of its longest FastCDC subchunk.\<close>

definition ntrans_features :: "Chunk_t \<Rightarrow> NTransForm \<Rightarrow> (u64 list \<times> NTransForm) result" where
  "ntrans_features ch m =
     rbind (read_ptr (chunkSize ch) (chunkPtr ch)) (\<lambda>data.
     case ThirdCutPointHashMin (chunker m) (\<lambda>i. data ! i) (length data) of
       None \<Rightarrow> Inl Diverges
     | Some (s, e) \<Rightarrow>
         let (sf, fl, g) = getFeatureList (slice s (e - s) data) (ntrans m)
         in Inr (sf, m\<lparr>ntrans := g, fealist := fl\<rparr>))"

definition ntrans_unique :: "env \<Rightarrow> byte list \<Rightarrow> Chunk_t \<Rightarrow> NTransForm \<Rightarrow> (Chunk_t \<times> NTransForm) result" where
  "ntrans_unique x h ch m =
     (let ch = ch\<lparr>chunkID := uniquechunkNum m, deltaFlag := NO_DELTA\<rparr>;
          m = FP_Insert h (int (chunkID ch)) m in
      rbind (ntrans_features ch m) (\<lambda>(sf, m).
      let base = querySF sf (ntrans m) in
      rbind (if base \<noteq> - 1 then store_delta x DELTA base ch m
             else store_base x ch (m\<lparr>ntrans := insertSFIndex sf (int (chunkID ch)) (ntrans m)\<rparr>))
        count_unique))"

definition ntrans_duplicate :: "int \<Rightarrow> Chunk_t \<Rightarrow> NTransForm \<Rightarrow> (Chunk_t \<times> NTransForm) result" where
  "ntrans_duplicate i ch m = rbind (dedup_duplicate i m) (\<lambda>(ch, m). Inr (ch, m\<lparr>PrevDedupChunkid := i\<rparr>))"

definition ntrans_chunk :: "env \<Rightarrow> NTransForm \<Rightarrow> Chunk_t \<Rightarrow> NTransForm result" where
  "ntrans_chunk x = process_chunk x (ntrans_unique x) ntrans_duplicate"

definition ntrans_end :: "NTransForm \<Rightarrow> NTransForm" where
  "ntrans_end m = m\<lparr>ads_Version := Suc (ads_Version m), SFnum := basechunkNum m * 3\<rparr>"

definition NTrans_ProcessTrace :: "env \<Rightarrow> Chunk_t list \<Rightarrow> NTransForm \<Rightarrow> NTransForm result" where
  "NTrans_ProcessTrace x chunks m = rbind (rfold (ntrans_chunk x) m chunks) (\<lambda>m. Inr (ntrans_end m))"

definition NTrans_backup :: "env \<Rightarrow> NTransForm \<Rightarrow> string \<times> Chunk_t list \<Rightarrow> NTransForm result" where
  "NTrans_backup x m job = (case job of (name, chunks) \<Rightarrow> NTrans_ProcessTrace x chunks (set_backup name m))"

section \<open>The rolling hash\<close>

definition nt_poly :: "byte list \<Rightarrow> nat \<Rightarrow> nat \<Rightarrow> u64" where
  "nt_poly buf j n = foldl (\<lambda>h i. h * polyBase + ucast (buf ! i)) 0 [j..<j + n]"

lemma nt_poly_Suc: "nt_poly buf j (Suc n) = nt_poly buf j n * polyBase + ucast (buf ! (j + n))"
  by (simp add: nt_poly_def)

lemma nt_poly_front: "nt_poly buf j (Suc n) = ucast (buf ! j) * polyBase ^ n + nt_poly buf (Suc j) n"
proof (induction n)
  case (Suc n)
  have "nt_poly buf j (Suc (Suc n)) = nt_poly buf j (Suc n) * polyBase + ucast (buf ! (j + Suc n))" by (rule nt_poly_Suc)
  also have "\<dots> = ucast (buf ! j) * polyBase ^ Suc n + (nt_poly buf (Suc j) n * polyBase + ucast (buf ! (Suc j + n)))"
    unfolding Suc by (simp add: algebra_simps)
  finally show ?case by (simp add: nt_poly_Suc)
qed (simp add: nt_poly_def)

lemma and_polyMOD [simp]: "w AND polyMOD = w"
  by (simp add: polyMOD_def)

lemma power_table_loop: "fold (\<lambda>i t. t @ [(t ! (i - 1) * polyBase) AND polyMOD]) [1..<Suc n] [1] = map (\<lambda>i. polyBase ^ i) [0..<Suc n]"
  by (induction n) (simp_all add: nth_append)

lemma power_table_nth: "i < slidingWinSize \<Longrightarrow> power_table ! i = polyBase ^ i"
  using power_table_loop [of 63] by (simp add: power_table_def slidingWinSize_def del: upt_Suc)

lemma remove_table_nth: "v < 256 \<Longrightarrow> remove_table power_table ! v = - (of_nat v * polyBase ^ 63)"
  by (simp add: remove_table_def power_table_nth slidingWinSize_def Let_def) (simp add: polyMOD_def)

definition nt_tables :: "FeatureGen \<Rightarrow> bool" where
  "nt_tables g \<longleftrightarrow> powerLUT g = power_table \<and> removeLUT g = remove_table power_table"

lemma win_fill:
  assumes "nt_tables g" "k \<le> slidingWinSize"
  shows "fold (win_step g buf) [0..<k] (0, []) = (nt_poly buf 0 k * polyBase ^ (slidingWinSize - k), [])"
  using assms(2)
proof (induction k)
  case (Suc k)
  have "slidingWinSize - k = Suc (slidingWinSize - Suc k)" using Suc.prems by simp
  then have p: "polyBase ^ (slidingWinSize - k) = polyBase * polyBase ^ (slidingWinSize - Suc k)" by simp
  have "powerLUT g ! (slidingWinSize - k - 1) = polyBase ^ (slidingWinSize - Suc k)"
    using assms(1) power_table_nth [of "slidingWinSize - Suc k"] Suc.prems by (simp add: nt_tables_def)
  with Suc p show ?case by (simp add: win_step_def nt_poly_Suc algebra_simps)
qed (simp add: nt_poly_def)

lemma win_slide:
  assumes "nt_tables g"
  shows "fold (win_step g buf) [0..<slidingWinSize + k] (0, []) = (nt_poly buf k slidingWinSize, map (\<lambda>j. nt_poly buf j slidingWinSize) [0..<k])"
proof (induction k)
  case 0
  then show ?case using win_fill [OF assms, of slidingWinSize buf] by simp
next
  case (Suc k)
  let ?v = "unat (buf ! k)"
  have "?v < 256" using unsigned_less [of "buf ! k"] by simp
  then have r: "removeLUT g ! ?v = - (ucast (buf ! k) * polyBase ^ 63)"
    using assms remove_table_nth [of ?v] by (simp add: nt_tables_def)
  have f: "nt_poly buf k slidingWinSize = ucast (buf ! k) * polyBase ^ 63 + nt_poly buf (Suc k) 63"
    using nt_poly_front [of buf k 63] by (simp add: slidingWinSize_def)
  have n: "nt_poly buf (Suc k) slidingWinSize = nt_poly buf (Suc k) 63 * polyBase + ucast (buf ! (slidingWinSize + k))"
    using nt_poly_Suc [of buf "Suc k" 63] by (simp add: slidingWinSize_def add.commute)
  have "win_step g buf (slidingWinSize + k) (nt_poly buf k slidingWinSize, fps) = (nt_poly buf (Suc k) slidingWinSize, fps @ [nt_poly buf k slidingWinSize])" for fps
    by (simp add: win_step_def Let_def r f n)
  with Suc show ?case by simp
qed

lemma fp_list_windows:
  assumes "nt_tables g"
  shows "fp_list g buf = map (\<lambda>j. nt_poly buf j slidingWinSize) [0..<length buf - slidingWinSize]"
proof (cases "length buf \<le> slidingWinSize")
  case True
  then show ?thesis using win_fill [OF assms True] by (simp add: fp_list_def)
next
  case False
  then show ?thesis using win_slide [OF assms, of buf "length buf - slidingWinSize"] by (simp add: fp_list_def)
qed

definition nt_image :: "u64 \<Rightarrow> u64 \<Rightarrow> u64 \<Rightarrow> u64" where
  "nt_image m a fp = (m * fp + a) AND 0xFFFFFFFF"

lemma target_fold:
  assumes "mx = 0 \<and> tg = 0 \<or> mx > 0 \<and> mx = nt_image m a tg"
  shows "\<exists>mx' tg'. fold (\<lambda>fp (maxPi, target). let p = (m * fp + a) AND 0xFFFFFFFF in if maxPi < p then (p, fp) else (maxPi, target)) fps (mx, tg)
      = (mx', tg') \<and> (mx' = 0 \<and> tg' = 0 \<or> mx' > 0 \<and> mx' = nt_image m a tg') \<and> (mx' = mx \<and> tg' = tg \<or> mx < mx' \<and> tg' \<in> set fps)
    \<and> mx \<le> mx' \<and> (\<forall>fp \<in> set fps. nt_image m a fp \<le> mx')"
  using assms
proof (induction fps arbitrary: mx tg)
  case (Cons fp fps)
  show ?case
  proof (cases "mx < nt_image m a fp")
    case True
    then have "0 < nt_image m a fp" by (metis word_gt_0 word_not_simps(1))
    with Cons.IH [of "nt_image m a fp" fp] True show ?thesis
      by (auto simp: nt_image_def Let_def intro: less_le_trans less_imp_le)
  next
    case False
    with Cons.IH [OF Cons.prems] show ?thesis by (auto simp: nt_image_def Let_def not_less intro: order_trans)
  qed
qed simp

lemma target_fp_spec:
  "if \<exists>fp \<in> set fps. nt_image m a fp \<noteq> 0
   then target_fp m a fps \<in> set fps \<and> (\<forall>fp \<in> set fps. nt_image m a fp \<le> nt_image m a (target_fp m a fps))
   else target_fp m a fps = 0"
proof -
  obtain mx tg where f: "fold (\<lambda>fp (maxPi, target). let p = (m * fp + a) AND 0xFFFFFFFF in if maxPi < p then (p, fp) else (maxPi, target)) fps (0, 0) = (mx, tg)"
    "mx = 0 \<and> tg = 0 \<or> mx > 0 \<and> mx = nt_image m a tg" "mx = 0 \<and> tg = 0 \<or> 0 < mx \<and> tg \<in> set fps"
    "\<forall>fp \<in> set fps. nt_image m a fp \<le> mx"
    using target_fold [of 0 0 m a fps] by blast
  have t: "target_fp m a fps = tg" using f(1) by (simp add: target_fp_def)
  show ?thesis
  proof (cases "mx = 0")
    case True
    then have "\<forall>fp \<in> set fps. nt_image m a fp = 0" using f(4) by simp
    then show ?thesis using True f(2) t by auto
  next
    case False
    then have "0 < mx" "mx = nt_image m a tg" "tg \<in> set fps" using f(2,3) by auto
    then show ?thesis using f(4) t by (auto simp: word_gt_0)
  qed
qed

text \<open>
  C35: The features of N-transform, with the tables of the constructor: the fingerprints are the polynomials
  of the 64-byte windows modulo \<open>2 ^ 64\<close>, computed from scratch, of all windows but the last; and feature
  \<open>i\<close> is a window with the largest \<open>i\<close>-th image modulo \<open>2 ^ 32\<close>.  All buffers of at most 64 bytes have the same
  super-features.
\<close>

theorem getFeatureList_spec:
  assumes "g = FeatureGen_new dis f0 s0"
  defines "fps \<equiv> \<lambda>buf. map (\<lambda>j. nt_poly buf j slidingWinSize) [0..<length buf - slidingWinSize]"
  shows "fp_list g buf = fps buf
    \<and> (\<forall>i < FEATURE_NUMBER. let img = nt_image (mSet g ! i) (aSet g ! i); t = fst (snd (getFeatureList buf g)) ! i in
         if \<exists>fp \<in> set (fps buf). img fp \<noteq> 0 then t \<in> set (fps buf) \<and> (\<forall>fp \<in> set (fps buf). img fp \<le> img t) else t = 0)
    \<and> (length buf \<le> 64 \<and> length buf' \<le> 64 \<longrightarrow> fst (getFeatureList buf g) = fst (getFeatureList buf' g))"
proof -
  have "nt_tables g" by (simp add: assms(1) nt_tables_def FeatureGen_new_def)
  note fp = fp_list_windows [OF this]
  have t: "fst (snd (getFeatureList buf g)) ! i = target_fp (mSet g ! i) (aSet g ! i) (fps buf)" if "i < FEATURE_NUMBER" for i
    using that by (simp add: getFeatureList_def Let_def fp fps_def)
  have "let img = nt_image (mSet g ! i) (aSet g ! i); t = fst (snd (getFeatureList buf g)) ! i in
      if \<exists>fp \<in> set (fps buf). img fp \<noteq> 0 then t \<in> set (fps buf) \<and> (\<forall>fp \<in> set (fps buf). img fp \<le> img t) else t = 0"
    if "i < FEATURE_NUMBER" for i
    unfolding Let_def t [OF that] by (rule target_fp_spec)
  moreover have "fst (getFeatureList buf g) = fst (getFeatureList buf' g)" if "length buf \<le> 64" "length buf' \<le> 64"
    using that by (simp add: getFeatureList_def Let_def fp slidingWinSize_def)
  moreover have "fp_list g buf = fps buf" by (simp add: fp fps_def)
  ultimately show ?thesis by blast
qed

theorem getFeatureList_spec_witness:
  "fst (getFeatureList [1, 2, 3] (FeatureGen_new of_nat [] [])) = fst (getFeatureList [] (FeatureGen_new of_nat [] []))"
  using getFeatureList_spec [OF refl, of of_nat "[]" "[]" "[1, 2, 3]" "[]"] by simp

section \<open>N-transform is lossless\<close>

definition nt_keys :: "u64 list \<Rightarrow> (nat \<times> u64) set" where
  "nt_keys sf = {(j, sf ! j) | j. j < SF_NUMBER}"

definition nt_ids :: "NTransForm \<Rightarrow> ((nat \<times> u64) \<times> int) set" where
  "nt_ids m = {((j, k), i). i \<in> set (sfTable (ntrans m) j k)}"

lemma querySF_from_ids:
  "querySF_from sf js g \<noteq> - 1 \<Longrightarrow> \<exists>j \<in> set js. querySF_from sf js g \<in> set (sfTable g j (sf ! j))"
  by (induction sf js g rule: querySF_from.induct) auto

interpretation nt_index: similarity_index nt_keys querySF insertSFIndex "\<lambda>g. {((j, k), i). i \<in> set (sfTable g j k)}"
proof unfold_locales
  show "\<exists>k \<in> nt_keys q. (k, querySF q s) \<in> {((j, k), i). i \<in> set (sfTable s j k)}" if "querySF q s \<noteq> - 1" for q s
    using querySF_from_ids [OF that [unfolded querySF_def]] by (auto simp: nt_keys_def querySF_def)
qed (auto simp: insertSFIndex_def nt_keys_def split: if_splits)

text \<open>The super-features of a content with the tables of a generator and the subchunks of a chunker.\<close>

definition nt_sf :: "Chunker \<Rightarrow> FeatureGen \<Rightarrow> byte list \<Rightarrow> u64 list" where
  "nt_sf c g b = (case ThirdCutPointHashMin c (\<lambda>i. b ! i) (length b) of
     None \<Rightarrow> [] | Some (s, e) \<Rightarrow> fst (getFeatureList (slice s (e - s) b) g))"

definition nt_feat :: "Chunker \<Rightarrow> FeatureGen \<Rightarrow> byte list \<Rightarrow> nat \<times> u64 \<Rightarrow> bool" where
  "nt_feat c g b k \<longleftrightarrow> k \<in> nt_keys (nt_sf c g b)"

definition same_tables :: "FeatureGen \<Rightarrow> FeatureGen \<Rightarrow> bool" where
  "same_tables g g' \<longleftrightarrow> powerLUT g' = powerLUT g \<and> removeLUT g' = removeLUT g \<and> mSet g' = mSet g \<and> aSet g' = aSet g"

lemma getFeatureList_tables:
  assumes "same_tables g g'"
  shows "fst (getFeatureList buf g') = fst (getFeatureList buf g)"
    and "same_tables g (snd (snd (getFeatureList buf g')))"
    and "sfTable (snd (snd (getFeatureList buf g'))) = sfTable g'"
proof -
  have "win_step g' buf = win_step g buf" using assms by (simp add: fun_eq_iff win_step_def same_tables_def)
  then have "fp_list g' buf = fp_list g buf" by (simp add: fp_list_def)
  with assms show "fst (getFeatureList buf g') = fst (getFeatureList buf g)"
    "same_tables g (snd (snd (getFeatureList buf g')))" "sfTable (snd (snd (getFeatureList buf g'))) = sfTable g'"
    by (simp_all add: getFeatureList_def Let_def same_tables_def)
qed

definition nt_laws :: "env \<Rightarrow> byte list set \<Rightarrow> Chunker \<Rightarrow> FeatureGen \<Rightarrow> NTransForm \<Rightarrow> bool" where
  "nt_laws x C c g m \<longleftrightarrow> lz4_law x \<and> hash_law x C \<and> xd3_law x C (nt_feat c g) \<and> cdc_ok c \<and> chunker m = c \<and> same_tables g (ntrans m)"

lemma ntrans_features_ok:
  assumes "nt_laws x C c g m" "chunk_wf ch"
  shows "\<exists>m'. ntrans_features ch m = Inr (nt_sf c g (chunkPtr ch), m') \<and> nt_laws x C c g m' \<and> nt_ids m' = nt_ids m
    \<and> m' = m\<lparr>ntrans := ntrans m', fealist := fealist m'\<rparr>"
proof -
  have c: "cdc_ok c" "chunker m = c" "same_tables g (ntrans m)" using assms(1) by (simp_all add: nt_laws_def)
  have "0 < length (chunkPtr ch)" using assms(2) by (simp add: chunk_wf_def)
  from ThirdCutPointHashMin_returns [OF c(1) this] obtain s e where
    t: "ThirdCutPointHashMin c (\<lambda>i. chunkPtr ch ! i) (length (chunkPtr ch)) = Some (s, e)" by blast
  obtain sf fl g' where g': "getFeatureList (slice s (e - s) (chunkPtr ch)) (ntrans m) = (sf, fl, g')" by (metis surj_pair)
  have "sf = nt_sf c g (chunkPtr ch)" "same_tables g g'" "sfTable g' = sfTable (ntrans m)"
    using getFeatureList_tables [OF c(3), of "slice s (e - s) (chunkPtr ch)"] t g' by (simp_all add: nt_sf_def)
  with assms c t g' show ?thesis
    by (auto simp: ntrans_features_def read_ptr_def chunk_wf_def nt_laws_def nt_ids_def)
qed

lemma more_ntrans: "AbsMethod.more m' = AbsMethod.more m \<Longrightarrow> ntrans m' = ntrans m" for m m' :: NTransForm
  by (cases m; cases m') simp

lemma nt_keep:
  assumes "nt_laws x C c g m" "chunker m' = chunker m" "ntrans m' = ntrans m"
  shows "nt_laws x C c g m'" "nt_ids m' = nt_ids m"
  using assms by (simp_all add: nt_laws_def nt_ids_def)

lemma ntrans_unique_ok:
  assumes "nt_laws x C c g m" "delta_inv x C (nt_feat c g) (nt_ids m) m" "dedup_chunk_ok C ch"
  shows "\<exists>ch' m'. ntrans_unique x h ch m = Inr (ch', m') \<and> stored x h (chunkPtr ch) m ch' m' \<and> nt_laws x C c g m'
    \<and> (\<forall>(k, i) \<in> nt_ids m'. (k, i) \<in> nt_ids m \<or> base_known x {b \<in> C. nt_feat c g b k} (store_abs (dataWrite m')) i)"
proof -
  let ?c = "ch\<lparr>chunkID := uniquechunkNum m, deltaFlag := NO_DELTA\<rparr>" and ?es = "store_abs (dataWrite m)"
  let ?m = "FP_Insert h (int (uniquechunkNum m)) m" and ?sf = "nt_sf c g (chunkPtr ch)"
  have ch: "chunk_wf ?c" "chunkSize ?c \<le> CONTAINER_MAX_SIZE" "\<not> HeaderFlag ?c" "chunkPtr ?c \<in> C"
    using assms(3) by (simp_all add: dedup_chunk_ok_def chunk_wf_def)
  have l: "lz4_law x" "xd3_law x C (nt_feat c g)" using assms(1) by (simp_all add: nt_laws_def)
  have inv: "dw_inv (dataWrite m)" "uniquechunkNum m = length ?es" "\<forall>(k, i) \<in> nt_ids m. base_known x {b \<in> C. nt_feat c g b k} ?es i"
    using assms(2) by (simp_all add: delta_inv_def Let_def)
  have "nt_laws x C c g ?m" "nt_ids ?m = nt_ids m" by (rule nt_keep [OF assms(1)], simp_all add: FP_Insert_def)+
  then obtain m1 where f: "ntrans_features ?c ?m = Inr (?sf, m1)" "nt_laws x C c g m1" "nt_ids m1 = nt_ids m"
    "m1 = ?m\<lparr>ntrans := ntrans m1, fealist := fealist m1\<rparr>"
    using ntrans_features_ok [OF _ ch(1), of x C c g ?m] by auto
  define base where "base = querySF ?sf (ntrans m1)"
  define m2 where "m2 = m1\<lparr>ntrans := insertSFIndex ?sf (int (uniquechunkNum m)) (ntrans m1)\<rparr>"
  have m1: "dataWrite m1 = dataWrite m" "uniquechunkNum m1 = uniquechunkNum m" "FPindex m1 = (FPindex m)(h \<mapsto> int (uniquechunkNum m))"
    by (subst f(4), simp add: FP_Insert_def)+
  have run: "ntrans_unique x h ch m = rbind (if base \<noteq> - 1 then store_delta x DELTA base ?c m1 else store_base x ?c m2) count_unique"
    using f(1) by (simp add: ntrans_unique_def Let_def base_def m2_def)
  show ?thesis
  proof (cases "base = - 1")
    case True
    obtain c' m' where b: "store_base x ?c m2 = Inr (c', m')" "appended x (chunkPtr ch) m2 c' m'"
      "plain_entry x (uniquechunkNum m) (store_abs (dataWrite m') ! uniquechunkNum m) (chunkPtr ch)"
      using store_base_ok [OF l(1) ch(1-3), of m2] inv(1,2) m1 by (auto simp: m2_def)
    obtain m'' where u: "count_unique (c', m') = Inr (c', m'')" "stored x h (chunkPtr ch) m c' m''" "dataWrite m'' = dataWrite m'"
      "chunker m'' = chunker m2" "AbsMethod.more m'' = AbsMethod.more m2"
      using count_unique_stored [OF b(2), of m h] m1 inv(2) by (auto simp: m2_def)
    note n = more_ntrans [OF u(5)]
    have "base_known x {chunkPtr ch} (store_abs (dataWrite m'')) (int (uniquechunkNum m))"
      using b(2,3) u(3) inv(2) m1(1) unfolding base_known_def
      by (intro exI [of _ "uniquechunkNum m"]) (auto simp: appended_def stores_def Let_def m2_def)
    from nt_index.enter_base [OF this, of C ?sf "nt_feat c g" "ntrans m1"] ch(4)
    have "\<forall>(k, i) \<in> nt_ids m2. (k, i) \<in> nt_ids m \<or> base_known x {b \<in> C. nt_feat c g b k} (store_abs (dataWrite m'')) i"
      unfolding f(3) [symmetric] by (simp add: nt_feat_def nt_ids_def m2_def)
    moreover have "nt_laws x C c g m''" "nt_ids m'' = nt_ids m2"
      using f(2) u(4) n by (simp_all add: nt_laws_def nt_ids_def m2_def same_tables_def insertSFIndex_def)
    ultimately show ?thesis using run True b(1) u(1,2) by auto
  next
    case False
    have "\<forall>(k, i) \<in> nt_ids m1. base_known x {b \<in> C. nt_feat c g b k} ?es i" unfolding f(3) by (rule inv(3))
    from nt_index.find_base [OF this [unfolded nt_ids_def], of ?sf "chunkPtr ch"] False
    obtain k where k: "nt_feat c g (chunkPtr ch) k" "base_known x {b \<in> C. nt_feat c g b k} ?es base"
      unfolding base_def by (auto simp: nt_feat_def)
    obtain c' m' where b: "store_delta x DELTA base ?c m1 = Inr (c', m')" "appended x (chunkPtr ch) m1 c' m'"
      using store_delta_ok [OF l(2) ch, of DELTA m1 k base] inv(1,2) m1 k by auto
    obtain m'' where u: "count_unique (c', m') = Inr (c', m'')" "stored x h (chunkPtr ch) m c' m''"
      "chunker m'' = chunker m1" "AbsMethod.more m'' = AbsMethod.more m1"
      using count_unique_stored [OF b(2), of m h] m1 inv(2) by auto
    from nt_keep [OF f(2) u(3) more_ntrans [OF u(4)]] run False b(1) u(1,2) f(3) show ?thesis by auto
  qed
qed

interpretation ntransform: delta_method x C "nt_feat c g" nt_ids "nt_laws x C c g" "ntrans_unique x" ntrans_duplicate
  for x C c g
proof unfold_locales
  fix m :: NTransForm and ch h k
  assume inv: "delta_inv x C (nt_feat c g) (nt_ids m) m" and l: "nt_laws x C c g m" and ch: "dedup_chunk_ok C ch"
  show "\<exists>ch' m'. ntrans_unique x h ch m = Inr (ch', m') \<and> stored x h (chunkPtr ch) m ch' m' \<and> nt_laws x C c g m'
    \<and> (\<forall>(k, i) \<in> nt_ids m'. (k, i) \<in> nt_ids m \<or> base_known x {b \<in> C. nt_feat c g b k} (store_abs (dataWrite m')) i)"
    by (rule ntrans_unique_ok [OF l inv ch])
  assume "known x (store_abs (dataWrite m)) k (chunkPtr ch)"
  from duplicate_same_store [OF this] obtain d m' where
    d: "dedup_duplicate (int k) m = Inr (d, m')" "chunkID d = k" "\<not> HeaderFlag d" "same_store m m'" "m' = m\<lparr>DedupReduct := DedupReduct m'\<rparr>"
    by blast
  let ?m = "m'\<lparr>PrevDedupChunkid := int k\<rparr>"
  have "chunker ?m = chunker m" "ntrans ?m = ntrans m" by (subst d(5), simp)+
  from nt_keep [OF l this] have "nt_laws x C c g ?m" "nt_ids ?m = nt_ids m" .
  moreover have "same_store m ?m" using d(4) by (simp add: same_store_def)
  ultimately show "\<exists>ch' m'. ntrans_duplicate (int k) ch m = Inr (ch', m') \<and> chunkID ch' = k \<and> \<not> HeaderFlag ch' \<and> same_store m m'
    \<and> nt_laws x C c g m' \<and> (\<forall>(k, i) \<in> nt_ids m'. (k, i) \<in> nt_ids m \<or> base_known x {b \<in> C. nt_feat c g b k} (store_abs (dataWrite m)) i)"
    using d(1-3) by (auto simp: ntrans_duplicate_def)
qed (auto simp: nt_laws_def nt_ids_def note_recipe_def)

interpretation ntrans_files: pipeline x "ntrans_chunk x" "ntransform.method_inv x C c0 g0" dataWrite "dedup_chunk_ok C" "NTrans_backup x"
    set_backup ntrans_end "\<lambda>n m. True" std_ready 16384 C
  for x C c0 g0
  unfolding ntrans_chunk_def
  by unfold_locales (auto simp: ntransform.method_inv_def nt_laws_def delta_inv_def Let_def NTrans_backup_def NTrans_ProcessTrace_def
    ntrans_chunk_def set_backup_def am_SetFilename_def dw_SetFilename_def ntrans_end_def nt_ids_def dedup_chunk_ok_def size_consts)

lemma ntrans_new_sel:
  "dataWrite (NTransForm_new dis f0 s0 dw) = dw" "uniquechunkNum (NTransForm_new dis f0 s0 dw) = 0"
  "FPindex (NTransForm_new dis f0 s0 dw) = Map.empty" "ntrans (NTransForm_new dis f0 s0 dw) = FeatureGen_new dis f0 s0"
  "chunker (NTransForm_new dis f0 s0 dw) = chunker (AbsMethod_new dw)"
  by (simp_all add: NTransForm_new_def AbsMethod.defs NTransForm.defs AbsMethod_new_def)

lemma method_chunker_ok: "cdc_ok (chunker (AbsMethod_new dw))"
  by (simp add: AbsMethod_new_def cdc_ok_def ChunkerInit_def changeChunkSize_def Chunker_fields_def cdc_setup_def CalNormalSize_def
      Chunker_DivCeil_def Let_def)

lemma ntrans_inv_new:
  fixes dis f0 s0 w f
  defines "m \<equiv> NTransForm_new dis f0 s0 (dataWrite_new f w)"
  assumes "lz4_law x" "hash_law x C" "xd3_law x C (nt_feat (chunker m) (ntrans m))" "\<forall>cid. w (container_path cid)"
  shows "ntransform.method_inv x C (chunker m) (ntrans m) m"
  using assms(2-4) dataWrite_new_inv [OF assms(5)] method_chunker_ok
  by (simp add: ntransform.method_inv_def nt_laws_def delta_inv_def nt_ids_def m_def ntrans_new_sel FeatureGen_new_def same_tables_def)

text \<open>
  Backup and restore with N-transform are inverse, under the same laws of LZ4, SHA-256 and xdelta3 as
  for Finesse, where the chunks with a common super-feature are those whose longest FastCDC subchunks
  have the same selected windows in one of the three groups.
\<close>

theorem NTrans_restores:
  assumes "t \<in> {0, 1}" "Chunker_new t = Inr c" "n \<le> length names" "distinct (take n names)"
    and "\<forall>name \<in> set (take n names). files name \<noteq> None" "\<forall>path. w path"
    and "lz4_law x" "hash_law x (file_blocks files (take n names))" "m = NTransForm_new dis f0 s0 (dataWrite_new f w)"
    and "xd3_law x (file_blocks files (take n names)) (nt_feat (chunker m) (ntrans m))"
  shows "\<exists>c' m'. main_loop (NTrans_backup x) files n names (c, m) = Some (Inr (c', m'))
    \<and> (\<forall>name \<in> set (take n names). \<exists>dw'. restoreFile x name (dataWrite m') = Inr dw'
         \<and> fs dw' (restore_path name) = files name)"
  using ntrans_inv_new [OF assms(7,8), of dis f0 s0 f w] Chunker_new_std [OF assms(1,2)] assms(3-6,9,10)
  by (intro ntrans_files.main_restores [where ?c0.0 = "chunker m" and ?g0.0 = "ntrans m"])
    (auto simp: ntrans_new_sel dataWrite_new_def Let_def file_blocks_def)

theorem NTrans_restores_witness:
  "\<exists>c' m' dw'. main_loop (NTrans_backup plain_env) [''a'' \<mapsto> [1, 2]] 1 [''a'']
      (fastcdc0, NTransForm_new of_nat [] [] (dataWrite_new Map.empty (\<lambda>_. True))) = Some (Inr (c', m'))
    \<and> restoreFile plain_env ''a'' (dataWrite m') = Inr dw' \<and> fs dw' (restore_path ''a'') = Some [1, 2]"
proof -
  define F :: "string \<rightharpoonup> byte list" where "F = [''a'' \<mapsto> [1, 2]]"
  have F: "F ''a'' = Some [1, 2]" by (simp add: F_def)
  have h: "hash_law plain_env (file_blocks F (take 1 [''a'']))"
    by (simp add: file_blocks_def blocks_12 F) (auto simp: hash_law_def plain_env_def inj_on_def CHUNK_HASH_SIZE_def numeral_eq_Suc)
  have d: "xd3_law plain_env (file_blocks F (take 1 [''a''])) feat" for feat :: "byte list \<Rightarrow> nat \<times> u64 \<Rightarrow> bool"
    by (simp add: file_blocks_def blocks_12 F) (auto simp: xd3_law_def plain_env_def size_consts)
  have "Chunker_new 1 = Inr fastcdc0" by (simp add: Chunker_new_def ChunkTypeNum_of_int_def fastcdc0_def)
  from NTrans_restores [OF _ this _ _ _ _ plain_env_laws(1) h refl d, of "\<lambda>_. True" of_nat "[]" "[]" Map.empty]
  show ?thesis unfolding F_def [symmetric] by (simp add: F del: main_loop.simps One_nat_def)
qed

end
