(* ===== verification/Palantir.thy ===== *)
theory Palantir
  imports Delta Similarity
begin

text \<open>
  The method Palantir, \<open>src/method/palantir.cc\<close>: three indexes of super-features (three, four and six
  groups of the twelve features), of which the second and third are cleaned of old entries after each
  backup, and a test that stores a chunk as a base when its delta saves less than LZ4 does on average.

  The double arithmetic of that test enters through one comparison of quotients, a parameter:
  \<open>ratio_less a b r\<close> stands for \<open>(double)a / (double)b < r\<close>, where the member \<open>LZ4Ratio\<close> is represented by the
  operands of the quotient it was computed from.
\<close>

section \<open>The method\<close>

type_synonym ratio = "u64 \<times> u64"
type_synonym ratio_test = "nat \<Rightarrow> nat \<Rightarrow> ratio \<Rightarrow> bool"
type_synonym versioned = "(u64, (int \<times> int) list) mapping"

record Palantir = AbsMethod +
  pal_table :: FeatureIndexTable
  pal_PrevDedupChunkid :: int
  SFDelete :: int
  SFNew :: int
  pal_Version :: int
  LZ4Ratio :: ratio
  SFindex1 :: "(u64, int list) mapping"
  SFindex2 :: versioned
  SFindex3 :: versioned

definition Palantir_new :: "(nat \<Rightarrow> u64) \<Rightarrow> dataWrite \<Rightarrow> Palantir result" where
  "Palantir_new dis dw =
     rbind (FeatureGenerator_new dis k1_128RatioMask 12 3) (\<lambda>g.
       Inr (AbsMethod.extend (AbsMethod_new dw)
         (Palantir.fields (FeatureIndexTable_new g) (- 1) 0 0 0 (2, 1) Mapping.empty Mapping.empty Mapping.empty)))"

text \<open>
  \<open>SF_Find\<close> looks all super-features up in each index in turn.  The first index is read with a loop over
  the vector; the others take \<open>begin()\<close> of the vector, which is undefined when it is empty.
\<close>

fun pal_find1 :: "(u64, int list) mapping \<Rightarrow> u64 list \<Rightarrow> int option" where
  "pal_find1 idx [] = None"
| "pal_find1 idx (sf # sfs) =
     (case Mapping.lookup idx sf of Some (i # _) \<Rightarrow> Some i | _ \<Rightarrow> pal_find1 idx sfs)"

fun pal_find2 :: "versioned \<Rightarrow> u64 list \<Rightarrow> int option result" where
  "pal_find2 idx [] = Inr None"
| "pal_find2 idx (sf # sfs) =
     (case Mapping.lookup idx sf of
        None \<Rightarrow> pal_find2 idx sfs
      | Some [] \<Rightarrow> Inl OutOfBounds
      | Some ((i, _) # _) \<Rightarrow> Inr (Some i))"

definition pal_SF_Find :: "u64 list \<Rightarrow> Palantir \<Rightarrow> int result" where
  "pal_SF_Find sfs m =
     (case pal_find1 (SFindex1 m) sfs of
        Some i \<Rightarrow> Inr i
      | None \<Rightarrow>
          rbind (pal_find2 (SFindex2 m) sfs) (\<lambda>r. case r of
            Some i \<Rightarrow> Inr i
          | None \<Rightarrow>
              rbind (pal_find2 (SFindex3 m) sfs) (\<lambda>r. case r of Some i \<Rightarrow> Inr i | None \<Rightarrow> Inr (- 1))))"

text \<open>The first element of a vector is replaced; an empty or new vector gets its first element.\<close>

definition put_first :: "'k \<Rightarrow> 'v \<Rightarrow> ('k, 'v list) mapping \<times> int \<Rightarrow> ('k, 'v list) mapping \<times> int" where
  "put_first k v = (\<lambda>(idx, new). case Mapping.lookup idx k of
     Some (_ # vs) \<Rightarrow> (Mapping.update k (v # vs) idx, new)
   | _ \<Rightarrow> (Mapping.update k [v] idx, new + 1))"

definition pal_SF_Insert :: "u64 list \<Rightarrow> int \<Rightarrow> Palantir \<Rightarrow> Palantir result" where
  "pal_SF_Insert sfs i m =
     (if length sfs < 13 then Inl OutOfBounds
      else let (idx1, n) = fold (\<lambda>j. put_first (sfs ! j) i) [0..<3] (SFindex1 m, SFNew m);
               (idx2, n) = fold (\<lambda>j. put_first (sfs ! j) (i, pal_Version m)) [3..<7] (SFindex2 m, n);
               (idx3, n) = fold (\<lambda>j. put_first (sfs ! j) (i, pal_Version m)) [7..<13] (SFindex3 m, n)
           in Inr (m\<lparr>SFindex1 := idx1, SFindex2 := idx2, SFindex3 := idx3, SFNew := n\<rparr>))"

definition stale :: "int \<Rightarrow> (int \<times> int) list \<Rightarrow> bool" where
  "stale v es = (case es of [] \<Rightarrow> False | (_, w) # _ \<Rightarrow> w < v)"

definition clean_index :: "int \<Rightarrow> versioned \<Rightarrow> versioned" where
  "clean_index v idx = Mapping.map_values (\<lambda>_ es. if stale v es then tl es else es) idx"

definition count_stale :: "int \<Rightarrow> versioned \<Rightarrow> int" where
  "count_stale v idx = int (card (Set.filter (\<lambda>k. case Mapping.lookup idx k of Some es \<Rightarrow> stale v es | None \<Rightarrow> False) (Mapping.keys idx)))"

definition CleanIndex :: "Palantir \<Rightarrow> Palantir" where
  "CleanIndex m =
     m\<lparr>SFindex2 := clean_index (pal_Version m - 5) (SFindex2 m), SFindex3 := clean_index (pal_Version m - 2) (SFindex3 m),
       SFDelete := SFDelete m + count_stale (pal_Version m - 5) (SFindex2 m) + count_stale (pal_Version m - 2) (SFindex3 m)\<rparr>"

section \<open>Processing a chunk\<close>

definition pal_features :: "Chunk_t \<Rightarrow> Palantir \<Rightarrow> (u64 list \<times> Palantir) result" where
  "pal_features ch m =
     rbind (read_ptr (chunkSize ch) (chunkPtr ch)) (\<lambda>content.
     let (sfs, g) = PalantirGetSF content (feature_generator (pal_table m))
     in Inr (sfs, m\<lparr>pal_table := (pal_table m)\<lparr>feature_generator := g\<rparr>\<rparr>))"

text \<open>A base chunk, which also updates the average ratio.\<close>

definition pal_base :: "env \<Rightarrow> u64 list \<Rightarrow> Chunk_t \<Rightarrow> Palantir \<Rightarrow> (Chunk_t \<times> Palantir) result" where
  "pal_base x sfs ch m =
     rbind (pal_SF_Insert sfs (int (chunkID ch)) m) (\<lambda>m.
     rbind (store_base x ch m) (\<lambda>(ch, m).
       let ori = basechunkOriSize m + of_nat (chunkSize ch)
       in Inr (ch, m\<lparr>basechunkOriSize := ori, LZ4Ratio := (ori, basechunkSize m)\<rparr>)))"

text \<open>A chunk with a similar base: a delta, or a base when the delta is not better than LZ4.\<close>

definition pal_delta ::
  "env \<Rightarrow> ratio_test \<Rightarrow> u64 list \<Rightarrow> int \<Rightarrow> Chunk_t \<Rightarrow> Palantir \<Rightarrow> (Chunk_t \<times> Palantir) result" where
  "pal_delta x ratio_less sfs base ch m =
     rbind (encode_delta x base ch (dataWrite m)) (\<lambda>(d, dw).
       let m = m\<lparr>dataWrite := dw\<rparr> in
       if d = [] then Inl DeltaError
       else if ratio_less (chunkSize ch) (length d) (LZ4Ratio m) then pal_base x sfs ch m
       else put_delta DELTA base d ch m)"

definition pal_unique ::
  "env \<Rightarrow> ratio_test \<Rightarrow> byte list \<Rightarrow> Chunk_t \<Rightarrow> Palantir \<Rightarrow> (Chunk_t \<times> Palantir) result" where
  "pal_unique x ratio_less h ch m =
     rbind (pal_features ch m) (\<lambda>(sfs, m).
     let ch = ch\<lparr>chunkID := uniquechunkNum m, deltaFlag := NO_DELTA\<rparr>;
         m = FP_Insert h (int (chunkID ch)) m in
     rbind (pal_SF_Find sfs m) (\<lambda>base.
     rbind (if base \<noteq> - 1 then pal_delta x ratio_less sfs base ch m else pal_base x sfs ch m) count_unique))"

text \<open>A duplicate of a base chunk renews its entries in the indexes.\<close>

definition pal_duplicate :: "int \<Rightarrow> Chunk_t \<Rightarrow> Palantir \<Rightarrow> (Chunk_t \<times> Palantir) result" where
  "pal_duplicate i ch m =
     rbind (pal_features ch m) (\<lambda>(sfs, m).
     rbind (Get_Chunk_MetaInfo i (dataWrite m)) (\<lambda>ch.
     rbind (if deltaFlag ch = NO_DELTA \<or> deltaFlag ch = NO_LZ4 then pal_SF_Insert sfs (int (chunkID ch)) m else Inr m) (\<lambda>m.
       Inr (ch, m\<lparr>DedupReduct := DedupReduct m + of_nat (chunkSize ch), pal_PrevDedupChunkid := i\<rparr>))))"

definition pal_chunk :: "env \<Rightarrow> ratio_test \<Rightarrow> Palantir \<Rightarrow> Chunk_t \<Rightarrow> Palantir result" where
  "pal_chunk x ratio_less = process_chunk x (pal_unique x ratio_less) pal_duplicate"

definition pal_end :: "Palantir \<Rightarrow> Palantir" where
  "pal_end m = (let m = CleanIndex m in
     m\<lparr>pal_Version := pal_Version m + 1, ads_Version := Suc (ads_Version m), SFnum := nat ((SFNew m - SFDelete m) mod 2 ^ 64)\<rparr>)"

definition Palantir_ProcessTrace :: "env \<Rightarrow> ratio_test \<Rightarrow> Chunk_t list \<Rightarrow> Palantir \<Rightarrow> Palantir result" where
  "Palantir_ProcessTrace x ratio_less chunks m = rbind (rfold (pal_chunk x ratio_less) m chunks) (\<lambda>m. Inr (pal_end m))"

definition Palantir_backup :: "env \<Rightarrow> ratio_test \<Rightarrow> Palantir \<Rightarrow> string \<times> Chunk_t list \<Rightarrow> Palantir result" where
  "Palantir_backup x ratio_less m job = (case job of (name, chunks) \<Rightarrow> Palantir_ProcessTrace x ratio_less chunks (set_backup name m))"

text \<open>Of \<open>Version_log\<close>, which prints, only the update of the previous size has an effect on the state.\<close>

definition pal_Version_log :: "Palantir \<Rightarrow> Palantir" where
  "pal_Version_log m = m\<lparr>preLogicalchunkiSize := logicalchunkSize m\<rparr>"

section \<open>The indexes\<close>

definition entries :: "('k, 'v list) mapping \<Rightarrow> ('k \<times> 'v) set" where
  "entries idx = {(k, v). \<exists>es. Mapping.lookup idx k = Some es \<and> v \<in> set es}"

definition idx_ok :: "versioned \<Rightarrow> bool" where
  "idx_ok idx \<longleftrightarrow> (\<forall>k es. Mapping.lookup idx k = Some es \<longrightarrow> es \<noteq> [] \<and> (\<forall>(i, w) \<in> set es. 0 \<le> w))"

definition pal_ids :: "Palantir \<Rightarrow> (u64 \<times> int) set" where
  "pal_ids m = entries (SFindex1 m) \<union> apsnd fst ` entries (SFindex2 m) \<union> apsnd fst ` entries (SFindex3 m)"

lemma put_first_entries: "entries (fst (put_first k v s)) \<subseteq> insert (k, v) (entries (fst s))"
  by (cases s) (auto simp: put_first_def entries_def lookup_update' split: option.splits list.splits if_splits)

lemma put_first_ok: "idx_ok (fst s) \<Longrightarrow> 0 \<le> w \<Longrightarrow> idx_ok (fst (put_first k (i, w) s))"
  by (cases s) (fastforce simp: put_first_def idx_ok_def lookup_update' split: option.splits list.splits if_splits)

lemma fold_put_first_entries:
  "entries (fst (fold (\<lambda>j. put_first (f j) v) js s)) \<subseteq> entries (fst s) \<union> (\<lambda>j. (f j, v)) ` set js"
proof (induction js arbitrary: s)
  case (Cons j js)
  from Cons [of "put_first (f j) v s"] put_first_entries [of "f j" v s] show ?case by auto
qed simp

lemma entries_ids: "A \<subseteq> B \<union> (\<lambda>j. (f j, (i, w))) ` J \<Longrightarrow> apsnd fst ` A \<subseteq> apsnd fst ` B \<union> (\<lambda>j. (f j, i)) ` J"
  by force

lemma fold_put_first_ok: "idx_ok (fst s) \<Longrightarrow> 0 \<le> w \<Longrightarrow> idx_ok (fst (fold (\<lambda>j. put_first (f j) (i, w)) js s))"
  by (induction js arbitrary: s) (simp_all add: put_first_ok)

lemma pal_find1_entry: "pal_find1 idx sfs = Some i \<Longrightarrow> \<exists>sf \<in> set sfs. (sf, i) \<in> entries idx"
  by (induction idx sfs rule: pal_find1.induct) (auto simp: entries_def split: option.splits list.splits)

lemma pal_find2_entry: "pal_find2 idx sfs = Inr (Some i) \<Longrightarrow> \<exists>sf \<in> set sfs. (sf, i) \<in> apsnd fst ` entries idx"
proof (induction idx sfs rule: pal_find2.induct)
  case (2 idx sf sfs)
  show ?case
  proof (cases "Mapping.lookup idx sf")
    case (Some es)
    with "2.prems" obtain w es' where "es = (i, w) # es'" by (auto split: list.splits prod.splits)
    with Some have "(sf, (i, w)) \<in> entries idx" by (simp add: entries_def)
    then show ?thesis by force
  qed (use 2 in auto)
qed simp

lemma pal_find2_ok: "idx_ok idx \<Longrightarrow> \<exists>r. pal_find2 idx sfs = Inr r"
  by (induction idx sfs rule: pal_find2.induct) (auto simp: idx_ok_def split: option.splits list.splits)

lemma pal_SF_Find_ok:
  assumes "idx_ok (SFindex2 m)" "idx_ok (SFindex3 m)"
  shows "\<exists>i. pal_SF_Find sfs m = Inr i"
proof -
  obtain r2 r3 where "pal_find2 (SFindex2 m) sfs = Inr r2" "pal_find2 (SFindex3 m) sfs = Inr r3"
    using pal_find2_ok [OF assms(1), of sfs] pal_find2_ok [OF assms(2), of sfs] by blast
  then show ?thesis by (cases "pal_find1 (SFindex1 m) sfs"; cases r2; cases r3) (simp_all add: pal_SF_Find_def)
qed

lemma pal_SF_Find_ids:
  assumes "pal_SF_Find sfs m = Inr i" "i \<noteq> - 1"
  shows "\<exists>sf \<in> set sfs. (sf, i) \<in> pal_ids m"
proof -
  have "pal_find1 (SFindex1 m) sfs = Some i \<or> pal_find2 (SFindex2 m) sfs = Inr (Some i) \<or> pal_find2 (SFindex3 m) sfs = Inr (Some i)"
    using assms unfolding pal_SF_Find_def by (auto simp: rbind_eq_Inr_iff split: option.splits)
  then show ?thesis
    using pal_find1_entry [of "SFindex1 m" sfs i] pal_find2_entry [of "SFindex2 m" sfs i] pal_find2_entry [of "SFindex3 m" sfs i]
    unfolding pal_ids_def Un_iff by blast
qed

lemma pal_SF_Insert_ok:
  assumes "length sfs = 13"
  shows "\<exists>m'. pal_SF_Insert sfs i m = Inr m' \<and> m' = m\<lparr>SFindex1 := SFindex1 m', SFindex2 := SFindex2 m', SFindex3 := SFindex3 m', SFNew := SFNew m'\<rparr>
    \<and> pal_ids m' \<subseteq> pal_ids m \<union> {(sf, i) | sf. sf \<in> set sfs}
    \<and> (0 \<le> pal_Version m \<longrightarrow> idx_ok (SFindex2 m) \<longrightarrow> idx_ok (SFindex3 m) \<longrightarrow> idx_ok (SFindex2 m') \<and> idx_ok (SFindex3 m'))"
proof -
  let ?v = "(i, pal_Version m)" and ?new = "{(sf, i) | sf. sf \<in> set sfs}"
  obtain idx1 n1 where 1: "fold (\<lambda>j. put_first (sfs ! j) i) [0..<3] (SFindex1 m, SFNew m) = (idx1, n1)" by (metis surj_pair)
  obtain idx2 n2 where 2: "fold (\<lambda>j. put_first (sfs ! j) ?v) [3..<7] (SFindex2 m, n1) = (idx2, n2)" by (metis surj_pair)
  obtain idx3 n3 where 3: "fold (\<lambda>j. put_first (sfs ! j) ?v) [7..<13] (SFindex3 m, n2) = (idx3, n3)" by (metis surj_pair)
  have r: "pal_SF_Insert sfs i m = Inr (m\<lparr>SFindex1 := idx1, SFindex2 := idx2, SFindex3 := idx3, SFNew := n3\<rparr>)"
    unfolding pal_SF_Insert_def Let_def 1 2 3 prod.simps assms by simp
  have sf: "(\<lambda>j. (sfs ! j, i)) ` set [a..<b] \<subseteq> ?new" if "b \<le> 13" for a b
    using that assms by (auto simp: nth_mem)
  have "entries idx1 \<subseteq> entries (SFindex1 m) \<union> ?new"
    by (rule subset_trans [OF fold_put_first_entries [of "(!) sfs" i "[0..<3]" "(SFindex1 m, SFNew m)", unfolded 1 fst_conv] Un_mono [OF subset_refl sf]])
      simp
  moreover have "apsnd fst ` entries idx2 \<subseteq> apsnd fst ` entries (SFindex2 m) \<union> ?new"
    by (rule subset_trans [OF entries_ids [OF fold_put_first_entries [of "(!) sfs" ?v "[3..<7]" "(SFindex2 m, n1)", unfolded 2 fst_conv]]
          Un_mono [OF subset_refl sf]]) simp
  moreover have "apsnd fst ` entries idx3 \<subseteq> apsnd fst ` entries (SFindex3 m) \<union> ?new"
    by (rule subset_trans [OF entries_ids [OF fold_put_first_entries [of "(!) sfs" ?v "[7..<13]" "(SFindex3 m, n2)", unfolded 3 fst_conv]]
          Un_mono [OF subset_refl sf]]) simp
  ultimately have "pal_ids (m\<lparr>SFindex1 := idx1, SFindex2 := idx2, SFindex3 := idx3, SFNew := n3\<rparr>) \<subseteq> pal_ids m \<union> {(sf, i) | sf. sf \<in> set sfs}"
    by (simp add: pal_ids_def) blast
  moreover have "idx_ok idx2" "idx_ok idx3" if "0 \<le> pal_Version m" "idx_ok (SFindex2 m)" "idx_ok (SFindex3 m)"
    using that fold_put_first_ok [of "(SFindex2 m, n1)" "pal_Version m" "(!) sfs" i "[3..<7]", unfolded 2 fst_conv]
      fold_put_first_ok [of "(SFindex3 m, n2)" "pal_Version m" "(!) sfs" i "[7..<13]", unfolded 3 fst_conv] by blast+
  ultimately show ?thesis using r by simp
qed

section \<open>Palantir is lossless for the first backups\<close>

definition pal_sfs :: "FeatureGenerator \<Rightarrow> byte list \<Rightarrow> u64 list" where
  "pal_sfs g b = fst (PalantirGetSF b g)"

definition pal_feat :: "FeatureGenerator \<Rightarrow> byte list \<Rightarrow> u64 \<Rightarrow> bool" where
  "pal_feat g b sf \<longleftrightarrow> sf \<in> set (pal_sfs g b)"

text \<open>The part of the state that similarity detection depends on.\<close>

definition pal_view :: "Palantir \<Rightarrow> FeatureGenerator \<times> int \<times> (u64, int list) mapping \<times> versioned \<times> versioned" where
  "pal_view m = (CleanFeatures (feature_generator (pal_table m)), pal_Version m, SFindex1 m, SFindex2 m, SFindex3 m)"

definition pal_laws :: "env \<Rightarrow> byte list set \<Rightarrow> FeatureGenerator \<Rightarrow> int \<Rightarrow> Palantir \<Rightarrow> bool" where
  "pal_laws x C g v m \<longleftrightarrow> lz4_law x \<and> hash_law x C \<and> xd3_law x C (pal_feat g)
     \<and> CleanFeatures (feature_generator (pal_table m)) = CleanFeatures g \<and> pal_Version m = v \<and> 0 \<le> v
     \<and> idx_ok (SFindex2 m) \<and> idx_ok (SFindex3 m)"

lemma pal_view_keep:
  assumes "pal_view m' = pal_view m"
  shows "pal_laws x C g v m' = pal_laws x C g v m" "pal_ids m' = pal_ids m"
  using assms by (simp_all add: pal_view_def pal_laws_def pal_ids_def)

lemma pal_view_upd:
  "pal_view (FP_Insert h i m) = pal_view m" "pal_view (m\<lparr>dataWrite := dw\<rparr>) = pal_view m"
  "pal_view (m\<lparr>basechunkOriSize := a, LZ4Ratio := r\<rparr>) = pal_view m"
  "pal_view (m\<lparr>uniquechunkNum := n, uniquechunkSize := s\<rparr>) = pal_view m"
  "pal_view (note_recipe c m) = pal_view m"
  "pal_view (m\<lparr>DedupReduct := d, pal_PrevDedupChunkid := p\<rparr>) = pal_view m"
  by (simp_all add: pal_view_def FP_Insert_def note_recipe_def)

lemma more_pal_view: "AbsMethod.more m' = AbsMethod.more m \<Longrightarrow> pal_view m' = pal_view m" for m m' :: Palantir
  by (cases m; cases m') (simp add: pal_view_def)

lemma PalantirGetSF_Clean: "CleanFeatures g = CleanFeatures g' \<Longrightarrow> PalantirGetSF v g = PalantirGetSF v g'"
  by (simp add: PalantirGetSF_def)

lemma PalantirGetSF_gen: "CleanFeatures (snd (PalantirGetSF v g)) = CleanFeatures g"
  by (simp add: PalantirGetSF_def PalantirResemblanceDetect_def Let_def sample_loop_Clean) (simp add: CleanFeatures_def)

lemma pal_sfs_length: "length (pal_sfs g b) = 13"
  by (simp add: pal_sfs_def PalantirGetSF_def PalantirMakeSF_def Let_def)

lemma pal_features_ok:
  assumes "chunk_wf ch" "pal_laws x C g v m"
  shows "\<exists>m'. pal_features ch m = Inr (pal_sfs g (chunkPtr ch), m') \<and> pal_view m' = pal_view m \<and> m' = m\<lparr>pal_table := pal_table m'\<rparr>"
proof -
  have c: "CleanFeatures (feature_generator (pal_table m)) = CleanFeatures g" using assms(2) by (simp add: pal_laws_def)
  obtain g' where g': "PalantirGetSF (chunkPtr ch) (feature_generator (pal_table m)) = (pal_sfs g (chunkPtr ch), g')"
    using PalantirGetSF_Clean [OF c, of "chunkPtr ch"] by (metis pal_sfs_def prod.collapse)
  have "CleanFeatures g' = CleanFeatures g" using PalantirGetSF_gen [of "chunkPtr ch" "feature_generator (pal_table m)"] g' c by simp
  with g' c assms(1) show ?thesis by (simp add: pal_features_def read_ptr_def chunk_wf_def pal_view_def)
qed

lemma pal_base_ok:
  assumes "pal_laws x C g v m" "chunk_wf ch" "chunkSize ch \<le> CONTAINER_MAX_SIZE" "\<not> HeaderFlag ch" "chunkPtr ch \<in> C"
    and "dw_inv (dataWrite m)" "chunkID ch = length (store_abs (dataWrite m))"
  shows "\<exists>ch' m'. pal_base x (pal_sfs g (chunkPtr ch)) ch m = Inr (ch', m') \<and> stores x (chunkPtr ch) m ch' m' \<and> pal_laws x C g v m'
    \<and> (\<forall>(k, i) \<in> pal_ids m'. (k, i) \<in> pal_ids m \<or> base_known x {b \<in> C. pal_feat g b k} (store_abs (dataWrite m')) i)"
proof -
  let ?i = "int (chunkID ch)" and ?b = "chunkPtr ch"
  let ?new = "{(sf, ?i) | sf. sf \<in> set (pal_sfs g ?b)}"
  obtain m1 where m1: "pal_SF_Insert (pal_sfs g ?b) ?i m = Inr m1"
    "m1 = m\<lparr>SFindex1 := SFindex1 m1, SFindex2 := SFindex2 m1, SFindex3 := SFindex3 m1, SFNew := SFNew m1\<rparr>"
    "pal_ids m1 \<subseteq> pal_ids m \<union> ?new" "idx_ok (SFindex2 m1)" "idx_ok (SFindex3 m1)"
    using pal_SF_Insert_ok [OF pal_sfs_length, of g ?b ?i m] assms(1) by (auto simp: pal_laws_def)
  have same: "dataWrite m1 = dataWrite m" "uniquechunkNum m1 = uniquechunkNum m" "FPindex m1 = FPindex m"
    "pal_table m1 = pal_table m" "pal_Version m1 = pal_Version m"
    by (subst m1(2), simp)+
  have "lz4_law x" using assms(1) by (simp add: pal_laws_def)
  from store_base_ok [OF this assms(2-4), of m1] obtain c m2 where
    b: "store_base x ch m1 = Inr (c, m2)" "appended x ?b m1 c m2" "plain_entry x (chunkID ch) (store_abs (dataWrite m2) ! chunkID ch) ?b"
    using assms(6,7) same(1) by auto
  let ?ori = "basechunkOriSize m2 + of_nat (chunkSize c)"
  let ?m = "m2\<lparr>basechunkOriSize := ?ori, LZ4Ratio := (?ori, basechunkSize m2)\<rparr>"
  have v: "pal_view ?m = pal_view m1" using b(2) more_pal_view [of m2 m1] by (simp add: appended_def pal_view_upd)
  have "stores x ?b m c ?m" using b(2) same(1-3) by (simp add: appended_def stores_def)
  moreover have "pal_laws x C g v ?m"
    unfolding pal_view_keep(1) [OF v] using assms(1) m1(4,5) same(4,5) by (simp add: pal_laws_def)
  moreover have "base_known x {ba \<in> C. pal_feat g ba k} (store_abs (dataWrite ?m)) j" if "(k, j) \<in> ?new" for k j
    using that b(2,3) assms(5,7) same(1) unfolding base_known_def
    by (intro exI [of _ "chunkID ch"]) (auto simp: appended_def stores_def Let_def pal_feat_def)
  then have "\<forall>(k, i) \<in> pal_ids ?m. (k, i) \<in> pal_ids m \<or> base_known x {b \<in> C. pal_feat g b k} (store_abs (dataWrite ?m)) i"
    unfolding pal_view_keep(2) [OF v] using m1(3) by blast
  moreover have "pal_base x (pal_sfs g ?b) ch m = Inr (c, ?m)" using m1(1) b(1) by (simp add: pal_base_def Let_def)
  ultimately show ?thesis by blast
qed

lemma pal_delta_ok:
  assumes l: "pal_laws x C g v m" and ch: "chunk_wf ch" "chunkSize ch \<le> CONTAINER_MAX_SIZE" "\<not> HeaderFlag ch" "chunkPtr ch \<in> C"
    and inv: "dw_inv (dataWrite m)" "chunkID ch = length (store_abs (dataWrite m))"
    and k: "pal_feat g (chunkPtr ch) k" "base_known x {b \<in> C. pal_feat g b k} (store_abs (dataWrite m)) base"
  shows "\<exists>ch' m'. pal_delta x ratio_less (pal_sfs g (chunkPtr ch)) base ch m = Inr (ch', m') \<and> stores x (chunkPtr ch) m ch' m'
    \<and> pal_laws x C g v m'
    \<and> (\<forall>(k, i) \<in> pal_ids m'. (k, i) \<in> pal_ids m \<or> base_known x {b \<in> C. pal_feat g b k} (store_abs (dataWrite m')) i)"
proof -
  have "xd3_law x C (pal_feat g)" using l by (simp add: pal_laws_def)
  from encode_delta_ok [OF this ch(1,4) inv(1) k] obtain d j b dw where
    e: "encode_delta x base ch (dataWrite m) = Inr (d, dw)" "d \<noteq> []" "length d \<le> chunkSize ch" "base = int j"
      "j < length (store_abs (dataWrite m))" "plain_entry x j (store_abs (dataWrite m) ! j) b"
      "xd3_decode_memory x d b (CONTAINER_MAX_SIZE * 2) = Some (chunkPtr ch)"
      "dw_inv dw" "store_abs dw = store_abs (dataWrite m)" "recipes dw = recipes (dataWrite m)" by blast
  let ?m = "m\<lparr>dataWrite := dw\<rparr>"
  have st: "stores x b' ?m c m' = stores x b' m c m'" for b' c m' using e(9,10) by (simp add: stores_def)
  note lm = l [folded pal_view_keep(1) [OF pal_view_upd(2) [where m = m and dw = dw], of x C g v]]
  note im = pal_view_keep(2) [OF pal_view_upd(2) [where m = m and dw = dw]]
  show ?thesis
  proof (cases "ratio_less (chunkSize ch) (length d) (LZ4Ratio m)")
    case True
    then have "pal_delta x ratio_less (pal_sfs g (chunkPtr ch)) base ch m = pal_base x (pal_sfs g (chunkPtr ch)) ch ?m"
      using e(1,2) by (simp add: pal_delta_def Let_def)
    then show ?thesis using pal_base_ok [OF lm ch] e(8,9) inv(2) im st by simp
  next
    case False
    obtain c m' where p: "put_delta DELTA (int j) d ch ?m = Inr (c, m')" "appended x (chunkPtr ch) ?m c m'"
      using put_delta_ok [OF ch(1-3), of DELTA ?m d x b j] e inv(2) by auto
    then have "pal_view m' = pal_view m" using more_pal_view [of m' ?m] by (simp add: appended_def pal_view_upd)
    note keep = pal_view_keep [OF this]
    have "pal_delta x ratio_less (pal_sfs g (chunkPtr ch)) base ch m = Inr (c, m')"
      using False e(1,2,4) p(1) by (simp add: pal_delta_def Let_def)
    with p(2) st l keep show ?thesis by (auto simp: appended_def)
  qed
qed

lemma pal_unique_ok:
  assumes "pal_laws x C g v m" "delta_inv x C (pal_feat g) (pal_ids m) m" "dedup_chunk_ok C ch"
  shows "\<exists>ch' m'. pal_unique x ratio_less h ch m = Inr (ch', m') \<and> stored x h (chunkPtr ch) m ch' m' \<and> pal_laws x C g v m'
    \<and> (\<forall>(k, i) \<in> pal_ids m'. (k, i) \<in> pal_ids m \<or> base_known x {b \<in> C. pal_feat g b k} (store_abs (dataWrite m')) i)"
proof -
  let ?c = "ch\<lparr>chunkID := uniquechunkNum m, deltaFlag := NO_DELTA\<rparr>" and ?es = "store_abs (dataWrite m)" and ?sfs = "pal_sfs g (chunkPtr ch)"
  have ch: "chunk_wf ?c" "chunkSize ?c \<le> CONTAINER_MAX_SIZE" "\<not> HeaderFlag ?c" "chunkPtr ?c \<in> C" "chunk_wf ch"
    using assms(3) by (simp_all add: dedup_chunk_ok_def chunk_wf_def)
  have inv: "dw_inv (dataWrite m)" "uniquechunkNum m = length ?es" "\<forall>(k, i) \<in> pal_ids m. base_known x {b \<in> C. pal_feat g b k} ?es i"
    using assms(2) by (simp_all add: delta_inv_def Let_def)
  obtain m1 where f: "pal_features ch m = Inr (?sfs, m1)" "pal_view m1 = pal_view m" "m1 = m\<lparr>pal_table := pal_table m1\<rparr>"
    using pal_features_ok [OF ch(5) assms(1)] by blast
  let ?m = "FP_Insert h (int (uniquechunkNum m)) m1"
  have m1: "dataWrite ?m = dataWrite m" "uniquechunkNum ?m = uniquechunkNum m" "FPindex ?m = (FPindex m)(h \<mapsto> int (uniquechunkNum m))"
    "uniquechunkNum m1 = uniquechunkNum m"
    by (subst f(3), simp add: FP_Insert_def)+
  note keep = pal_view_keep [of ?m m, unfolded pal_view_upd(1), OF f(2)]
  have l: "pal_laws x C g v ?m" using assms(1) keep(1) by simp
  obtain base where base: "pal_SF_Find ?sfs ?m = Inr base" using pal_SF_Find_ok [of ?m ?sfs] l by (auto simp: pal_laws_def)
  have run: "pal_unique x ratio_less h ch m = rbind (if base \<noteq> - 1 then pal_delta x ratio_less ?sfs base ?c ?m else pal_base x ?sfs ?c ?m) count_unique"
    using f(1) base m1(4) by (simp add: pal_unique_def Let_def)
  have "\<exists>c m'. (if base \<noteq> - 1 then pal_delta x ratio_less ?sfs base ?c ?m else pal_base x ?sfs ?c ?m) = Inr (c, m')
      \<and> stores x (chunkPtr ch) ?m c m' \<and> pal_laws x C g v m'
      \<and> (\<forall>(k, i) \<in> pal_ids m'. (k, i) \<in> pal_ids ?m \<or> base_known x {b \<in> C. pal_feat g b k} (store_abs (dataWrite m')) i)"
  proof (cases "base = - 1")
    case True
    with pal_base_ok [OF l ch(1-4)] inv(1,2) m1(1) show ?thesis by simp
  next
    case False
    from pal_SF_Find_ids [OF base this] obtain k where "k \<in> set ?sfs" "(k, base) \<in> pal_ids m" using keep(2) by auto
    then have "pal_feat g (chunkPtr ?c) k" "base_known x {b \<in> C. pal_feat g b k} (store_abs (dataWrite ?m)) base"
      using inv(3) m1(1) by (auto simp: pal_feat_def)
    from pal_delta_ok [OF l ch(1-4) _ _ this, of ratio_less] inv(1,2) m1(1) False show ?thesis by simp
  qed
  then obtain c m' where s: "(if base \<noteq> - 1 then pal_delta x ratio_less ?sfs base ?c ?m else pal_base x ?sfs ?c ?m) = Inr (c, m')"
    "stores x (chunkPtr ch) ?m c m'" "pal_laws x C g v m'"
    "\<forall>(k, i) \<in> pal_ids m'. (k, i) \<in> pal_ids m \<or> base_known x {b \<in> C. pal_feat g b k} (store_abs (dataWrite m')) i"
    unfolding keep(2) by blast
  obtain m'' where u: "count_unique (c, m') = Inr (c, m'')" "stored x h (chunkPtr ch) m c m''"
    "m'' = m'\<lparr>uniquechunkNum := uniquechunkNum m'', uniquechunkSize := uniquechunkSize m''\<rparr>"
    using count_unique_ok [OF s(2), of m h] m1 inv(2) by auto
  have "pal_view m'' = pal_view m'" "dataWrite m'' = dataWrite m'" by (subst u(3), simp add: pal_view_upd)+
  with pal_view_keep [OF this(1)] s(3,4) u(1,2) run s(1) show ?thesis by auto
qed

lemma pal_duplicate_ok:
  assumes "pal_laws x C g v m" "dedup_chunk_ok C ch" "known x (store_abs (dataWrite m)) k (chunkPtr ch)"
  shows "\<exists>ch' m'. pal_duplicate (int k) ch m = Inr (ch', m') \<and> chunkID ch' = k \<and> \<not> HeaderFlag ch' \<and> same_store m m' \<and> pal_laws x C g v m'
    \<and> (\<forall>(j, i) \<in> pal_ids m'. (j, i) \<in> pal_ids m \<or> base_known x {b \<in> C. pal_feat g b j} (store_abs (dataWrite m)) i)"
proof -
  let ?sfs = "pal_sfs g (chunkPtr ch)" and ?es = "store_abs (dataWrite m)"
  have ch: "chunk_wf ch" "chunkPtr ch \<in> C" using assms(2) by (simp_all add: dedup_chunk_ok_def)
  obtain m1 where f: "pal_features ch m = Inr (?sfs, m1)" "pal_view m1 = pal_view m" "m1 = m\<lparr>pal_table := pal_table m1\<rparr>"
    using pal_features_ok [OF ch(1) assms(1)] by blast
  have l1: "pal_laws x C g v m1" and i1: "pal_ids m1 = pal_ids m" using assms(1) pal_view_keep [OF f(2)] by simp_all
  have s1: "same_store m m1" by (subst f(3)) (simp add: same_store_def)
  obtain c where c: "Get_Chunk_MetaInfo (int k) (dataWrite m1) = Inr c" "core c = fst (?es ! k)" "chunkID c = k" "\<not> HeaderFlag c"
    using assms(3) s1 by (auto simp: Get_Chunk_MetaInfo_def chunk_at_def known_def store_abs_def entry_def same_store_def)
  have "\<exists>m2. (if deltaFlag c = NO_DELTA \<or> deltaFlag c = NO_LZ4 then pal_SF_Insert ?sfs (int (chunkID c)) m1 else Inr m1) = Inr m2
      \<and> same_store m m2 \<and> pal_laws x C g v m2
      \<and> (\<forall>(j, i) \<in> pal_ids m2. (j, i) \<in> pal_ids m \<or> base_known x {b \<in> C. pal_feat g b j} ?es i)"
  proof (cases "deltaFlag c = NO_DELTA \<or> deltaFlag c = NO_LZ4")
    case True
    let ?new = "{(sf, int k) | sf. sf \<in> set ?sfs}"
    have "deltaFlag (fst (?es ! k)) \<in> {NO_DELTA, NO_LZ4}" using True c(2) core_sel(1) [of c] by auto
    then have p: "plain_entry x k (?es ! k) (chunkPtr ch)" "k < length ?es" using assms(3) by (auto simp: known_def)
    then have new: "base_known x {b \<in> C. pal_feat g b j} ?es i" if "(j, i) \<in> ?new" for j i
      using that ch(2) unfolding base_known_def by (auto simp: pal_feat_def)
    obtain m2 where m2: "pal_SF_Insert ?sfs (int k) m1 = Inr m2"
      "m2 = m1\<lparr>SFindex1 := SFindex1 m2, SFindex2 := SFindex2 m2, SFindex3 := SFindex3 m2, SFNew := SFNew m2\<rparr>"
      "pal_ids m2 \<subseteq> pal_ids m1 \<union> ?new" "idx_ok (SFindex2 m2)" "idx_ok (SFindex3 m2)"
      using pal_SF_Insert_ok [OF pal_sfs_length, of g "chunkPtr ch" "int k" m1] l1 by (auto simp: pal_laws_def)
    have "same_store m m2" "pal_table m2 = pal_table m1" "pal_Version m2 = pal_Version m1"
      using s1 by (subst m2(2), simp add: same_store_def)+
    then show ?thesis using True m2(1,3-5) c(3) l1 new unfolding i1 by (auto simp: pal_laws_def)
  qed (use s1 l1 i1 in auto)
  then obtain m2 where m2: "(if deltaFlag c = NO_DELTA \<or> deltaFlag c = NO_LZ4 then pal_SF_Insert ?sfs (int (chunkID c)) m1 else Inr m1) = Inr m2"
    "same_store m m2" "pal_laws x C g v m2"
    "\<forall>(j, i) \<in> pal_ids m2. (j, i) \<in> pal_ids m \<or> base_known x {b \<in> C. pal_feat g b j} ?es i" by blast
  let ?m = "m2\<lparr>DedupReduct := DedupReduct m2 + of_nat (chunkSize c), pal_PrevDedupChunkid := int k\<rparr>"
  have "pal_duplicate (int k) ch m = Inr (c, ?m)" using f(1) c(1) m2(1) by (simp add: pal_duplicate_def)
  moreover have "same_store m ?m" using m2(2) by (simp add: same_store_def)
  ultimately show ?thesis using c(3,4) m2(3,4) pal_view_keep [OF pal_view_upd(6), where m = m2] by auto
qed

interpretation palantir: delta_method x C "pal_feat g" pal_ids "pal_laws x C g v" "pal_unique x ratio_less" pal_duplicate
  for x C g v ratio_less
proof unfold_locales
  fix m :: Palantir and ch h k
  assume inv: "delta_inv x C (pal_feat g) (pal_ids m) m" and l: "pal_laws x C g v m" and ch: "dedup_chunk_ok C ch"
  show "\<exists>ch' m'. pal_unique x ratio_less h ch m = Inr (ch', m') \<and> stored x h (chunkPtr ch) m ch' m' \<and> pal_laws x C g v m'
    \<and> (\<forall>(k, i) \<in> pal_ids m'. (k, i) \<in> pal_ids m \<or> base_known x {b \<in> C. pal_feat g b k} (store_abs (dataWrite m')) i)"
    by (rule pal_unique_ok [OF l inv ch])
  assume "known x (store_abs (dataWrite m)) k (chunkPtr ch)"
  from pal_duplicate_ok [OF l ch this]
  show "\<exists>ch' m'. pal_duplicate (int k) ch m = Inr (ch', m') \<and> chunkID ch' = k \<and> \<not> HeaderFlag ch' \<and> same_store m m' \<and> pal_laws x C g v m'
    \<and> (\<forall>(k, i) \<in> pal_ids m'. (k, i) \<in> pal_ids m \<or> base_known x {b \<in> C. pal_feat g b k} (store_abs (dataWrite m)) i)" .
qed (auto simp: pal_laws_def pal_view_keep(2) [OF pal_view_upd(5)] pal_view_keep(1) [OF pal_view_upd(5), unfolded pal_laws_def])

definition pal_inv :: "env \<Rightarrow> byte list set \<Rightarrow> FeatureGenerator \<Rightarrow> Palantir \<Rightarrow> bool" where
  "pal_inv x C g m \<longleftrightarrow> pal_laws x C g (pal_Version m) m \<and> delta_inv x C (pal_feat g) (pal_ids m) m"

lemma pal_step_ok:
  assumes "pal_inv x C g m" "dedup_chunk_ok C ch"
  shows "\<exists>m' i. pal_chunk x ratio_less m ch = Inr m' \<and> pal_inv x C g m' \<and> pal_Version m' = pal_Version m
    \<and> appends_recipe (dataWrite m) (dataWrite m') i \<and> good x (store_abs (dataWrite m')) i (chunkPtr ch)
    \<and> (\<forall>j b. good x (store_abs (dataWrite m)) j b \<longrightarrow> good x (store_abs (dataWrite m')) j b)"
proof -
  have "palantir.method_inv x C g (pal_Version m) m" using assms(1) by (simp add: palantir.method_inv_def pal_inv_def)
  from palantir.frame_ok [OF this assms(2), of ratio_less] obtain m' i where
    m': "pal_chunk x ratio_less m ch = Inr m'" "palantir.method_inv x C g (pal_Version m) m'"
    "appends_recipe (dataWrite m) (dataWrite m') i" "good x (store_abs (dataWrite m')) i (chunkPtr ch)"
    "\<forall>j b. good x (store_abs (dataWrite m)) j b \<longrightarrow> good x (store_abs (dataWrite m')) j b"
    unfolding pal_chunk_def by blast
  then have "pal_Version m' = pal_Version m" by (simp add: palantir.method_inv_def pal_laws_def)
  with m' show ?thesis by (auto simp: palantir.method_inv_def pal_inv_def)
qed

text \<open>As long as the threshold is not positive, cleaning an index removes nothing.\<close>

lemma clean_index_id: "idx_ok idx \<Longrightarrow> v \<le> 0 \<Longrightarrow> clean_index v idx = idx"
proof (rule mapping_eqI)
  fix k assume i: "idx_ok idx" "v \<le> 0"
  show "Mapping.lookup (clean_index v idx) k = Mapping.lookup idx k"
  proof (cases "Mapping.lookup idx k")
    case (Some es)
    then have "\<not> stale v es" using i by (fastforce simp: idx_ok_def stale_def split: list.splits)
    with Some show ?thesis by (simp add: clean_index_def lookup_map_values)
  qed (simp add: clean_index_def lookup_map_values)
qed

definition pal_left :: "nat \<Rightarrow> Palantir \<Rightarrow> bool" where
  "pal_left n m \<longleftrightarrow> pal_Version m + int n \<le> 3"

lemma pal_end_ok:
  assumes "pal_inv x C g m" "pal_left (Suc n) m"
  shows "pal_inv x C g (pal_end m)" "pal_left n (pal_end m)"
proof -
  have i: "idx_ok (SFindex2 m)" "idx_ok (SFindex3 m)" using assms(1) by (simp_all add: pal_inv_def pal_laws_def)
  have v: "pal_Version m - 5 \<le> 0" "pal_Version m - 2 \<le> 0" using assms(2) by (simp_all add: pal_left_def)
  have c: "SFindex2 (pal_end m) = SFindex2 m" "SFindex3 (pal_end m) = SFindex3 m"
    by (simp_all add: pal_end_def CleanIndex_def Let_def clean_index_id [OF i(1) v(1)] clean_index_id [OF i(2) v(2)])
  have s: "SFindex1 (pal_end m) = SFindex1 m" "pal_table (pal_end m) = pal_table m" "pal_Version (pal_end m) = pal_Version m + 1"
    "dataWrite (pal_end m) = dataWrite m" "uniquechunkNum (pal_end m) = uniquechunkNum m" "FPindex (pal_end m) = FPindex m"
    by (simp_all add: pal_end_def CleanIndex_def Let_def)
  show "pal_left n (pal_end m)" using assms(2) s(3) by (simp add: pal_left_def)
  show "pal_inv x C g (pal_end m)"
    using assms(1) c s by (simp add: pal_inv_def pal_laws_def delta_inv_def pal_ids_def)
qed

interpretation palantir_files: pipeline x "pal_chunk x ratio_less" "pal_inv x C g" dataWrite "dedup_chunk_ok C" "Palantir_backup x ratio_less"
    set_backup pal_end pal_left std_ready 16384 C
  for x ratio_less C g
proof unfold_locales
  fix m :: Palantir and ch
  assume "pal_inv x C g m" "dedup_chunk_ok C ch"
  then show "\<exists>m' i. pal_chunk x ratio_less m ch = Inr m' \<and> pal_inv x C g m'
      \<and> appends_recipe (dataWrite m) (dataWrite m') i \<and> good x (store_abs (dataWrite m')) i (chunkPtr ch)
      \<and> (\<forall>j b. good x (store_abs (dataWrite m)) j b \<longrightarrow> good x (store_abs (dataWrite m')) j b)"
    using pal_step_ok by blast
next
  fix m m' :: Palantir and ch n
  assume "pal_inv x C g m" "dedup_chunk_ok C ch" "pal_left n m" "pal_chunk x ratio_less m ch = Inr m'"
  then show "pal_left n m'" using pal_step_ok [of x C g m ch ratio_less] by (auto simp: pal_left_def)
next
  fix m :: Palantir and n
  assume "pal_inv x C g m" "pal_left (Suc n) m"
  then show "pal_inv x C g (pal_end m)" "pal_left n (pal_end m)" by (rule pal_end_ok)+
next
  fix m
  show "dataWrite (pal_end m) = dataWrite m" by (simp add: pal_end_def CleanIndex_def Let_def)
qed (auto simp: pal_inv_def pal_laws_def pal_left_def delta_inv_def Let_def pal_ids_def Palantir_backup_def Palantir_ProcessTrace_def
    set_backup_def am_SetFilename_def dw_SetFilename_def dedup_chunk_ok_def size_consts)

section \<open>Correctness\<close>

lemma pal_new_sel:
  assumes "Palantir_new dis dw = Inr m"
  shows "dataWrite m = dw" "pal_Version m = 0" "LZ4Ratio m = (2, 1)" "fg_wf (feature_generator (pal_table m))"
    "pal_inv x C (feature_generator (pal_table m)) m \<longleftrightarrow> lz4_law x \<and> hash_law x C
       \<and> xd3_law x C (pal_feat (feature_generator (pal_table m))) \<and> dw_inv dw \<and> store_abs dw = []"
proof -
  from assms obtain g where g: "FeatureGenerator_new dis k1_128RatioMask 12 3 = Inr g"
    "m = AbsMethod.extend (AbsMethod_new dw)
       (Palantir.fields (FeatureIndexTable_new g) (- 1) 0 0 0 (2, 1) Mapping.empty Mapping.empty Mapping.empty)"
    by (auto simp: Palantir_new_def rbind_eq_Inr_iff)
  show "dataWrite m = dw" "pal_Version m = 0" "LZ4Ratio m = (2, 1)"
    by (simp_all add: g(2) AbsMethod.defs Palantir.defs AbsMethod_new_def)
  show "fg_wf (feature_generator (pal_table m))"
    using FeatureGenerator_new_wf [OF g(1)] by (simp add: g(2) AbsMethod.defs Palantir.defs AbsMethod_new_def FeatureIndexTable_new_def)
  show "pal_inv x C (feature_generator (pal_table m)) m \<longleftrightarrow> lz4_law x \<and> hash_law x C
       \<and> xd3_law x C (pal_feat (feature_generator (pal_table m))) \<and> dw_inv dw \<and> store_abs dw = []"
    by (auto simp: g(2) AbsMethod.defs Palantir.defs AbsMethod_new_def pal_inv_def pal_laws_def delta_inv_def pal_ids_def entries_def idx_ok_def)
qed

text \<open>
  Backup and restore with Palantir are inverse for up to three backups: whatever the double-precision
  comparison of compression ratios decides, every file is restored exactly.  From the fourth backup on
  the indexes are cleaned, with the effect of the next property.
\<close>

theorem Palantir_restores:
  assumes "t \<in> {0, 1}" "Chunker_new t = Inr c" "n \<le> length names" "n \<le> 3" "distinct (take n names)"
    and "\<forall>name \<in> set (take n names). files name \<noteq> None" "\<forall>path. w path"
    and "lz4_law x" "hash_law x (file_blocks files (take n names))" "Palantir_new dis (dataWrite_new f w) = Inr m"
    and "xd3_law x (file_blocks files (take n names)) (pal_feat (feature_generator (pal_table m)))"
  shows "\<exists>c' m'. main_loop (Palantir_backup x ratio_less) files n names (c, m) = Some (Inr (c', m'))
    \<and> (\<forall>name \<in> set (take n names). \<exists>dw'. restoreFile x name (dataWrite m') = Inr dw'
         \<and> fs dw' (restore_path name) = files name)"
proof -
  have "pal_inv x (file_blocks files (take n names)) (feature_generator (pal_table m)) m"
    using pal_new_sel(5) [OF assms(10)] dataWrite_new_inv [of w f] assms(7-9,11) by simp
  moreover have "pal_left n m" using pal_new_sel(2) [OF assms(10)] assms(4) by (simp add: pal_left_def)
  ultimately show ?thesis
    using Chunker_new_std [OF assms(1,2)] assms(3,5-7) pal_new_sel(1) [OF assms(10)]
    by (intro palantir_files.main_restores) (auto simp: dataWrite_new_def Let_def file_blocks_def)
qed

theorem Palantir_restores_witness:
  "\<exists>m c' m' dw'. Palantir_new of_nat (dataWrite_new Map.empty (\<lambda>_. True)) = Inr m
    \<and> main_loop (Palantir_backup plain_env (\<lambda>a b r. True)) [''a'' \<mapsto> [1, 2]] 1 [''a''] (fastcdc0, m) = Some (Inr (c', m'))
    \<and> restoreFile plain_env ''a'' (dataWrite m') = Inr dw' \<and> fs dw' (restore_path ''a'') = Some [1, 2]"
proof -
  define F :: "string \<rightharpoonup> byte list" where "F = [''a'' \<mapsto> [1, 2]]"
  have F: "F ''a'' = Some [1, 2]" by (simp add: F_def)
  have h: "hash_law plain_env (file_blocks F (take 1 [''a'']))"
    by (simp add: file_blocks_def blocks_12 F) (auto simp: hash_law_def plain_env_def inj_on_def CHUNK_HASH_SIZE_def numeral_eq_Suc)
  have d: "xd3_law plain_env (file_blocks F (take 1 [''a''])) feat" for feat :: "byte list \<Rightarrow> u64 \<Rightarrow> bool"
    by (simp add: file_blocks_def blocks_12 F) (auto simp: xd3_law_def plain_env_def size_consts)
  obtain m where m: "Palantir_new of_nat (dataWrite_new Map.empty (\<lambda>_. True)) = Inr m"
    by (simp add: Palantir_new_def FeatureGenerator_new_def)
  have "Chunker_new 1 = Inr fastcdc0" by (simp add: Chunker_new_def ChunkTypeNum_of_int_def fastcdc0_def)
  from Palantir_restores [OF _ this _ _ _ _ _ plain_env_laws(1) h m d, of "\<lambda>a b r. True"]
  show ?thesis unfolding F_def [symmetric] using m by (simp add: F del: main_loop.simps One_nat_def)
qed

text \<open>
  C36: \<open>CleanIndex\<close> removes an old entry but leaves its key with an empty vector.  A later chunk that shares
  such a super-feature (and none that is found before) makes \<open>SF_Find\<close> take the first element of the
  empty vector, a read out of bounds.
\<close>

theorem Palantir_find_after_clean:
  assumes "Mapping.lookup (SFindex3 m) sf = Some [(i, w)]" "w < pal_Version m - 2" "sf \<in> set sfs"
    and "\<forall>k \<in> set sfs. Mapping.lookup (SFindex1 m) k = None \<and> Mapping.lookup (SFindex2 m) k = None
           \<and> (k \<noteq> sf \<longrightarrow> Mapping.lookup (SFindex3 m) k = None)"
  shows "pal_SF_Find sfs (pal_end m) = Inl OutOfBounds"
proof -
  let ?m = "pal_end m"
  have l: "Mapping.lookup (SFindex3 ?m) sf = Some []" "SFindex1 ?m = SFindex1 m"
    "\<And>k. Mapping.lookup (SFindex2 m) k = None \<Longrightarrow> Mapping.lookup (SFindex2 ?m) k = None"
    "\<And>k. Mapping.lookup (SFindex3 m) k = None \<Longrightarrow> Mapping.lookup (SFindex3 ?m) k = None"
    using assms(1,2) by (simp_all add: pal_end_def CleanIndex_def Let_def clean_index_def lookup_map_values stale_def)
  have 1: "pal_find1 (SFindex1 ?m) ks = None" if "set ks \<subseteq> set sfs" for ks
    using that assms(4) l(2) by (induction ks) auto
  have 2: "pal_find2 (SFindex2 ?m) ks = Inr None" if "set ks \<subseteq> set sfs" for ks
    using that assms(4) l(3) by (induction ks) auto
  have 3: "pal_find2 (SFindex3 ?m) ks = Inl OutOfBounds" if "set ks \<subseteq> set sfs" "sf \<in> set ks" for ks
    using that
  proof (induction ks)
    case (Cons k ks)
    then show ?case using assms(4) l(1) l(4) [of k] by (cases "k = sf") auto
  qed simp
  show ?thesis using 1 [of sfs] 2 [of sfs] 3 [of sfs] assms(3) by (simp add: pal_SF_Find_def)
qed

theorem Palantir_find_after_clean_witness:
  "\<exists>m. Palantir_new of_nat (dataWrite_new Map.empty (\<lambda>_. True)) = Inr m
    \<and> pal_SF_Find [5] (pal_end (m\<lparr>pal_Version := 3, SFindex3 := Mapping.update 5 [(0, 0)] Mapping.empty\<rparr>)) = Inl OutOfBounds"
proof -
  obtain m where m: "Palantir_new of_nat (dataWrite_new Map.empty (\<lambda>_. True)) = Inr m"
    by (simp add: Palantir_new_def FeatureGenerator_new_def)
  then have "SFindex1 m = Mapping.empty" "SFindex2 m = Mapping.empty"
    by (auto simp: Palantir_new_def rbind_eq_Inr_iff AbsMethod.defs Palantir.defs AbsMethod_new_def)
  with m Palantir_find_after_clean [of "m\<lparr>pal_Version := 3, SFindex3 := Mapping.update 5 [(0, 0)] Mapping.empty\<rparr>" 5 0 0 "[5]"]
  show ?thesis by auto
qed

text \<open>
  What the method relies on in double arithmetic: a quotient below 1 stays below one that is at least 1.
\<close>

definition ratio_law :: "ratio_test \<Rightarrow> bool" where
  "ratio_law ratio_less \<longleftrightarrow> (\<forall>a b p q. a < b \<longrightarrow> 0 < q \<longrightarrow> q \<le> p \<longrightarrow> ratio_less a b (p, q))"

lemma store_base_sizes:
  assumes "lz4_law x" "chunk_wf ch" "chunkSize ch \<le> CONTAINER_MAX_SIZE" "store_base x ch m = Inr (ch', m')"
  shows "0 < saveSize ch'" "saveSize ch' \<le> chunkSize ch" "chunkSize ch' = chunkSize ch"
    "basechunkSize m' = basechunkSize m + of_nat (saveSize ch')" "basechunkOriSize m' = basechunkOriSize m"
proof -
  obtain f n buf where l: "lz4_chunk x ch = Inr (ch\<lparr>deltaFlag := f, saveSize := n\<rparr>, buf)" using lz4_chunk_ok [OF assms(1-3)] by blast
  have n: "0 < n \<and> n \<le> chunkSize ch"
  proof (cases "lz4_compress x (chunkPtr ch) (chunkSize ch)")
    case None
    with l assms(2) have "ch\<lparr>deltaFlag := NO_LZ4, saveSize := chunkSize ch\<rparr> = ch\<lparr>deltaFlag := f, saveSize := n\<rparr>"
      by (simp add: lz4_chunk_def chunk_wf_def)
    from arg_cong [OF this, of saveSize] assms(2) show ?thesis by (simp add: chunk_wf_def)
  next
    case (Some c)
    with assms(1) have c: "c \<noteq> []" "length c \<le> chunkSize ch" by (auto simp: lz4_law_def)
    with l Some assms(2,3) have "ch\<lparr>deltaFlag := NO_DELTA, saveSize := length c\<rparr> = ch\<lparr>deltaFlag := f, saveSize := n\<rparr> \<and> c = buf"
      by (auto simp: lz4_chunk_def chunk_wf_def)
    from arg_cong [OF conjunct1 [OF this], of saveSize] c show ?thesis by auto
  qed
  have "\<exists>dw. ch' = ch\<lparr>deltaFlag := f, saveSize := n, basechunkID := - 1\<rparr> \<and> m' = m\<lparr>dataWrite := dw, basechunkNum := Suc (basechunkNum m),
      basechunkSize := basechunkSize m + of_nat n, LocalReduct := LocalReduct m + (of_nat (chunkSize ch) - of_nat n)\<rparr>"
    using assms(4) l by (auto simp: store_base_def Let_def rbind_eq_Inr_iff)
  with n show "0 < saveSize ch'" "saveSize ch' \<le> chunkSize ch" "chunkSize ch' = chunkSize ch"
    "basechunkSize m' = basechunkSize m + of_nat (saveSize ch')" "basechunkOriSize m' = basechunkOriSize m" by auto
qed

definition pal_ratio_ok :: "Palantir \<Rightarrow> bool" where
  "pal_ratio_ok m \<longleftrightarrow> basechunkSize m \<le> basechunkOriSize m \<and> 0 < snd (LZ4Ratio m) \<and> snd (LZ4Ratio m) \<le> fst (LZ4Ratio m)"


lemma ratio_law_rat: "ratio_law (\<lambda>a b (p, q). a * unat q < b * unat p)"
proof -
  have "a * unat q < b * unat p" if "a < b" "0 < q" "q \<le> p" for a b and p q :: u64
  proof -
    have "0 < unat q" "unat q \<le> unat p" using that(2,3) by (simp_all add: unat_gt_0 word_le_nat_alt)
    with that(1) have "a * unat q < b * unat q" by simp
    also have "b * unat q \<le> b * unat p" using \<open>unat q \<le> unat p\<close> by simp
    finally show ?thesis .
  qed
  then show ?thesis by (simp add: ratio_law_def)
qed


end
