(* ===== verification/Locality.thy ===== *)
theory Locality
  imports Delta
begin

text \<open>
  The locality method, \<open>src/method/Locality.cc\<close>: from the second backup on, a unique chunk is stored as a
  delta of the chunk that follows, in the order of the store, the last duplicate.  The delta is encoded
  against the LZ4 output buffer instead of that chunk, so that it does not decode.

  \<open>lz4Buf\<close> is the content of \<open>lz4ChunkBuffer\<close>, which \<open>malloc\<close> leaves indeterminate at first.  When LZ4 fails
  it may have written a part of its output: \<open>leave src buf\<close>, a parameter, is what the buffer then holds.
\<close>

section \<open>The method\<close>

record LocalDedup = AbsMethod +
  plchunk :: PLChunk
  DedupGap :: int
  loc_Version :: int
  localError :: int
  localFlag :: bool
  localLogicalSize :: u64
  localUniqueSize :: u64
  localPrechunkSize :: u64
  bugCount :: u64
  lz4Buf :: "byte list"

definition LocalDedup_new :: "byte list \<Rightarrow> dataWrite \<Rightarrow> LocalDedup" where
  "LocalDedup_new buf dw =
     AbsMethod.extend (AbsMethod_new dw)
       (LocalDedup.fields \<lparr>pl_chunkId = - 1, pl_chunkType = DUP\<rparr> 0 0 0 True 0 0 0 0 buf)"

text \<open>\<open>plchunk.chunkId + DedupGap\<close>, an unsigned 64-bit sum; passed to the store it becomes an \<open>int\<close>.\<close>

definition local_id :: "LocalDedup \<Rightarrow> u64" where
  "local_id m = pl_chunkId (plchunk m) + word_of_int (DedupGap m)"

definition int_of_u64 :: "u64 \<Rightarrow> int" where
  "int_of_u64 w = sint (ucast w :: 32 word)"

definition LOCAL_MAX_ERROR :: int where "LOCAL_MAX_ERROR = 2"

type_synonym leave = "byte list \<Rightarrow> byte list \<Rightarrow> byte list"

definition loc_base :: "env \<Rightarrow> leave \<Rightarrow> Chunk_t \<Rightarrow> LocalDedup \<Rightarrow> (Chunk_t \<times> LocalDedup) result" where
  "loc_base x leave ch m =
     rbind (store_base x ch m) (\<lambda>(ch', m).
       let src = take (chunkSize ch) (chunkPtr ch);
           buf = (case lz4_compress x src (chunkSize ch) of Some c \<Rightarrow> overwrite 0 c (lz4Buf m) | None \<Rightarrow> leave src (lz4Buf m))
       in Inr (ch', m\<lparr>lz4Buf := buf\<rparr>))"

definition loc_delta :: "env \<Rightarrow> leave \<Rightarrow> Chunk_t \<Rightarrow> LocalDedup \<Rightarrow> (Chunk_t \<times> LocalDedup) result" where
  "loc_delta x leave ch m =
     (let i = int_of_u64 (local_id m) in
      rbind (Get_Chunk_MetaInfo i (dataWrite m)) (\<lambda>info.
      rbind (Get_Chunk_Info x (if deltaFlag info = LOCAL_DELTA then basechunkID info else i) (dataWrite m)) (\<lambda>(b, dw).
      rbind (read_ptr (chunkSize ch) (chunkPtr ch)) (\<lambda>target.
      rbind (read_ptr (chunkSize b) (lz4Buf m)) (\<lambda>ref.
      rbind (xd3_encode x target ref) (\<lambda>d.
        let m = m\<lparr>dataWrite := dw\<rparr> in
        if length d > chunkSize ch then
          rbind (loc_base x leave ch (m\<lparr>bugCount := bugCount m + 1\<rparr>)) (\<lambda>(ch, m).
            let n = localError m + 1
            in Inr (ch, m\<lparr>localError := n, localFlag := (if n > LOCAL_MAX_ERROR then False else localFlag m)\<rparr>))
        else
          rbind (put_delta LOCAL_DELTA i d ch m) (\<lambda>(ch, m).
            Inr (ch, m\<lparr>localUniqueSize := localUniqueSize m + of_nat (saveSize ch),
              localLogicalSize := localLogicalSize m + of_nat (chunkSize ch),
              localchunkSize := localchunkSize m + of_nat (saveSize ch),
              localPrechunkSize := localPrechunkSize m + of_nat (chunkSize ch), localError := 0\<rparr>))))))))"

definition loc_unique :: "env \<Rightarrow> leave \<Rightarrow> byte list \<Rightarrow> Chunk_t \<Rightarrow> LocalDedup \<Rightarrow> (Chunk_t \<times> LocalDedup) result" where
  "loc_unique x leave h ch m =
     (let ch = ch\<lparr>chunkID := uniquechunkNum m, deltaFlag := NO_DELTA\<rparr>;
          m = FP_Insert h (int (chunkID ch)) m;
          m = m\<lparr>DedupGap := DedupGap m + 1\<rparr> in
      rbind (if local_id m < of_nat (chunkID ch) - 1 \<and> loc_Version m > 0 then loc_delta x leave ch m else loc_base x leave ch m)
        count_unique)"

definition loc_duplicate :: "int \<Rightarrow> Chunk_t \<Rightarrow> LocalDedup \<Rightarrow> (Chunk_t \<times> LocalDedup) result" where
  "loc_duplicate i ch m =
     rbind (dedup_duplicate i m) (\<lambda>(ch, m).
       let pl = (if HeaderFlag ch then plchunk m else (plchunk m)\<lparr>pl_chunkId := word_of_int i\<rparr>)
       in Inr (ch, m\<lparr>localFlag := True, plchunk := pl\<lparr>pl_chunkType := DUP\<rparr>, DedupGap := 0\<rparr>))"

definition loc_chunk :: "env \<Rightarrow> leave \<Rightarrow> LocalDedup \<Rightarrow> Chunk_t \<Rightarrow> LocalDedup result" where
  "loc_chunk x leave = process_chunk x (loc_unique x leave) loc_duplicate"

definition loc_end :: "LocalDedup \<Rightarrow> LocalDedup" where
  "loc_end m = m\<lparr>loc_Version := loc_Version m + 1, ads_Version := Suc (ads_Version m)\<rparr>"

definition LocalDedup_ProcessTrace :: "env \<Rightarrow> leave \<Rightarrow> Chunk_t list \<Rightarrow> LocalDedup \<Rightarrow> LocalDedup result" where
  "LocalDedup_ProcessTrace x leave chunks m = rbind (rfold (loc_chunk x leave) m chunks) (\<lambda>m. Inr (loc_end m))"

section \<open>The first backup\<close>

definition loc_laws :: "env \<Rightarrow> byte list set \<Rightarrow> LocalDedup \<Rightarrow> bool" where
  "loc_laws x C m \<longleftrightarrow> lz4_law x \<and> hash_law x C \<and> loc_Version m = 0"

lemma loc_base_ok:
  assumes "lz4_law x" "chunk_wf ch" "chunkSize ch \<le> CONTAINER_MAX_SIZE" "\<not> HeaderFlag ch"
    and "dw_inv (dataWrite m)" "chunkID ch = length (store_abs (dataWrite m))"
  shows "\<exists>ch' m'. loc_base x leave ch m = Inr (ch', m') \<and> stores x (chunkPtr ch) m ch' m' \<and> loc_Version m' = loc_Version m"
proof -
  obtain ch' m' where b: "store_base x ch m = Inr (ch', m')" "appended x (chunkPtr ch) m ch' m'"
    using store_base_ok [OF assms] by blast
  have v: "loc_Version m' = loc_Version m"
    using b(1) by (auto simp: store_base_def Let_def rbind_eq_Inr_iff)
  show ?thesis using b v by (auto simp: loc_base_def Let_def appended_def stores_def)
qed

lemma loc_unique_ok:
  assumes "loc_laws x C m" "delta_inv x C feat {} m" "dedup_chunk_ok C ch"
  shows "\<exists>ch' m'. loc_unique x leave h ch m = Inr (ch', m') \<and> stored x h (chunkPtr ch) m ch' m' \<and> loc_laws x C m'"
proof -
  let ?ch = "ch\<lparr>chunkID := uniquechunkNum m, deltaFlag := NO_DELTA\<rparr>" and ?m = "FP_Insert h (int (uniquechunkNum m)) m"
  let ?m' = "?m\<lparr>DedupGap := DedupGap m + 1\<rparr>"
  have v: "lz4_law x" "hash_law x C" "loc_Version m = 0" using assms(1) by (simp_all add: loc_laws_def)
  have i: "dw_inv (dataWrite m)" "uniquechunkNum m = length (store_abs (dataWrite m))"
    using assms(2) by (simp_all add: delta_inv_def Let_def)
  have "chunk_wf ?ch" "chunkSize ?ch \<le> CONTAINER_MAX_SIZE" "\<not> HeaderFlag ?ch" "dw_inv (dataWrite ?m')"
    "chunkID ?ch = length (store_abs (dataWrite ?m'))"
    using assms(3) i by (simp_all add: dedup_chunk_ok_def chunk_wf_def FP_Insert_def)
  from loc_base_ok [OF v(1) this, of leave] obtain c m1 where
    b: "loc_base x leave ?ch ?m' = Inr (c, m1)" "stores x (chunkPtr ch) ?m' c m1" "loc_Version m1 = 0"
    using v(3) by (auto simp: FP_Insert_def)
  from count_unique_ok [OF b(2), of m h] i obtain m2 where
    c: "count_unique (c, m1) = Inr (c, m2)" "stored x h (chunkPtr ch) m c m2"
      "m2 = m1\<lparr>uniquechunkNum := uniquechunkNum m2, uniquechunkSize := uniquechunkSize m2\<rparr>"
    by (auto simp: FP_Insert_def)
  have "loc_Version m2 = 0" by (subst c(3)) (simp add: b(3))
  with b c v show ?thesis by (auto simp: loc_unique_def Let_def loc_laws_def FP_Insert_def)
qed

interpretation loc: delta_method x C "\<lambda>b (k :: unit). True" "\<lambda>m. {}" "loc_laws x C" "loc_unique x leave" loc_duplicate
  for x C leave
proof unfold_locales
  fix m :: LocalDedup and ch h k
  assume inv: "delta_inv x C (\<lambda>b (k :: unit). True) {} m" and l: "loc_laws x C m" and ch: "dedup_chunk_ok C ch"
  show "\<exists>ch' m'. loc_unique x leave h ch m = Inr (ch', m') \<and> stored x h (chunkPtr ch) m ch' m' \<and> loc_laws x C m'
    \<and> (\<forall>(k, i) \<in> {}. (k, i) \<in> {} \<or> base_known x {b \<in> C. True} (store_abs (dataWrite m')) i)"
    using loc_unique_ok [OF l inv ch, of leave h] by blast
  assume "known x (store_abs (dataWrite m)) k (chunkPtr ch)"
  from duplicate_same_store [OF this] obtain c m' where
    d: "dedup_duplicate (int k) m = Inr (c, m')" "chunkID c = k" "\<not> HeaderFlag c" "same_store m m'" "m' = m\<lparr>DedupReduct := DedupReduct m'\<rparr>"
    by blast
  have "loc_Version m' = loc_Version m" by (subst d(5)) simp
  with d l show "\<exists>ch' m'. loc_duplicate (int k) ch m = Inr (ch', m') \<and> chunkID ch' = k \<and> \<not> HeaderFlag ch' \<and> same_store m m'
    \<and> loc_laws x C m' \<and> (\<forall>(k, i) \<in> {}. (k, i) \<in> {} \<or> base_known x {b \<in> C. True} (store_abs (dataWrite m)) i)"
    by (auto simp: loc_duplicate_def Let_def same_store_def loc_laws_def)
qed (auto simp: loc_laws_def note_recipe_def)

text \<open>
  C38: The first backup with the locality method, which stores no deltas, is restored exactly, whatever the
  LZ4 buffer holds.
\<close>

theorem Locality_first_backup:
  assumes "lz4_law x" "hash_law x C" "\<forall>ch \<in> set chunks. dedup_chunk_ok C ch" "\<forall>path. w path"
  shows "\<exists>m' dw'. LocalDedup_ProcessTrace x leave chunks (set_backup name (LocalDedup_new buf (dataWrite_new f w))) = Inr m'
    \<and> restoreFile x name (dataWrite m') = Inr dw' \<and> fs dw' (restore_path name) = Some (concat (map chunkPtr chunks))"
proof -
  let ?dw = "dataWrite_new f w" and ?m = "set_backup name (LocalDedup_new buf (dataWrite_new f w))"
  have m: "dataWrite ?m = dw_SetFilename name ?dw" "uniquechunkNum ?m = 0" "FPindex ?m = Map.empty" "loc_Version ?m = 0"
    by (simp_all add: set_backup_def am_SetFilename_def LocalDedup_new_def AbsMethod.defs LocalDedup.defs AbsMethod_new_def)
  have i: "loc.method_inv x C ?m"
    using dataWrite_new_inv [of w f] assms by (simp add: loc.method_inv_def loc_laws_def delta_inv_def m dw_SetFilename_def)
  have r: "RecipeMap (dataWrite ?m) (filename (dataWrite ?m)) = []" "filename (dataWrite ?m) = name" "writable (dataWrite ?m) = w"
    unfolding m(1) by (simp_all add: dw_SetFilename_def dataWrite_new_def Let_def)
  obtain m' where m': "rfold (loc_chunk x leave) ?m chunks = Inr m'" "loc.method_inv x C m'" "writable (dataWrite m') = w"
    "holds_backup x (dataWrite m') name (concat (map chunkPtr chunks))"
    using loc.run_holds [OF i _ r(1), of chunks leave] assms(3) r(2,3) by (auto simp: list_all_iff loc_chunk_def)
  have "dw_inv (dataWrite m')" using m'(2) by (simp add: loc.method_inv_def delta_inv_def Let_def)
  from holds_backup_restores [OF this m'(4)] m'(1,3) assms(4) show ?thesis
    by (auto simp: LocalDedup_ProcessTrace_def loc_end_def)
qed

theorem Locality_first_backup_witness:
  "\<exists>m' dw'. LocalDedup_ProcessTrace plain_env (\<lambda>_ buf. buf) [new_Chunk [1, 2] 2 False, new_Chunk [1, 2] 2 False]
      (set_backup ''a'' (LocalDedup_new [] (dataWrite_new Map.empty (\<lambda>_. True)))) = Inr m'
    \<and> restoreFile plain_env ''a'' (dataWrite m') = Inr dw' \<and> fs dw' (restore_path ''a'') = Some [1, 2, 1, 2]"
proof -
  have "hash_law plain_env {[1, 2]}" by (simp add: hash_law_def plain_env_def CHUNK_HASH_SIZE_def)
  moreover have "\<forall>ch \<in> set [new_Chunk [1, 2] 2 False, new_Chunk [1, 2] 2 False]. dedup_chunk_ok {[1, 2]} ch"
    by (simp add: dedup_chunk_ok_def chunk_wf_def new_Chunk_def size_consts)
  ultimately show ?thesis
    using Locality_first_backup [OF plain_env_laws(1), of "{[1, 2]}" _ "\<lambda>_. True" "\<lambda>_ buf. buf" "''a''" "[]" Map.empty]
    by (fastforce simp: new_Chunk_def)
qed

section \<open>Later backups\<close>

text \<open>A first backup without chunks leaves the store empty, and then the first chunk of the next one reads past it.\<close>

lemma loc_after_empty:
  assumes "uniquechunkNum m = 0" "chunklist (dataWrite m) = []" "loc_Version m > 0" "local_id m = - 1"
  shows "loc_unique x leave h ch m = Inl OutOfBounds"
proof -
  have "local_id (m\<lparr>FPindex := i, DedupGap := DedupGap m + 1\<rparr>) = 0" for i
    using assms(4) by (simp add: local_id_def algebra_simps)
  moreover have "0 < (- 1 :: u64)" by (simp add: word_gt_0)
  ultimately show ?thesis using assms(1-3)
    by (simp add: loc_unique_def loc_delta_def Let_def FP_Insert_def int_of_u64_def Get_Chunk_MetaInfo_def chunk_at_def)
qed

text \<open>A delta enters the store whatever it decodes to.\<close>

lemma put_delta_raw:
  assumes "chunk_wf ch" "chunkSize ch \<le> CONTAINER_MAX_SIZE" "d \<noteq> []" "length d \<le> chunkSize ch" "dw_inv (dataWrite m)" "flag \<noteq> NO_DELTA"
  shows "\<exists>c m'. put_delta flag base d ch m = Inr (c, m') \<and> dw_inv (dataWrite m')
    \<and> store_abs (dataWrite m') = store_abs (dataWrite m) @ [(core c, d)]
    \<and> c = ch\<lparr>saveSize := length d, deltaFlag := flag, basechunkID := base, chunkPtr := overwrite 0 d (chunkPtr ch)\<rparr>"
proof -
  define c where "c = ch\<lparr>saveSize := length d, deltaFlag := flag, basechunkID := base, chunkPtr := overwrite 0 d (chunkPtr ch)\<rparr>"
  have len: "length (chunkPtr ch) = chunkSize ch" using assms(1) by (simp add: chunk_wf_def)
  obtain m1 where m1: "StatsDelta c m = Inr m1" "dataWrite m1 = dataWrite m"
    using StatsDelta_ok [of c m] assms(3) by (auto simp: c_def)
  have "saveSize c = length d" "take (length d) (chunkPtr c) = d" "length d \<le> length (chunkPtr c)"
    using assms(4) len by (simp_all add: c_def overwrite_def)
  then obtain dw where dw: "Chunk_Insert c (dataWrite m) = Inr dw" "dw_inv dw" "store_abs dw = store_abs (dataWrite m) @ [(core c, d)]"
    using store.raw_ok [OF assms(5), of c] assms(2,4,6) by (auto simp: c_def)
  show ?thesis
    using assms(4) len m1 dw by (simp add: put_delta_def c_def [symmetric])
qed

text \<open>
  C39: From the second backup on, a unique chunk whose predecessor was found in the store is stored as a
  delta \<open>d\<close> against the content of the LZ4 buffer, and restored by applying \<open>d\<close> to the chunk \<open>k\<close> behind that
  predecessor: the restored bytes are those \<open>d\<close> decodes to with a base it was not encoded against.
\<close>

theorem Locality_wrong_base:
  assumes "chunk_wf ch" "chunkSize ch \<le> CONTAINER_MAX_SIZE" "dw_inv (dataWrite m)" "uniquechunkNum m = length (store_abs (dataWrite m))"
    and "loc_Version m > 0" "local_id m + 1 = of_nat k" "k + 1 < uniquechunkNum m" "uniquechunkNum m < 2 ^ 31"
    and "plain_entry x k (store_abs (dataWrite m) ! k) b" "length b \<le> length (lz4Buf m)"
    and "xd3_encode_memory x (chunkPtr ch) (take (length b) (lz4Buf m)) (CONTAINER_MAX_SIZE * 2) = Some d"
    and "d \<noteq> []" "length d \<le> chunkSize ch" "xd3_decode_memory x d b (CONTAINER_MAX_SIZE * 2) = Some t" "chunkSize ch \<le> length t"
  shows "\<exists>c m' c' dw'. loc_unique x leave h ch m = Inr (c, m') \<and> chunkID c = uniquechunkNum m
    \<and> restore_chunk x (int (chunkID c)) (dataWrite m') = Inr (take (chunkSize ch) t, c', dw')"
proof -
  let ?es = "store_abs (dataWrite m)"
  let ?m = "(FP_Insert h (int (uniquechunkNum m)) m)\<lparr>DedupGap := DedupGap m + 1\<rparr>" and ?ch = "ch\<lparr>chunkID := uniquechunkNum m, deltaFlag := NO_DELTA\<rparr>"
  have id: "local_id ?m = of_nat k" using assms(6) by (simp add: local_id_def FP_Insert_def algebra_simps)
  have less: "local_id ?m < of_nat (uniquechunkNum m) - 1"
  proof -
    have n: "unat (of_nat (uniquechunkNum m) :: u64) = uniquechunkNum m" "unat (of_nat k :: u64) = k"
      using assms(7,8) by (simp_all add: unat_of_nat)
    then have "unat (of_nat (uniquechunkNum m) - 1 :: u64) = uniquechunkNum m - 1"
      using assms(7) unat_minus_one [of "of_nat (uniquechunkNum m) :: u64"] by (metis not_less0 unat_0)
    then show ?thesis using assms(7) n(2) unfolding id by (simp add: word_less_nat_alt)
  qed
  have i: "int_of_u64 (of_nat k) = int k"
    using assms(7,8) by (simp add: int_of_u64_def ucast_eq uint_nat unat_of_nat sint_uint signed_take_bit_int_eq_self)
  have k: "k < length ?es" using assms(4,7) by simp
  obtain bk bp where e: "?es ! k = (bk, bp)" by (cases "?es ! k")
  with assms(9) have bk: "decode x bk bp = Inr b" "chunkSize bk = length b" "deltaFlag bk \<in> {NO_DELTA, NO_LZ4}" by (simp_all add: plain_entry_def)
  obtain bch dw where g: "Get_Chunk_Info x (int k) (dataWrite m) = Inr (bch, dw)" "core bch = bk" "dw_inv dw" "store_abs dw = ?es"
    using store.get_ok [OF assms(3) k, of x b] bk(1) e by auto
  have bs: "chunkSize bch = length b" using core_sel(2) [of bch] g(2) bk(2) by simp
  obtain info where info: "Get_Chunk_MetaInfo (int k) (dataWrite m) = Inr info" "core info = bk"
    using k e by (auto simp: Get_Chunk_MetaInfo_def chunk_at_def store_abs_def entry_def)
  then have f: "deltaFlag info \<noteq> LOCAL_DELTA" using core_sel [of info] bk(3) by auto
  define m1 where "m1 = ?m\<lparr>dataWrite := dw\<rparr>"
  have ch: "chunk_wf ?ch" "chunkSize ?ch \<le> CONTAINER_MAX_SIZE" "length d \<le> chunkSize ?ch" "dw_inv (dataWrite m1)"
    using assms(1,2,13) g(3) by (simp_all add: chunk_wf_def m1_def)
  from put_delta_raw [OF ch(1,2) assms(12) ch(3,4), of LOCAL_DELTA "int k"] obtain c m2 where
    p: "put_delta LOCAL_DELTA (int k) d ?ch m1 = Inr (c, m2)" "dw_inv (dataWrite m2)" "store_abs (dataWrite m2) = ?es @ [(core c, d)]"
      "c = ?ch\<lparr>saveSize := length d, deltaFlag := LOCAL_DELTA, basechunkID := int k, chunkPtr := overwrite 0 d (chunkPtr ?ch)\<rparr>"
    using g(4) by (auto simp: m1_def)
  have c: "chunkID c = length ?es" "chunkSize c = chunkSize ch" "saveSize c = length d" "deltaFlag c = LOCAL_DELTA" "basechunkID c = int k"
    using assms(4) by (simp_all add: p(4))
  obtain m' where u: "loc_unique x leave h ch m = Inr (c, m')" "dataWrite m' = dataWrite m2"
  proof -
    have t: "read_ptr (chunkSize ch) (chunkPtr ch) = Inr (chunkPtr ch)" "read_ptr (length b) (lz4Buf m) = Inr (take (length b) (lz4Buf m))"
      "xd3_encode x (chunkPtr ch) (take (length b) (lz4Buf m)) = Inr d"
      using assms(1,10,11) by (simp_all add: read_ptr_def chunk_wf_def xd3_encode_def)
    have "\<exists>m3. loc_delta x leave ?ch ?m = Inr (c, m3) \<and> dataWrite m3 = dataWrite m2"
      using info(1) f g(1) bs t p(1) assms(13) unfolding loc_delta_def id i
      by (simp add: Let_def FP_Insert_def m1_def)
    then obtain m3 where "loc_delta x leave ?ch ?m = Inr (c, m3)" "dataWrite m3 = dataWrite m2" by blast
    with less assms(5) that show ?thesis by (simp add: loc_unique_def Let_def count_unique_def FP_Insert_def)
  qed
  have "content x (store_abs (dataWrite m2)) (length ?es) = Inr (take (chunkSize ch) t)"
    using c k e bk assms(14,15) by (simp add: p(3) content_def nth_append read_ptr_def xd3_decode_def)
  moreover have "base_ok (store_abs (dataWrite m2)) (length ?es)"
    using c k by (simp add: p(3) base_ok_def nth_append)
  ultimately show ?thesis
    using restore_chunk_ok [OF p(2)] u c(1) assms(4) by fastforce
qed

text \<open>
  A lawful delta encoder under which the loss is visible: the delta adds the sum of the base to each byte,
  the decoder subtracts it.
\<close>

definition sum_env :: env where
  "sum_env = plain_env\<lparr>xd3_encode_memory := (\<lambda>t b n. Some (map (\<lambda>y. y + sum_list b) t)),
     xd3_decode_memory := (\<lambda>d b n. Some (map (\<lambda>y. y - sum_list b) d))\<rparr>"

lemma sum_env_law: "xd3_law sum_env {b. b \<noteq> []} (\<lambda>b (k :: unit). True)"
  by (simp add: xd3_law_def sum_env_def o_def)

theorem Locality_wrong_base_witness:
  "xd3_law sum_env {b. b \<noteq> []} (\<lambda>b (k :: unit). True)
   \<and> (\<exists>m c m' c' dw'. loc_unique sum_env (\<lambda>_ buf. buf) [] (new_Chunk [5, 6] 2 False) m = Inr (c, m')
    \<and> restore_chunk sum_env (int (chunkID c)) (dataWrite m') = Inr ([2, 3], c', dw'))"
proof -
  let ?ch = "(new_Chunk [7] 1 False)\<lparr>saveSize := 1, deltaFlag := NO_LZ4, chunkID := 1\<rparr>"
  obtain dw where dw: "dw_inv dw" "store_abs dw = store_abs one_chunk_store @ [(core ?ch, [7])]"
    using store.raw_ok [OF one_chunk_store(1), of ?ch] by (auto simp: new_Chunk_def size_consts)
  define m where "m = (LocalDedup_new [0, 0] dw)\<lparr>uniquechunkNum := 2, loc_Version := 1\<rparr>"
  have m: "dataWrite m = dw" "uniquechunkNum m = 2" "loc_Version m = 1" "lz4Buf m = [0, 0]" "local_id m = - 1"
    by (simp_all add: m_def LocalDedup_new_def AbsMethod.defs LocalDedup.defs AbsMethod_new_def local_id_def)
  have "decode sum_env (fst (store_abs one_chunk_store ! 0)) (snd (store_abs one_chunk_store ! 0)) = Inr [1, 2]"
    using one_chunk_decode by (simp add: one_chunk_store(2) decode_def sum_env_def)
  then have e: "plain_entry sum_env 0 (store_abs dw ! 0) [1, 2]"
    by (simp add: plain_entry_def dw(2) one_chunk_store(2) new_Chunk_def)
  have x: "xd3_encode_memory sum_env [5, 6] [0, 0] (CONTAINER_MAX_SIZE * 2) = Some [5, 6]"
    "xd3_decode_memory sum_env [5, 6] [1, 2] (CONTAINER_MAX_SIZE * 2) = Some [2, 3]"
    by (simp_all add: sum_env_def)
  have ch: "chunk_wf (new_Chunk [5, 6] 2 False)" "chunkSize (new_Chunk [5, 6] 2 False) = 2" "chunkPtr (new_Chunk [5, 6] 2 False) = [5, 6]"
    by (simp_all add: chunk_wf_def new_Chunk_def)
  from Locality_wrong_base [OF ch(1), of m 0 sum_env "[1, 2]" "[5, 6]" "[2, 3]" "\<lambda>_ buf. buf" "[]"]
  have "\<exists>c m' c' dw'. loc_unique sum_env (\<lambda>_ buf. buf) [] (new_Chunk [5, 6] 2 False) m = Inr (c, m') \<and> chunkID c = uniquechunkNum m
    \<and> restore_chunk sum_env (int (chunkID c)) (dataWrite m') = Inr ([2, 3], c', dw')"
    using e x m ch(2,3) dw one_chunk_store(2) by (auto simp: size_consts)
  with sum_env_law show ?thesis by blast
qed

end
