(* ===== verification/Driver.thy ===== *)
theory Driver
  imports Tar LZ4 Finesse Odess NTrans Palantir Locality
begin

text \<open>
  The two programs \<open>src/app/main.cc\<close> and \<open>src/app/delta.cc\<close>: the command line, the directory of the backups, the choice of
  chunker and method, the loop over the backups (theory \<open>Backup\<close>) and what follows it.  The virtual calls
  on \<open>absMethodObj\<close> are functions on a sum of the methods' states.  Files are read from \<open>files\<close>, the containers are
  written to the file system of the store: the two directories are taken to be disjoint.
\<close>

section \<open>The command line\<close>

text \<open>
  \<open>getopt\<close> with the option string \<open>i:m:c:n:r:\<close>: the options with their arguments, in the order of the command line.
  Every known option takes an argument, the rest of its word or the next word; an unknown option or a
  missing argument is reported as \<open>?\<close>; words that are no options are skipped and \<open>--\<close> ends the options.
\<close>

definition optString :: string where "optString = ''i:m:c:n:r:''"

definition known_option :: "char \<Rightarrow> bool" where
  "known_option o1 \<longleftrightarrow> o1 \<noteq> CHR '':'' \<and> o1 \<in> set optString"

fun getopt_word :: "string \<Rightarrow> string list \<Rightarrow> (char \<times> string) list \<times> string list" where
  "getopt_word [] args = ([], args)"
| "getopt_word (o1 # rest) args =
     (if \<not> known_option o1 then let (os, args) = getopt_word rest args in ((CHR ''?'', []) # os, args)
      else if rest \<noteq> [] then ([(o1, rest)], args)
      else case args of [] \<Rightarrow> ([(CHR ''?'', [])], []) | a # args \<Rightarrow> ([(o1, a)], args))"

lemma getopt_word_length: "length (snd (getopt_word w args)) \<le> length args"
  by (induction w args rule: getopt_word.induct) (auto split: prod.splits list.splits)

function getopt :: "string list \<Rightarrow> (char \<times> string) list" where
  "getopt [] = []"
| "getopt (a # args) =
     (if a = ''--'' then []
      else if length a \<ge> 2 \<and> hd a = CHR ''-'' then let (os, args) = getopt_word (tl a) args in os @ getopt args
      else getopt args)"
  by pat_completeness auto
termination
proof (relation "measure length", goal_cases)
  case (2 a args r os args')
  then have "args' = snd (getopt_word (tl a) args)" by (metis snd_conv)
  then show ?case using getopt_word_length [of "tl a" args] by simp
qed auto

text \<open>\<open>atoi\<close>: white space, a sign and digits; the value of \<open>strtol\<close> is cut down to 32 bits.\<close>

definition isspace :: "char \<Rightarrow> bool" where
  "isspace ch \<longleftrightarrow> of_char ch \<in> {32 :: nat, 9, 10, 11, 12, 13}"

definition strtol :: "string \<Rightarrow> int" where
  "strtol s =
     (let s = dropWhile isspace s;
          v = (case s of [] \<Rightarrow> 0
               | ch # r \<Rightarrow> if ch = CHR ''-'' then - int (digits_value (takeWhile isdigit r))
                    else if ch = CHR ''+'' then int (digits_value (takeWhile isdigit r)) else int (digits_value (takeWhile isdigit s)))
      in max (- (2 ^ 63)) (min v (2 ^ 63 - 1)))"

definition atoi :: "string \<Rightarrow> u32" where "atoi s = word_of_int (strtol s)"

text \<open>The variables of \<open>main\<close> set by the options; the numbers have no initial value.\<close>

record Options =
  dirName :: string
  opt_chunkingType :: "u32 option"
  opt_compressionMethod :: "u32 option"
  opt_backupNum :: "u32 option"

definition set_option :: "Options \<Rightarrow> char \<times> string \<Rightarrow> Options" where
  "set_option op = (\<lambda>(o1, optarg).
     if o1 = CHR ''i'' then op\<lparr>dirName := optarg\<rparr>
     else if o1 = CHR ''c'' then op\<lparr>opt_chunkingType := Some (atoi optarg)\<rparr>
     else if o1 = CHR ''m'' then op\<lparr>opt_compressionMethod := Some (atoi optarg)\<rparr>
     else if o1 = CHR ''n'' then op\<lparr>opt_backupNum := Some (atoi optarg)\<rparr>
     else op)"

definition parse_options :: "string list \<Rightarrow> Options" where
  "parse_options args =
     foldl set_option \<lparr>dirName = [], opt_chunkingType = None, opt_compressionMethod = None, opt_backupNum = None\<rparr> (getopt args)"

definition initialised :: "'a option \<Rightarrow> 'a result" where
  "initialised v = (case v of None \<Rightarrow> Inl Indeterminate | Some v \<Rightarrow> Inr v)"

section \<open>The directory\<close>

text \<open>
  An entry is a regular file, a directory with its entries (\<open>None\<close> when it cannot be opened) or something else, which
  ends the traversal of its directory.
\<close>

datatype dirent = REG string | DIR string "dirent list option" | OTHER string

fun traverse_entries :: "string \<Rightarrow> dirent list \<Rightarrow> string list" where
  "traverse_entries root [] = []"
| "traverse_entries root (OTHER d_name # es) = []"
| "traverse_entries root (REG d_name # es) =
     (if d_name \<noteq> ''.'' \<and> d_name \<noteq> ''..'' then [root @ ''/'' @ d_name] else []) @ traverse_entries root es"
| "traverse_entries root (DIR d_name None # es) = traverse_entries root es"
| "traverse_entries root (DIR d_name (Some sub) # es) =
     (if d_name \<noteq> ''.'' \<and> d_name \<noteq> ''..'' then traverse_entries (root @ ''/'' @ d_name) sub else []) @ traverse_entries root es"

definition traverse_dir :: "string \<Rightarrow> dirent list option \<Rightarrow> string list" where
  "traverse_dir root d = (case d of None \<Rightarrow> [] | Some es \<Rightarrow> traverse_entries root es)"

section \<open>The objects\<close>

text \<open>
  What the model does not compute: the libraries (\<open>p_env\<close>), the numbers drawn from random engines, the initial contents of
  memory from \<open>malloc\<close>, the buffer a failed compression leaves, the comparison of doubles in Palantir, and
  \<open>std::sort\<close>, which gets a comparison that is no strict order.
\<close>

record platform =
  p_env :: env
  p_random :: "nat \<Rightarrow> u64"
  p_feature :: "u32 list"
  p_superfeature :: "u64 list"
  p_lz4Buf :: "byte list"
  p_leave :: leave
  p_ratio_less :: ratio_test
  p_sort :: "string list \<Rightarrow> string list"

datatype method_obj =
    DedupObj AbsMethod
  | NTransObj NTransForm
  | FinesseObj AbsMethod
  | OdessObj Odess
  | PalantirObj Palantir
  | LocalObj LocalDedup

text \<open>\<open>absMethodObj\<close> is not initialised by the \<open>default\<close> of the switch; \<open>SetInputMQ\<close> then reads it.\<close>

definition new_method :: "platform \<Rightarrow> u32 \<Rightarrow> dataWrite \<Rightarrow> method_obj result" where
  "new_method p compressionMethod dw =
     (if compressionMethod = 0 then Inr (DedupObj (AbsMethod_new dw))
      else if compressionMethod = 1 then Inr (NTransObj (NTransForm_new (p_random p) (p_feature p) (p_superfeature p) dw))
      else if compressionMethod = 2 then Inr (FinesseObj (AbsMethod_new dw))
      else if compressionMethod = 3 then rbind (Odess_new (p_random p) dw) (\<lambda>m. Inr (OdessObj m))
      else if compressionMethod = 4 then rbind (Palantir_new (p_random p) dw) (\<lambda>m. Inr (PalantirObj m))
      else if compressionMethod = 6 then Inr (LocalObj (LocalDedup_new (p_lz4Buf p) dw))
      else Inl Indeterminate)"

definition Locality_backup :: "env \<Rightarrow> leave \<Rightarrow> LocalDedup \<Rightarrow> string \<times> Chunk_t list \<Rightarrow> LocalDedup result" where
  "Locality_backup x leave m job = (case job of (name, chunks) \<Rightarrow> LocalDedup_ProcessTrace x leave chunks (set_backup name m))"

fun backup_obj :: "platform \<Rightarrow> method_obj \<Rightarrow> string \<times> Chunk_t list \<Rightarrow> method_obj result" where
  "backup_obj p (DedupObj m) job = rbind (Dedup_backup (p_env p) m job) (\<lambda>m. Inr (DedupObj m))"
| "backup_obj p (NTransObj m) job = rbind (NTrans_backup (p_env p) m job) (\<lambda>m. Inr (NTransObj m))"
| "backup_obj p (FinesseObj m) job = rbind (Finesse_backup (p_env p) m job) (\<lambda>m. Inr (FinesseObj m))"
| "backup_obj p (OdessObj m) job = rbind (Odess_backup m job) (\<lambda>m. Inr (OdessObj m))"
| "backup_obj p (PalantirObj m) job = rbind (Palantir_backup (p_env p) (p_ratio_less p) m job) (\<lambda>m. Inr (PalantirObj m))"
| "backup_obj p (LocalObj m) job = rbind (Locality_backup (p_env p) (p_leave p) m job) (\<lambda>m. Inr (LocalObj m))"

text \<open>Only Odess overrides \<open>Migratory\<close> and \<open>MLC\<close>, only Palantir \<open>Version_log(double)\<close>.\<close>

fun compare_obj ::
  "platform \<Rightarrow> (string \<Rightarrow> bool) \<Rightarrow> string list \<Rightarrow> nat \<Rightarrow> (string \<rightharpoonup> byte list) \<Rightarrow> method_obj \<Rightarrow> method_obj \<times> (string \<rightharpoonup> byte list)" where
  "compare_obj p w names n f (OdessObj m) = map_prod OdessObj id (main_compare (p_env p) w names n f m)"
| "compare_obj p w names n f (DedupObj m) = map_prod DedupObj id (OriLC (p_env p) w ''ori'' (OriGenerate w names n f) m)"
| "compare_obj p w names n f (NTransObj m) = map_prod NTransObj id (OriLC (p_env p) w ''ori'' (OriGenerate w names n f) m)"
| "compare_obj p w names n f (FinesseObj m) = map_prod FinesseObj id (OriLC (p_env p) w ''ori'' (OriGenerate w names n f) m)"
| "compare_obj p w names n f (PalantirObj m) = map_prod PalantirObj id (OriLC (p_env p) w ''ori'' (OriGenerate w names n f) m)"
| "compare_obj p w names n f (LocalObj m) = map_prod LocalObj id (OriLC (p_env p) w ''ori'' (OriGenerate w names n f) m)"

fun Version_log_obj :: "method_obj \<Rightarrow> method_obj" where
  "Version_log_obj (PalantirObj m) = PalantirObj (pal_Version_log m)"
| "Version_log_obj (DedupObj m) = DedupObj (Version_log m)"
| "Version_log_obj (NTransObj m) = NTransObj (Version_log m)"
| "Version_log_obj (FinesseObj m) = FinesseObj (Version_log m)"
| "Version_log_obj (OdessObj m) = OdessObj (Version_log m)"
| "Version_log_obj (LocalObj m) = LocalObj (Version_log m)"

fun dataWrite_obj :: "method_obj \<Rightarrow> dataWrite" where
  "dataWrite_obj (DedupObj m) = dataWrite m"
| "dataWrite_obj (NTransObj m) = dataWrite m"
| "dataWrite_obj (FinesseObj m) = dataWrite m"
| "dataWrite_obj (OdessObj m) = dataWrite m"
| "dataWrite_obj (PalantirObj m) = dataWrite m"
| "dataWrite_obj (LocalObj m) = dataWrite m"

section \<open>The programs\<close>

text \<open>The prologue shared by both programs: \<open>None\<close> is the usage message.\<close>

definition prologue ::
  "platform \<Rightarrow> (string \<Rightarrow> dirent list option) \<Rightarrow> dataWrite \<Rightarrow> string list
    \<Rightarrow> (Chunker \<times> method_obj \<times> string list \<times> nat) result option" where
  "prologue p opendir dw argv =
     (if length argv \<noteq> Suc (length optString) \<and> length argv \<noteq> Suc (length optString) - 2 then None
      else Some (let op = parse_options (tl argv) in
        rbind (initialised (opt_chunkingType op)) (\<lambda>ct.
        rbind (Chunker_new (sint ct)) (\<lambda>c.
        rbind (initialised (opt_compressionMethod op)) (\<lambda>cm.
        rbind (new_method p cm dw) (\<lambda>m.
        rbind (initialised (opt_backupNum op)) (\<lambda>n.
        Inr (c, m, p_sort p (traverse_dir (dirName op) (opendir (dirName op))), unat n))))))))"

text \<open>Mode 5 rewrites the archives first, and the list of backups with them.\<close>

definition mtar_first ::
  "string list \<Rightarrow> nat \<Rightarrow> (string \<rightharpoonup> byte list) \<Rightarrow> Chunker \<Rightarrow> (string list \<times> (string \<rightharpoonup> byte list) \<times> Chunker) result option" where
  "mtar_first names n files c = (if chunkType c = MTAR then MTar names n files c else Some (Inr (names, files, c)))"

datatype outcome = Usage | Ran method_obj "string \<rightharpoonup> byte list"

definition run_backups ::
  "(method_obj \<Rightarrow> string \<times> Chunk_t list \<Rightarrow> method_obj result)
    \<Rightarrow> (string list \<Rightarrow> nat \<Rightarrow> (string \<rightharpoonup> byte list) \<Rightarrow> method_obj \<Rightarrow> method_obj \<times> (string \<rightharpoonup> byte list))
    \<Rightarrow> (string \<rightharpoonup> byte list) \<Rightarrow> Chunker \<times> method_obj \<times> string list \<times> nat \<Rightarrow> outcome result option" where
  "run_backups job after files = (\<lambda>(c, m, names, n).
     case mtar_first names n files c of
       None \<Rightarrow> None
     | Some (Inl e) \<Rightarrow> Some (Inl e)
     | Some (Inr (names, files, c)) \<Rightarrow>
         map_option (\<lambda>r. rbind r (\<lambda>(c, m). let (m, files) = after names n files m in Inr (Ran m files)))
           (main_loop job files n names (c, m)))"

definition program ::
  "(method_obj \<Rightarrow> string \<times> Chunk_t list \<Rightarrow> method_obj result)
    \<Rightarrow> (string list \<Rightarrow> nat \<Rightarrow> (string \<rightharpoonup> byte list) \<Rightarrow> method_obj \<Rightarrow> method_obj \<times> (string \<rightharpoonup> byte list))
    \<Rightarrow> platform \<Rightarrow> (string \<Rightarrow> dirent list option) \<Rightarrow> (string \<rightharpoonup> byte list) \<Rightarrow> (string \<Rightarrow> bool) \<Rightarrow> string list \<Rightarrow> outcome result option" where
  "program job after p opendir files w argv =
     (case prologue p opendir (dataWrite_new files w) argv of
        None \<Rightarrow> Some (Inr Usage)
      | Some (Inl e) \<Rightarrow> Some (Inl e)
      | Some (Inr s) \<Rightarrow> run_backups job after files s)"

definition main ::
  "platform \<Rightarrow> (string \<Rightarrow> dirent list option) \<Rightarrow> (string \<rightharpoonup> byte list) \<Rightarrow> (string \<Rightarrow> bool) \<Rightarrow> string list \<Rightarrow> outcome result option" where
  "main p opendir files w argv = program (backup_obj p) (compare_obj p w) p opendir files w argv"

definition delta_main ::
  "platform \<Rightarrow> (string \<Rightarrow> dirent list option) \<Rightarrow> (string \<rightharpoonup> byte list) \<Rightarrow> (string \<Rightarrow> bool) \<Rightarrow> string list \<Rightarrow> outcome result option" where
  "delta_main p opendir files w argv =
     program (\<lambda>m job. rbind (backup_obj p m job) (\<lambda>m. Inr (Version_log_obj m))) (\<lambda>names n files m. (m, files)) p opendir files w argv"

section \<open>Parsing\<close>

text \<open>A command line of known options, each followed by its argument, is read as written, whatever the arguments are.\<close>

lemma getopt_pairs:
  assumes "\<forall>(o1, a) \<in> set ps. known_option o1"
  shows "getopt (concat (map (\<lambda>(o1, a). [[CHR ''-'', o1], a]) ps)) = ps"
  using assms
proof (induction ps)
  case (Cons q ps)
  obtain o1 a where q: "q = (o1, a)" by (cases q)
  with Cons.prems have o1: "known_option o1" by simp
  then have "o1 \<noteq> CHR ''-''" by (auto simp: known_option_def optString_def)
  with Cons q o1 show ?case by simp
qed simp

lemma standard_command:
  "parse_options [''-i'', d, ''-m'', sm, ''-c'', sc, ''-n'', sn] =
    \<lparr>dirName = d, opt_chunkingType = Some (atoi sc), opt_compressionMethod = Some (atoi sm), opt_backupNum = Some (atoi sn)\<rparr>"
  using getopt_pairs [of "[(CHR ''i'', d), (CHR ''m'', sm), (CHR ''c'', sc), (CHR ''n'', sn)]"]
  by (simp add: parse_options_def set_option_def known_option_def optString_def)

section \<open>The loop on the objects\<close>

lemma rbind_Inr: "rbind r Inr = r"
  by (cases r) simp_all

lemma main_loop_lift:
  assumes "\<And>m j. job' (F m) j = rbind (job m j) (\<lambda>m. Inr (F m))"
  shows "main_loop job' files n names (c, F m)
    = map_option (\<lambda>r. rbind r (\<lambda>(c, m). Inr (c, F m))) (main_loop job files n names (c, m))"
proof (induction n arbitrary: names c m)
  case (Suc n)
  show ?case
  proof (cases names)
    case (Cons name rest)
    have "main_backup job' files name (c, F m) = map_option (\<lambda>r. rbind r (\<lambda>(c, m). Inr (c, F m))) (main_backup job files name (c, m))"
      by (auto simp: main_backup_def assms rbind_assoc option.map_comp comp_def split: sum.split intro!: option.map_cong0 arg_cong [where f = "rbind _"])
    then show ?thesis
      using Suc.IH by (cases "main_backup job files name (c, m)") (auto simp: Cons split: sum.splits)
  qed simp
qed simp

lemma compare_obj_store: "dataWrite_obj (fst (compare_obj p w names n f m)) = dataWrite_obj m"
  by (cases m) (auto simp: OriLC_def main_compare_def MLC_def Let_def split: prod.split)

text \<open>The states of a run from which every backup is restored.\<close>

definition restores :: "env \<Rightarrow> (string \<rightharpoonup> byte list) \<Rightarrow> string list \<Rightarrow> dataWrite \<Rightarrow> bool" where
  "restores x files names dw \<longleftrightarrow> (\<forall>name \<in> set names. \<exists>dw'. restoreFile x name dw = Inr dw' \<and> fs dw' (restore_path name) = files name)"

lemma obj_loop:
  assumes "\<And>m j. backup_obj p (F m) j = rbind (job m j) (\<lambda>m. Inr (F m))" "\<And>m. lgo (F m) = F (lg m)" "\<And>m. dataWrite_obj (F m) = dw m"
    and "\<exists>c' m'. main_loop (\<lambda>m j. rbind (job m j) (\<lambda>m. Inr (lg m))) files n names (c, m) = Some (Inr (c', m')) \<and> restores x files ns (dw m')"
  shows "\<exists>c' m'. main_loop (\<lambda>m j. rbind (backup_obj p m j) (\<lambda>m. Inr (lgo m))) files n names (c, F m) = Some (Inr (c', m'))
    \<and> restores x files ns (dataWrite_obj m')"
proof -
  have "rbind (backup_obj p (F m) j) (\<lambda>m. Inr (lgo m)) = rbind (rbind (job m j) (\<lambda>m. Inr (lg m))) (\<lambda>m. Inr (F m))" for m j
    by (simp add: assms(1,2) rbind_assoc)
  from main_loop_lift [of "\<lambda>m j. rbind (backup_obj p m j) (\<lambda>m. Inr (lgo m))" F, OF this] assms(3,4) show ?thesis by fastforce
qed

text \<open>
  What the methods rely on besides LZ4 and SHA-256: those with similarity detection on xdelta3, Finesse on hashes for
  all inputs; Palantir loses chunks from the fourth backup on.  Odess keeps no recipes, and the locality
  method is wrong from the second backup on.
\<close>

definition method_laws :: "platform \<Rightarrow> dataWrite \<Rightarrow> u32 \<Rightarrow> nat \<Rightarrow> byte list set \<Rightarrow> bool" where
  "method_laws p dw compressionMethod n C \<longleftrightarrow> (case new_method p compressionMethod dw of
       Inr (DedupObj m) \<Rightarrow> True
     | Inr (NTransObj m) \<Rightarrow> xd3_law (p_env p) C (nt_feat (chunker m) (ntrans m))
     | Inr (FinesseObj m) \<Rightarrow> hash_total (p_env p) \<and> xd3_law (p_env p) C (finesse_feat (p_env p))
     | Inr (PalantirObj m) \<Rightarrow> n \<le> 3 \<and> xd3_law (p_env p) C (pal_feat (feature_generator (pal_table m)))
     | _ \<Rightarrow> False)"

lemma Version_log_keeps [simp]:
  "dataWrite (Version_log m) = dataWrite m" "dedup_inv x C (Version_log a) = dedup_inv x C a"
  "finesse.method_inv x C (Version_log a) = finesse.method_inv x C a"
  "ntransform.method_inv x C c g (Version_log t) = ntransform.method_inv x C c g t"
  by (simp_all add: Version_log_def dedup_inv_def finesse.method_inv_def finesse_laws_def finesse_ids_def delta_inv_def
      ntransform.method_inv_def nt_laws_def nt_ids_def Let_def)

lemma pal_Version_log_keeps [simp]:
  "dataWrite (pal_Version_log m) = dataWrite m" "pal_inv x C g (pal_Version_log m) = pal_inv x C g m" "pal_left n (pal_Version_log m) = pal_left n m"
  by (simp_all add: pal_Version_log_def pal_inv_def pal_laws_def pal_ids_def pal_left_def delta_inv_def Let_def)

lemma new_method_obj:
  assumes "new_method p cm dw = Inr m"
  shows "\<And>a. m = DedupObj a \<Longrightarrow> a = AbsMethod_new dw" "\<And>a. m = FinesseObj a \<Longrightarrow> a = AbsMethod_new dw"
    "\<And>a. m = NTransObj a \<Longrightarrow> a = NTransForm_new (p_random p) (p_feature p) (p_superfeature p) dw"
    "\<And>a. m = PalantirObj a \<Longrightarrow> Palantir_new (p_random p) dw = Inr a"
  using assms by (auto simp: new_method_def rbind_eq_Inr_iff split: if_splits)

text \<open>With or without statistics after every backup (\<open>stats\<close>), every method that satisfies its laws backs up all files.\<close>

lemma method_loop:
  fixes stats files names n
  defines "lgo \<equiv> if stats then Version_log_obj else id" and "C \<equiv> file_blocks files (take n names)"
  assumes c: "std_ready c" and n: "n \<le> length names" "distinct (take n names)"
    and f: "\<forall>name \<in> set (take n names). files name \<noteq> None" and w: "\<forall>path. w path"
    and laws: "lz4_law (p_env p)" "hash_law (p_env p) C" "method_laws p (dataWrite_new fs0 w) cm n C"
    and m: "new_method p cm (dataWrite_new fs0 w) = Inr m"
  shows "\<exists>c' m'. main_loop (\<lambda>m j. rbind (backup_obj p m j) (\<lambda>m. Inr (lgo m))) files n names (c, m) = Some (Inr (c', m'))
    \<and> restores (p_env p) files (take n names) (dataWrite_obj m')"
proof -
  let ?x = "p_env p" and ?dw = "dataWrite_new fs0 w"
  have dw: "RecipeMap ?dw = (\<lambda>_. [])" "writable ?dw = w" "dw_inv ?dw" "store_abs ?dw = []"
    using dataWrite_new_inv [of w fs0] w by (simp_all add: dataWrite_new_def Let_def)
  have files: "\<forall>name \<in> set (take n names). files name \<noteq> None \<and> RecipeMap ?dw name = [] \<and> blocks (the (files name)) \<subseteq> C"
    using f by (auto simp: dw(1) C_def file_blocks_def)
  note k = c n
  show ?thesis
  proof (cases m)
    case (DedupObj a)
    then have "a = AbsMethod_new ?dw" using new_method_obj(1) [OF m] by simp
    then have "dedup_inv ?x C a" "dataWrite a = ?dw" using dedup_inv_new [of w ?x C fs0] w by (simp_all add: AbsMethod_new_def)
    then have "\<exists>c' m'. main_loop (\<lambda>m j. rbind (Dedup_backup ?x m j) (\<lambda>m. Inr ((if stats then Version_log else id) m))) files n names (c, a)
        = Some (Inr (c', m')) \<and> restores ?x files (take n names) (dataWrite m')"
      unfolding restores_def using laws w files dw k by (intro dedup_files.main_restores_logged [where C = C]) auto
    then show ?thesis unfolding DedupObj by (intro obj_loop) (simp_all add: lgo_def)
  next
    case (NTransObj a)
    then have a: "a = NTransForm_new (p_random p) (p_feature p) (p_superfeature p) ?dw" using new_method_obj(3) [OF m] by simp
    then have "ntransform.method_inv ?x C (chunker a) (ntrans a) a" "dataWrite a = ?dw"
      using ntrans_inv_new [OF laws(1,2)] laws(3) w by (simp_all add: method_laws_def m NTransObj ntrans_new_sel)
    then have "\<exists>c' m'. main_loop (\<lambda>m j. rbind (NTrans_backup ?x m j) (\<lambda>m. Inr ((if stats then Version_log else id) m))) files n names (c, a)
        = Some (Inr (c', m')) \<and> restores ?x files (take n names) (dataWrite m')"
      unfolding restores_def using laws w files dw k
      by (intro ntrans_files.main_restores_logged [where C = C and ?c0.0 = "chunker a" and ?g0.0 = "ntrans a"]) auto
    then show ?thesis unfolding NTransObj by (intro obj_loop) (simp_all add: lgo_def)
  next
    case (FinesseObj a)
    then have "a = AbsMethod_new ?dw" using new_method_obj(2) [OF m] by simp
    then have "finesse.method_inv ?x C a" "dataWrite a = ?dw"
      using finesse_inv_new [OF laws(1) _ laws(2), of w fs0] laws(3) w by (simp_all add: method_laws_def m FinesseObj AbsMethod_new_def)
    then have "\<exists>c' m'. main_loop (\<lambda>m j. rbind (Finesse_backup ?x m j) (\<lambda>m. Inr ((if stats then Version_log else id) m))) files n names (c, a)
        = Some (Inr (c', m')) \<and> restores ?x files (take n names) (dataWrite m')"
      unfolding restores_def using laws w files dw k by (intro finesse_files.main_restores_logged [where C = C]) auto
    then show ?thesis unfolding FinesseObj by (intro obj_loop) (simp_all add: lgo_def)
  next
    case (PalantirObj a)
    then have a: "Palantir_new (p_random p) ?dw = Inr a" using new_method_obj(4) [OF m] by simp
    then have "pal_inv ?x C (feature_generator (pal_table a)) a" "dataWrite a = ?dw" "pal_left n a"
      using pal_new_sel [OF a] laws dw by (simp_all add: method_laws_def m PalantirObj pal_left_def)
    then have "\<exists>c' m'. main_loop (\<lambda>m j. rbind (Palantir_backup ?x (p_ratio_less p) m j) (\<lambda>m. Inr ((if stats then pal_Version_log else id) m)))
        files n names (c, a) = Some (Inr (c', m')) \<and> restores ?x files (take n names) (dataWrite m')"
      unfolding restores_def using laws w files dw k
      by (intro palantir_files.main_restores_logged [where C = C and g = "feature_generator (pal_table a)"]) auto
    then show ?thesis unfolding PalantirObj by (intro obj_loop) (simp_all add: lgo_def)
  qed (use laws(3) in \<open>simp_all add: method_laws_def m\<close>)
qed

lemma program_restores:
  fixes stats files names p
  defines "job \<equiv> \<lambda>m j. rbind (backup_obj p m j) (\<lambda>m. Inr ((if stats then Version_log_obj else id) m))"
  assumes "\<And>names n f m. dataWrite_obj (fst (after names n f m)) = dataWrite_obj m"
    and "atoi sc \<in> {0, 1}" "n = unat (atoi sn)" "names = p_sort p (traverse_dir d (opendir d))"
    and "n \<le> length names" "distinct (take n names)" "\<forall>name \<in> set (take n names). files name \<noteq> None" "\<forall>path. w path"
    and "lz4_law (p_env p)" "hash_law (p_env p) (file_blocks files (take n names))"
    and "method_laws p (dataWrite_new files w) (atoi sm) n (file_blocks files (take n names))"
  shows "\<exists>m files'. program job after p opendir files w [prog, ''-i'', d, ''-m'', sm, ''-c'', sc, ''-n'', sn] = Some (Inr (Ran m files'))
    \<and> restores (p_env p) files (take n names) (dataWrite_obj m)"
proof -
  have t: "sint (atoi sc) \<in> {0, 1}" using assms(3) by auto
  then obtain c where c: "Chunker_new (sint (atoi sc)) = Inr c" by (auto simp: Chunker_new_def ChunkTypeNum_of_int_def)
  note ready = Chunker_new_std [OF t c]
  then have not_mtar: "chunkType c \<noteq> MTAR" by (auto simp: std_ready_def fixed_ready_def fastcdc_ready_def)
  obtain m where m: "new_method p (atoi sm) (dataWrite_new files w) = Inr m"
    using assms(12) by (cases "new_method p (atoi sm) (dataWrite_new files w)") (auto simp: method_laws_def)
  obtain c' m' where r: "main_loop job files n names (c, m) = Some (Inr (c', m'))" "restores (p_env p) files (take n names) (dataWrite_obj m')"
    using method_loop [OF ready assms(6-12) m, of stats] unfolding job_def by blast
  have "prologue p opendir (dataWrite_new files w) [prog, ''-i'', d, ''-m'', sm, ''-c'', sc, ''-n'', sn] = Some (Inr (c, m, names, n))"
    by (simp add: prologue_def standard_command initialised_def c m assms(4,5) optString_def)
  then have "program job after p opendir files w [prog, ''-i'', d, ''-m'', sm, ''-c'', sc, ''-n'', sn]
      = Some (let (m, files) = after names n files m' in Inr (Ran m files))"
    using r(1) not_mtar by (simp add: program_def run_backups_def mtar_first_def)
  moreover obtain m2 f2 where m2: "after names n files m' = (m2, f2)" by (cases "after names n files m'")
  moreover have "dataWrite_obj m2 = dataWrite_obj m'" using assms(2) [of names n files m'] by (simp add: m2)
  ultimately show ?thesis using r(2) by simp
qed

section \<open>The list of backups\<close>

inductive file_at :: "dirent list \<Rightarrow> string \<Rightarrow> bool" where
  reg: "REG d_name \<in> set es \<Longrightarrow> d_name \<noteq> ''.'' \<Longrightarrow> d_name \<noteq> ''..'' \<Longrightarrow> file_at es (''/'' @ d_name)"
| dir: "DIR d_name (Some sub) \<in> set es \<Longrightarrow> d_name \<noteq> ''.'' \<Longrightarrow> d_name \<noteq> ''..'' \<Longrightarrow> file_at sub path \<Longrightarrow> file_at es (''/'' @ d_name @ path)"

fun no_others :: "dirent list \<Rightarrow> bool" where
  "no_others [] \<longleftrightarrow> True"
| "no_others (OTHER d_name # es) \<longleftrightarrow> False"
| "no_others (REG d_name # es) \<longleftrightarrow> no_others es"
| "no_others (DIR d_name None # es) \<longleftrightarrow> no_others es"
| "no_others (DIR d_name (Some sub) # es) \<longleftrightarrow> no_others sub \<and> no_others es"

lemma file_at_simps:
  "file_at [] path \<longleftrightarrow> False"
  "file_at (OTHER d_name # es) path \<longleftrightarrow> file_at es path"
  "file_at (REG d_name # es) path \<longleftrightarrow> d_name \<noteq> ''.'' \<and> d_name \<noteq> ''..'' \<and> path = ''/'' @ d_name \<or> file_at es path"
  "file_at (DIR d_name None # es) path \<longleftrightarrow> file_at es path"
  "file_at (DIR d_name (Some sub) # es) path \<longleftrightarrow>
     d_name \<noteq> ''.'' \<and> d_name \<noteq> ''..'' \<and> (\<exists>q. file_at sub q \<and> path = ''/'' @ d_name @ q) \<or> file_at es path"
  unfolding file_at.simps [of _ path] by auto

lemma traverse_entries_files:
  "no_others es \<Longrightarrow> set (traverse_entries root es) = {root @ path | path. file_at es path}"
proof (induction es arbitrary: root rule: no_others.induct)
qed (auto simp: file_at_simps)

lemma traverse_entries_stops: "traverse_entries root (pre @ OTHER d_name # es) = traverse_entries root pre"
  by (induction pre rule: no_others.induct) auto

text \<open>
  C21: \<open>traverse_dir\<close> lists exactly the regular files at any depth of a directory that holds only files and directories.
  An entry of another kind, a symbolic link for example, ends the traversal of its directory: whatever comes
  behind it is silently left out.
\<close>

theorem traverse_dir_lists:
  "(no_others es \<longrightarrow> set (traverse_dir root (Some es)) = {root @ path | path. file_at es path})
    \<and> traverse_dir root (Some (pre @ OTHER d_name # es)) = traverse_dir root (Some pre)"
  using traverse_entries_files traverse_entries_stops by (simp add: traverse_dir_def)

theorem traverse_dir_lists_witness:
  "set (traverse_dir ''d'' (Some [DIR ''.'' None, REG ''a'', DIR ''s'' (Some [REG ''b'']), REG ''c''])) = {''d/a'', ''d/s/b'', ''d/c''}
    \<and> traverse_dir ''d'' (Some [REG ''a'', OTHER ''l'', REG ''c'']) = [''d/a'']"
proof -
  have "set (traverse_dir ''d'' (Some [DIR ''.'' None, REG ''a'', DIR ''s'' (Some [REG ''b'']), REG ''c'']))
      = {''d'' @ path | path. file_at [DIR ''.'' None, REG ''a'', DIR ''s'' (Some [REG ''b'']), REG ''c''] path}"
    using traverse_dir_lists [of "[DIR ''.'' None, REG ''a'', DIR ''s'' (Some [REG ''b'']), REG ''c'']" "''d''"] by simp
  then show ?thesis using traverse_dir_lists [of _ "''d''" "[REG ''a'']" "''l''"] by (auto simp: file_at_simps traverse_dir_def)
qed



end
