(* ===== verification/Threads.thy ===== *)
theory Threads
  imports RWQueueLive Driver
begin

text \<open>
  One backup is the work of two threads, \<open>Chunking\<close> and \<open>ProcessTrace\<close>, over the lock-free queue; the driver is modelled as
  their sequential composition.  Every interleaving agrees with it.
\<close>

section \<open>Concurrent and sequential backups\<close>

lemma exited_received:
  assumes "rw_reachable n xs s" "1 \<le> n" "n < 2 ^ 32" "cpc s = LExited"
  shows "rw_received s = xs"
  using rw_reachable_ok [OF assms(1-3)] assms(4) by (auto simp: rw_ok_def in_hand_def outside_def)



end
