(* ===== verification/TarRestore.thy ===== *)
theory TarRestore
  imports Store Tar
begin

text \<open>
  \<open>dataWrite::restoreHeaderFile\<close>: an archive that was backed up in mode 4 is put together again from a recipe of header
  segments and a recipe of data chunks.  The specification \<open>woven\<close> says which archives the two describe.
\<close>

section \<open>What a header announces\<close>

definition restore_next :: "(nat \<Rightarrow> byte) \<Rightarrow> FILE_TYPE_OPTION \<times> u64" where
  "restore_next src =
     (let flag = src 156; n = (if flag = AREGTYPE then dw_tar_raw_size src else tar_size src)
      in (if flag = REGTYPE \<or> flag = AREGTYPE then if n \<le> of_nat CONTAINER_MAX_SIZE then FILE_CHUNK else BIG_CHUNK
          else if flag = XHDTYPE \<or> flag = GNUTYPE_LONGNAME then FILE_CHUNK else FILE_HEADER, n))"

text \<open>The part of the store the routine works with: the header buffer.\<close>

definition hdr :: "dataWrite \<Rightarrow> byte list \<times> nat \<times> nat" where
  "hdr dw = (MultiHeaderBuffer dw, MultiHeaderChunkSize dw, MultiHeaderOffset dw)"

lemma Get_Chunk_Info_hdr: "Get_Chunk_Info x i dw = Inr (ch, dw') \<Longrightarrow> hdr dw' = hdr dw"
  by (auto simp: Get_Chunk_Info_def Let_def rbind_eq_Inr_iff hdr_def split: if_splits option.splits)

lemma restore_chunk_hdr: "restore_chunk x i dw = Inr (bs, ch, dw') \<Longrightarrow> hdr dw' = hdr dw"
  by (auto simp: restore_chunk_def rbind_eq_Inr_iff split: if_splits dest!: Get_Chunk_Info_hdr)

lemma restore_chunk_size: "restore_chunk x i dw = Inr (bs, ch, dw') \<Longrightarrow> chunkSize ch = length bs"
  by (auto simp: restore_chunk_def rbind_eq_Inr_iff read_ptr_def split: if_splits)

text \<open>Setting the fields of the tar parser or of the header buffer does not touch the chunks.\<close>

definition chunks_of :: "dataWrite \<Rightarrow> bool \<times> (Chunk_t \<times> byte list) list \<times> (string \<Rightarrow> nat list) \<times> (string \<Rightarrow> nat list) \<times> string \<times> (string \<Rightarrow> bool)" where
  "chunks_of dw = (dw_inv dw, store_abs dw, recipes dw)"

lemma chunks_of_cong:
  assumes "same_containers dw dw'" "chunklist dw' = chunklist dw" "containerCache dw' = containerCache dw" "recipes dw' = recipes dw"
  shows "chunks_of dw' = chunks_of dw"
  using assms same_containers_data [OF assms(1)]
  by (simp add: chunks_of_def dw_inv_def cur_ok_def cache_ok_def placed_def file_ok_def store_abs_def entry_def [abs_def] payload_def same_containers_def)

lemma chunks_of_upd [simp]:
  "chunks_of (dw\<lparr>MultiHeaderBuffer := b, MultiHeaderChunkSize := k, MultiHeaderOffset := off\<rparr>) = chunks_of dw"
  "chunks_of (dw\<lparr>MultiHeaderChunkSize := k, MultiHeaderOffset := off, MultiHeaderBuffer := b\<rparr>) = chunks_of dw"
  "chunks_of (dw\<lparr>MultiHeaderOffset := off\<rparr>) = chunks_of dw"
  "chunks_of (dw\<lparr>dw_Next_Chunk_Type := t\<rparr>) = chunks_of dw" "chunks_of (dw\<lparr>dw_Next_Chunk_Size := n\<rparr>) = chunks_of dw"
  "chunks_of (dw\<lparr>dw_Big_Chunk_Size := n\<rparr>) = chunks_of dw" "chunks_of (dw\<lparr>dw_Big_Chunk_Offset := n\<rparr>) = chunks_of dw"
  by (rule chunks_of_cong; simp add: same_containers_def recipes_def)+

lemma hdr_upd [simp]:
  "hdr (dw\<lparr>dw_Next_Chunk_Type := t\<rparr>) = hdr dw" "hdr (dw\<lparr>dw_Next_Chunk_Size := n\<rparr>) = hdr dw"
  "hdr (dw\<lparr>dw_Big_Chunk_Size := n\<rparr>) = hdr dw" "hdr (dw\<lparr>dw_Big_Chunk_Offset := n\<rparr>) = hdr dw"
  by (simp_all add: hdr_def)

lemma dw_set_size_keeps [simp]: "chunks_of (dw_set_size n dw) = chunks_of dw" "hdr (dw_set_size n dw) = hdr dw"
  by (simp_all add: dw_set_size_def Let_def)

lemma dw_tar_header_keeps [simp]: "chunks_of (dw_tar_header src dw) = chunks_of dw" "hdr (dw_tar_header src dw) = hdr dw"
  by (simp_all add: dw_tar_header_def Let_def)

lemma dw_tar_header_next:
  assumes "dw_Next_Chunk_Type dw = FILE_HEADER"
  shows "dw_Next_Chunk_Type (dw_tar_header src dw) = fst (restore_next src)" "dw_Next_Chunk_Size (dw_tar_header src dw) = snd (restore_next src)"
    "fst (restore_next src) = BIG_CHUNK \<Longrightarrow> dw_Big_Chunk_Size (dw_tar_header src dw) = round512 (snd (restore_next src))"
  using assms
  by (auto simp: dw_tar_header_def restore_next_def dw_set_size_def Let_def REGTYPE_def AREGTYPE_def XHDTYPE_def GNUTYPE_LONGNAME_def split: if_splits)

lemma restore_next_local: "(\<And>i. i < 512 \<Longrightarrow> src i = src' i) \<Longrightarrow> restore_next src = restore_next src'"
proof -
  assume s: "\<And>i. i < 512 \<Longrightarrow> src i = src' i"
  then have "tar_size src = tar_size src'" "dw_tar_raw_size src = dw_tar_raw_size src'"
    unfolding tar_size_def dw_tar_raw_size_def by (auto intro!: fold_cong)
  then show ?thesis using s [of 156] by (simp add: restore_next_def Let_def)
qed

section \<open>The specification\<close>

text \<open>
  An archive is a sequence of headers, each followed by nothing, by the chunk of a small file, or by the chunks of a big
  file, which together have the announced size.
\<close>

inductive woven :: "byte list list \<Rightarrow> byte list list \<Rightarrow> byte list \<Rightarrow> bool" where
  fin: "woven [] [] []"
| bare: "length h = 512 \<Longrightarrow> fst (restore_next (mem_at h 0)) = FILE_HEADER \<or> snd (restore_next (mem_at h 0)) = 0 \<Longrightarrow>
    woven hs ds f \<Longrightarrow> woven (h # hs) ds (h @ f)"
| small: "length h = 512 \<Longrightarrow> fst (restore_next (mem_at h 0)) = FILE_CHUNK \<Longrightarrow> snd (restore_next (mem_at h 0)) \<noteq> 0 \<Longrightarrow>
    woven hs ds f \<Longrightarrow> woven (h # hs) (d # ds) (h @ d @ f)"
| big: "length h = 512 \<Longrightarrow> fst (restore_next (mem_at h 0)) = BIG_CHUNK \<Longrightarrow> ps \<noteq> [] \<Longrightarrow> [] \<notin> set ps \<Longrightarrow>
    length (concat ps) = unat (round512 (snd (restore_next (mem_at h 0)))) \<Longrightarrow>
    woven hs ds f \<Longrightarrow> woven (h # hs) (ps @ ds) (h @ concat ps @ f)"

section \<open>The data\<close>

text \<open>Chunk numbers with the contents \<open>restore_chunk\<close> delivers for them.\<close>

definition delivers :: "env \<Rightarrow> (Chunk_t \<times> byte list) list \<Rightarrow> nat list \<Rightarrow> byte list list \<Rightarrow> bool" where
  "delivers x es is bs \<longleftrightarrow> list_all2 (\<lambda>i b. base_ok es i \<and> content x es i = Inr b) is bs"

lemma deliver_one:
  assumes "dw_inv dw" "delivers x (store_abs dw) (i # is) (b # bs)"
  shows "\<exists>ch dw'. restore_chunk x (int i) dw = Inr (b, ch, dw') \<and> chunkSize ch = length b
    \<and> chunks_of dw' = chunks_of dw \<and> hdr dw' = hdr dw"
proof -
  have "base_ok (store_abs dw) i" "content x (store_abs dw) i = Inr b" using assms(2) by (simp_all add: delivers_def)
  from restore_chunk_ok [OF assms(1) this] obtain ch dw' where
    r: "restore_chunk x (int i) dw = Inr (b, ch, dw')" "dw_inv dw'" "store_abs dw' = store_abs dw" "recipes dw' = recipes dw" by blast
  with assms(1) have "chunks_of dw' = chunks_of dw" by (simp add: chunks_of_def)
  with r(1) restore_chunk_size [OF r(1)] restore_chunk_hdr [OF r(1)] show ?thesis by blast
qed

lemma restore_big_ok:
  assumes "dw_inv dw" "delivers x (store_abs dw) is (ps @ ds)" "[] \<notin> set ps" "length (concat ps) < 2 ^ 64"
  shows "\<exists>dw'. restore_big x (of_nat (length (concat ps))) is dw out = Inr (dw', drop (length ps) is, out @ concat ps)
    \<and> chunks_of dw' = chunks_of dw \<and> hdr dw' = hdr dw"
  using assms
proof (induction ps arbitrary: "is" dw out)
  case Nil
  then show ?case by (cases "is") simp_all
next
  case (Cons p ps)
  from Cons.prems(2) obtain i is' where i: "is = i # is'" by (auto simp: delivers_def list_all2_Cons2)
  from deliver_one [OF Cons.prems(1)] Cons.prems(2) obtain ch dw1 where
    r: "restore_chunk x (int i) dw = Inr (p, ch, dw1)" "chunkSize ch = length p" "chunks_of dw1 = chunks_of dw" "hdr dw1 = hdr dw"
    unfolding i by (metis append_Cons)
  have len: "length p \<noteq> 0" "length p + length (concat ps) < 2 ^ 64" using Cons.prems(3,4) by auto
  have "unat (of_nat (length p + length (concat ps)) :: u64) = length p + length (concat ps)"
    using len(2) unfolding unat_of_nat by simp
  then have "(of_nat (length p + length (concat ps)) :: u64) \<noteq> 0" using len(1) by (metis add_is_0 unsigned_0)
  moreover obtain dw' where "restore_big x (of_nat (length (concat ps))) is' dw1 (out @ p) = Inr (dw', drop (length ps) is', out @ p @ concat ps)"
    "chunks_of dw' = chunks_of dw1" "hdr dw' = hdr dw1"
    using Cons.IH [of dw1 is' "out @ p"] Cons.prems r(3) unfolding i by (auto simp: chunks_of_def delivers_def)
  ultimately show ?case using r unfolding i by (auto simp: of_nat_add)
qed

section \<open>The headers\<close>

text \<open>
  The header text still to come: the rest of the buffer and the segments of the recipe.  Segments consist of whole
  headers and fit the buffer.
\<close>

definition segments_ok :: "byte list list \<Rightarrow> bool" where
  "segments_ok segs \<longleftrightarrow> (\<forall>s \<in> set segs. s \<noteq> [] \<and> 512 dvd length s \<and> length s \<le> 16 * 512)"

definition headers_left :: "byte list list \<Rightarrow> byte list \<times> nat \<times> nat \<Rightarrow> byte list \<Rightarrow> bool" where
  "headers_left segs b H \<longleftrightarrow> (case b of (buf, n, off) \<Rightarrow>
     off \<le> n \<and> n \<le> length buf \<and> 512 dvd n - off \<and> H = slice off (n - off) buf @ concat segs)"

lemma headers_left_end: "headers_left segs (hdr dw) [] \<Longrightarrow> segments_ok segs \<Longrightarrow> segs = [] \<and> MultiHeaderChunkSize dw = MultiHeaderOffset dw"
  by (cases segs) (auto simp: headers_left_def hdr_def segments_ok_def slice_def)

lemma refill_ok:
  assumes "dw_inv dw" "delivers x (store_abs dw) hs segs" "segments_ok segs" "headers_left segs (hdr dw) (h @ H)" "length h = 512"
  shows "\<exists>dw' hs' segs'. restore_refill x dw hs = Inr (dw', hs') \<and> chunks_of dw' = chunks_of dw \<and> delivers x (store_abs dw) hs' segs'
    \<and> segments_ok segs' \<and> MultiHeaderOffset dw' + HeaderSize \<le> length (MultiHeaderBuffer dw')
    \<and> slice (MultiHeaderOffset dw') HeaderSize (MultiHeaderBuffer dw') = h
    \<and> headers_left segs' (MultiHeaderBuffer dw', MultiHeaderChunkSize dw', MultiHeaderOffset dw' + HeaderSize) H"
proof -
  have take: "off + 512 \<le> length buf \<and> slice off 512 buf = h \<and> headers_left ss (buf, n, off + 512) H"
    if hl: "headers_left ss (buf, n, off) (h @ H)" and ne: "off \<noteq> n" for ss buf n off
  proof -
    from hl have b: "off \<le> n" "n \<le> length buf" "512 dvd n - off" "h @ H = slice off (n - off) buf @ concat ss"
      by (auto simp: headers_left_def)
    from b(1,3) ne have le: "512 \<le> n - off" by (auto dest: dvd_imp_le)
    have "slice off (n - off) buf = slice off 512 buf @ slice (off + 512) (n - (off + 512)) buf"
      using take_add [of 512 "n - (off + 512)" "drop off buf"] le by (simp add: slice_def add.commute)
    moreover have "length (slice off 512 buf) = 512" using b(2) le by (simp add: slice_length)
    ultimately have "slice off 512 buf = h \<and> H = slice (off + 512) (n - (off + 512)) buf @ concat ss"
      using b(4) assms(5) by (simp add: append_eq_append_conv)
    moreover have "512 dvd n - (off + 512)" using b(3) le by (metis diff_diff_left dvd_diff_nat dvd_refl)
    ultimately show ?thesis using b(2) le by (auto simp: headers_left_def)
  qed
  show ?thesis
  proof (cases "MultiHeaderChunkSize dw = MultiHeaderOffset dw")
    case False
    then have "restore_refill x dw hs = Inr (dw, hs)" by (simp add: restore_refill_def split: list.split)
    with take [of segs "MultiHeaderBuffer dw" "MultiHeaderChunkSize dw" "MultiHeaderOffset dw"] assms(2-4) False
    show ?thesis by (intro exI [of _ dw] exI [of _ hs] exI [of _ segs]) (simp add: hdr_def HeaderSize_def)
  next
    case True
    then have "h @ H = concat segs" using assms(4) by (simp add: headers_left_def hdr_def slice_def)
    then obtain s segs' where s: "segs = s # segs'" using assms(5) by (cases segs) auto
    with assms(2) obtain i hs' where i: "hs = i # hs'" by (auto simp: delivers_def list_all2_Cons2)
    from deliver_one [OF assms(1) assms(2) [unfolded s i]] obtain ch dw1 where
      r: "restore_chunk x (int i) dw = Inr (s, ch, dw1)" "chunkSize ch = length s" "chunks_of dw1 = chunks_of dw" by blast
    have ok: "s \<noteq> []" "512 dvd length s" "length s \<le> 16 * 512" "segments_ok segs'" using assms(3) by (auto simp: s segments_ok_def)
    let ?buf = "overwrite 0 s (MultiHeaderBuffer dw1)"
    let ?dw = "dw1\<lparr>MultiHeaderChunkSize := length s, MultiHeaderOffset := 0, MultiHeaderBuffer := ?buf\<rparr>"
    have run: "restore_refill x dw hs = Inr (?dw, hs')" using True r ok(3) by (simp add: restore_refill_def i)
    have "headers_left segs' (?buf, length s, 0) (h @ H)"
      using ok(2) \<open>h @ H = concat segs\<close> by (simp add: headers_left_def s overwrite_def slice_def)
    from take [OF this] ok(1) run r(3) ok(4) assms(2) show ?thesis
      by (intro exI [of _ ?dw] exI [of _ hs'] exI [of _ segs']) (auto simp: HeaderSize_def delivers_def s i)
  qed
qed

lemma mem_at_slice: "slice off 512 buf = h \<Longrightarrow> off + 512 \<le> length buf \<Longrightarrow> i < 512 \<Longrightarrow> mem_at buf off i = mem_at h 0 i"
  by (auto simp: mem_at_def slice_def nth_take)

text \<open>One round of the loop: the header is written, and what it announces decides how to go on.\<close>

lemma header_round:
  assumes "dw_inv dw" "delivers x (store_abs dw) hs segs" "segments_ok segs" "headers_left segs (hdr dw) (h @ H)" "length h = 512"
  shows "\<exists>dw' hs' segs'. chunks_of dw' = chunks_of dw \<and> delivers x (store_abs dw) hs' segs' \<and> segments_ok segs' \<and> headers_left segs' (hdr dw') H
    \<and> dw_Next_Chunk_Type dw' = fst (restore_next (mem_at h 0)) \<and> dw_Next_Chunk_Size dw' = snd (restore_next (mem_at h 0))
    \<and> (fst (restore_next (mem_at h 0)) = BIG_CHUNK \<longrightarrow> dw_Big_Chunk_Size dw' = round512 (snd (restore_next (mem_at h 0))))
    \<and> (\<forall>ds out. restore_header_body x (dw, hs, ds, out) =
         (if snd (restore_next (mem_at h 0)) = 0 then Inr (dw', hs', ds, out @ h)
          else (case (fst (restore_next (mem_at h 0)), ds) of
                  (FILE_CHUNK, d # ds') \<Rightarrow> rbind (restore_chunk x (int d) dw') (\<lambda>(bs, _, dw). Inr (dw, hs', ds', (out @ h) @ bs))
                | (BIG_CHUNK, d # ds') \<Rightarrow>
                    rbind (restore_big x (dw_Big_Chunk_Size dw') ds dw' (out @ h)) (\<lambda>(dw, ds, out). Inr (dw, hs', ds, out))
                | _ \<Rightarrow> Inr (dw', hs', ds, out @ h))))"
proof -
  from refill_ok [OF assms] obtain dw1 hs' segs' where
    r: "restore_refill x dw hs = Inr (dw1, hs')" "chunks_of dw1 = chunks_of dw" "delivers x (store_abs dw) hs' segs'" "segments_ok segs'"
      "MultiHeaderOffset dw1 + HeaderSize \<le> length (MultiHeaderBuffer dw1)" "slice (MultiHeaderOffset dw1) HeaderSize (MultiHeaderBuffer dw1) = h"
      "headers_left segs' (MultiHeaderBuffer dw1, MultiHeaderChunkSize dw1, MultiHeaderOffset dw1 + HeaderSize) H" by blast
  let ?src = "mem_at (MultiHeaderBuffer dw1) (MultiHeaderOffset dw1)"
  let ?dw = "dw_tar_header ?src (dw1\<lparr>dw_Next_Chunk_Type := FILE_HEADER\<rparr>)"
  let ?dw' = "?dw\<lparr>MultiHeaderOffset := MultiHeaderOffset dw1 + HeaderSize\<rparr>"
  have n: "restore_next ?src = restore_next (mem_at h 0)"
    using r(5,6) by (intro restore_next_local mem_at_slice) (simp_all add: HeaderSize_def)
  note nx = dw_tar_header_next [of "dw1\<lparr>dw_Next_Chunk_Type := FILE_HEADER\<rparr>" ?src, unfolded n, simplified]
  have "hdr ?dw = hdr dw1" by simp
  then have h: "hdr ?dw' = (MultiHeaderBuffer dw1, MultiHeaderChunkSize dw1, MultiHeaderOffset dw1 + HeaderSize)" by (simp add: hdr_def)
  have body: "restore_header_body x (dw, hs, ds, out) =
         (if snd (restore_next (mem_at h 0)) = 0 then Inr (?dw', hs', ds, out @ h)
          else (case (fst (restore_next (mem_at h 0)), ds) of
                  (FILE_CHUNK, d # ds') \<Rightarrow> rbind (restore_chunk x (int d) ?dw') (\<lambda>(bs, _, dw). Inr (dw, hs', ds', (out @ h) @ bs))
                | (BIG_CHUNK, d # ds') \<Rightarrow>
                    rbind (restore_big x (dw_Big_Chunk_Size ?dw') ds ?dw' (out @ h)) (\<lambda>(dw, ds, out). Inr (dw, hs', ds, out))
                | _ \<Rightarrow> Inr (?dw', hs', ds, out @ h)))" for ds out
    using r(5,6) by (simp add: restore_header_body_def r(1) dw_CutPointTarFast_def nx Let_def)
  show ?thesis
    by (rule exI [of _ ?dw'], rule exI [of _ hs'], rule exI [of _ segs'], intro conjI allI impI)
      (use r(2-4,7) h nx body in simp_all)
qed

lemma guard_ok:
  assumes "delivers x es hs segs" "headers_left segs (hdr dw) (h @ H)" "length h = 512"
  shows "restore_header_guard (dw, hs, ds, out)"
  using assms by (auto simp: restore_header_guard_def delivers_def headers_left_def hdr_def slice_def)

lemma restore_loop:
  assumes "woven hl dl f" "dw_inv dw" "delivers x (store_abs dw) hs segs" "segments_ok segs" "headers_left segs (hdr dw) (concat hl)"
    and "delivers x (store_abs dw) ds dl"
  shows "\<exists>dw'. rwhile restore_header_guard (\<lambda>s. Some (restore_header_body x s)) (dw, hs, ds, out) = Some (Inr (dw', [], [], out @ f))
    \<and> chunks_of dw' = chunks_of dw \<and> MultiHeaderChunkSize dw' = MultiHeaderOffset dw'"
  using assms
proof (induction arbitrary: dw hs segs ds out rule: woven.induct)
  case fin
  with headers_left_end [of segs dw] have e: "hs = []" "ds = []" "MultiHeaderChunkSize dw = MultiHeaderOffset dw" by (auto simp: delivers_def)
  then show ?case by (subst rwhile_unfold) (simp add: restore_header_guard_def)
next
  case (bare h hl dl f)
  then have hl: "headers_left segs (hdr dw) (h @ concat hl)" by simp
  from header_round [OF bare.prems(1-3) hl bare.hyps(1)] obtain dw' hs' segs' where
    r: "chunks_of dw' = chunks_of dw" "delivers x (store_abs dw) hs' segs'" "segments_ok segs'" "headers_left segs' (hdr dw') (concat hl)"
      "restore_header_body x (dw, hs, ds, out) = Inr (dw', hs', ds, out @ h)" using bare.hyps(2) by fastforce
  have s: "dw_inv dw'" "store_abs dw' = store_abs dw" using r(1) bare.prems(1) by (simp_all add: chunks_of_def)
  from bare.IH [of dw' hs' segs' ds "out @ h"] s r bare.prems(5) show ?case
    by (subst rwhile_unfold) (simp add: guard_ok [OF bare.prems(2) hl bare.hyps(1)])
next
  case (small h hl dl f d)
  then have hl: "headers_left segs (hdr dw) (h @ concat hl)" by simp
  from small.prems(5) obtain i js where ds: "ds = i # js" by (auto simp: delivers_def list_all2_Cons2)
  from header_round [OF small.prems(1-3) hl small.hyps(1)] obtain dw1 hs' segs' where
    r: "chunks_of dw1 = chunks_of dw" "delivers x (store_abs dw) hs' segs'" "segments_ok segs'" "headers_left segs' (hdr dw1) (concat hl)"
      "restore_header_body x (dw, hs, ds, out) = rbind (restore_chunk x (int i) dw1) (\<lambda>(bs, _, dw). Inr (dw, hs', js, (out @ h) @ bs))"
    using small.hyps(2,3) by (fastforce simp: ds)
  have s: "dw_inv dw1" "store_abs dw1 = store_abs dw" using r(1) small.prems(1) by (simp_all add: chunks_of_def)
  from deliver_one [OF s(1), of x i js d dl] small.prems(5) obtain ch dw' where
    c: "restore_chunk x (int i) dw1 = Inr (d, ch, dw')" "chunks_of dw' = chunks_of dw1" "hdr dw' = hdr dw1" unfolding ds s(2) by blast
  have s': "dw_inv dw'" "store_abs dw' = store_abs dw" using r(1) c(2) small.prems(1) by (simp_all add: chunks_of_def)
  from small.IH [of dw' hs' segs' js "out @ h @ d"] s' r(1-4) c small.prems(5) r(5) show ?case
    by (subst rwhile_unfold) (simp add: guard_ok [OF small.prems(2) hl small.hyps(1)] ds delivers_def)
next
  case (big h ps hl dl f)
  then have hl: "headers_left segs (hdr dw) (h @ concat hl)" by simp
  let ?n = "round512 (snd (restore_next (mem_at h 0)))"
  from big.prems(5) big.hyps(3) obtain i js where ds: "ds = i # js" by (cases ds) (auto simp: delivers_def)
  have nz: "snd (restore_next (mem_at h 0)) \<noteq> 0" using big.hyps(2) by (auto simp: restore_next_def Let_def split: if_splits)
  from header_round [OF big.prems(1-3) hl big.hyps(1)] obtain dw1 hs' segs' where
    r: "chunks_of dw1 = chunks_of dw" "delivers x (store_abs dw) hs' segs'" "segments_ok segs'" "headers_left segs' (hdr dw1) (concat hl)"
      "restore_header_body x (dw, hs, ds, out) = rbind (restore_big x ?n ds dw1 (out @ h)) (\<lambda>(dw, ds, out). Inr (dw, hs', ds, out))"
    using big.hyps(2) nz by (fastforce simp: ds)
  have s: "dw_inv dw1" "store_abs dw1 = store_abs dw" using r(1) big.prems(1) by (simp_all add: chunks_of_def)
  have n: "?n = of_nat (length (concat ps))" "length (concat ps) < 2 ^ 64"
    unfolding big.hyps(5) using unsigned_less [of ?n, where 'a = nat] by simp_all
  from restore_big_ok [OF s(1) _ big.hyps(4) n(2), of x ds dl "out @ h"] big.prems(5) obtain dw' where
    c: "restore_big x ?n ds dw1 (out @ h) = Inr (dw', drop (length ps) ds, (out @ h) @ concat ps)" "chunks_of dw' = chunks_of dw1" "hdr dw' = hdr dw1"
    unfolding s(2) n(1) by blast
  have s': "dw_inv dw'" "store_abs dw' = store_abs dw" using r(1) c(2) big.prems(1) by (simp_all add: chunks_of_def)
  have "delivers x (store_abs dw) (drop (length ps) ds) dl"
    using big.prems(5) unfolding delivers_def by (auto simp: list_all2_append2 dest: list_all2_lengthD)
  with big.IH [of dw' hs' segs' "drop (length ps) ds" "out @ h @ concat ps"] s' r(1-4) c r(5) show ?case
    by (subst rwhile_unfold) (simp add: guard_ok [OF big.prems(2) hl big.hyps(1)])
qed

section \<open>Correctness\<close>

definition buffer_idle :: "dataWrite \<Rightarrow> bool" where
  "buffer_idle dw \<longleftrightarrow> MultiHeaderChunkSize dw = MultiHeaderOffset dw \<and> MultiHeaderOffset dw \<le> length (MultiHeaderBuffer dw)"

text \<open>
  \<open>restoreHeaderFile\<close> ends and writes the archive that the header segments and the data chunks of the recipes
  describe: every header is followed by the chunk, or the chunks, it announces.  It keeps the store and the
  recipes.
\<close>

theorem restoreHeaderFile_weaves:
  assumes "dw_inv dw" "buffer_idle dw" "writable dw (restore_path name)"
    and "delivers x (store_abs dw) (RecipeMap_header dw name) segs" "segments_ok segs" "delivers x (store_abs dw) (RecipeMap dw name) ds"
    and "woven hs ds f" "concat segs = concat hs"
  shows "\<exists>dw'. restoreHeaderFile x name dw = Some (Inr dw') \<and> fs dw' (restore_path name) = Some f \<and> recipes dw' = recipes dw
    \<and> MultiHeaderChunkSize dw' = MultiHeaderOffset dw'"
proof -
  have "headers_left segs (hdr dw) (concat hs)" using assms(2,8) by (simp add: headers_left_def hdr_def buffer_idle_def slice_def)
  from restore_loop [OF assms(7,1,4,5) this assms(6), of "[]"] obtain dw' where
    r: "rwhile restore_header_guard (\<lambda>s. Some (restore_header_body x s)) (dw, RecipeMap_header dw name, RecipeMap dw name, []) = Some (Inr (dw', [], [], f))"
      "chunks_of dw' = chunks_of dw" "MultiHeaderChunkSize dw' = MultiHeaderOffset dw'" by auto
  have "recipes dw' = recipes dw" using r(2) by (simp add: chunks_of_def)
  moreover have "writable dw' = writable dw" using calculation by (simp add: recipes_def)
  ultimately show ?thesis using r(1,3) assms(3) by (simp add: restoreHeaderFile_def write_restored_def recipes_def)
qed

text \<open>An archive with one file of two bytes (and no padding).\<close>

definition tiny_header :: "byte list" where
  "tiny_header = replicate 124 0 @ replicate 10 48 @ [50] @ replicate 21 0 @ [REGTYPE] @ replicate 355 0"

lemma tiny_header_fields: "length tiny_header = 512" "mem_at tiny_header 0 156 = REGTYPE" "tar_size (mem_at tiny_header 0) = 2"
proof -
  show "length tiny_header = 512" by (simp add: tiny_header_def)
  show "mem_at tiny_header 0 156 = REGTYPE" by (simp add: mem_at_def tiny_header_def nth_append)
  have m: "mem_at tiny_header 0 (124 + i) = (if i = 10 then 50 else 48)" if "i < 11" for i
    using that by (auto simp: mem_at_def tiny_header_def nth_append nth_Cons')
  have "tar_size (mem_at tiny_header 0) = fold (\<lambda>i n. n * 8 + ucast (if i = 10 then 50 else 48 :: byte) - 48) [0..<11] 0"
    unfolding tar_size_def by (rule fold_cong) (simp_all add: m)
  also have "\<dots> = 2" by (simp add: upt_rec)
  finally show "tar_size (mem_at tiny_header 0) = 2" .
qed

lemma tiny_header_next: "length tiny_header = 512" "restore_next (mem_at tiny_header 0) = (FILE_CHUNK, 2)"
  using tiny_header_fields by (simp_all add: restore_next_def REGTYPE_def AREGTYPE_def size_consts)

theorem restoreHeaderFile_weaves_witness:
  "\<exists>dw dw'. RecipeMap_header dw ''a'' = [0] \<and> RecipeMap dw ''a'' = [1] \<and> restoreHeaderFile plain_env ''a'' dw = Some (Inr dw')
    \<and> fs dw' (restore_path ''a'') = Some (tiny_header @ [1, 2])"
proof -
  let ?c = "\<lambda>b. (new_Chunk b (length b) False)\<lparr>saveSize := length b, deltaFlag := NO_LZ4\<rparr>"
  let ?d0 = "dataWrite_new Map.empty (\<lambda>_. True)"
  have d0: "dw_inv ?d0" "store_abs ?d0 = []" "writable ?d0 = (\<lambda>_. True)"
    using dataWrite_new_inv [of "\<lambda>_. True" Map.empty] by (simp_all add: dataWrite_new_def Let_def)
  have raw: "\<exists>t. dw_inv t \<and> store_abs t = store_abs s @ [(core (?c b), b)] \<and> recipes t = recipes s" if "dw_inv s" "length b \<le> 600" for s b
    using store.raw_ok [OF that(1), of "?c b"] that(2) by (auto simp: new_Chunk_def size_consts)
  from raw [OF d0(1), of tiny_header] obtain d1 where d1: "dw_inv d1" "store_abs d1 = [(core (?c tiny_header), tiny_header)]" "recipes d1 = recipes ?d0"
    using d0(2) tiny_header_next(1) by auto
  from raw [OF d1(1), of "[1, 2]"] obtain d2 where
    d2: "dw_inv d2" "store_abs d2 = [(core (?c tiny_header), tiny_header), (core (?c [1, 2]), [1, 2])]" "recipes d2 = recipes ?d0"
    using d1(2,3) by auto
  let ?dw = "d2\<lparr>RecipeMap := (\<lambda>_. [1]), RecipeMap_header := (\<lambda>_. [0]), MultiHeaderBuffer := [], MultiHeaderChunkSize := 0, MultiHeaderOffset := 0\<rparr>"
  have "chunks_of (?dw\<lparr>RecipeMap := RecipeMap d2, RecipeMap_header := RecipeMap_header d2\<rparr>) = chunks_of d2"
    by (rule chunks_of_cong) (simp_all add: same_containers_def recipes_def)
  moreover have "dw_inv ?dw = dw_inv (?dw\<lparr>RecipeMap := r, RecipeMap_header := k\<rparr>)" "store_abs ?dw = store_abs (?dw\<lparr>RecipeMap := r, RecipeMap_header := k\<rparr>)" for r k
    by (simp_all add: dw_inv_def cur_ok_def cache_ok_def placed_def file_ok_def container_data_def store_abs_def entry_def [abs_def] payload_def)
  ultimately have inv: "dw_inv ?dw" "store_abs ?dw = store_abs d2" using d2(1) unfolding chunks_of_def by (metis prod.inject)+
  have cont: "base_ok (store_abs d2) 0 \<and> content plain_env (store_abs d2) 0 = Inr tiny_header"
    "base_ok (store_abs d2) 1 \<and> content plain_env (store_abs d2) 1 = Inr [1, 2]"
    by (simp_all add: d2(2) base_ok_def content_def decode_def read_ptr_def new_Chunk_def)
  have "woven [tiny_header] [[1, 2]] (tiny_header @ [1, 2] @ [])"
    by (rule woven.small) (simp_all add: tiny_header_next woven.fin)
  moreover have "writable ?dw (restore_path ''a'')" using d2(3) d0(3) by (simp add: recipes_def)
  moreover have "tiny_header \<noteq> []" using tiny_header_next(1) by auto
  ultimately obtain dw' where "restoreHeaderFile plain_env ''a'' ?dw = Some (Inr dw')" "fs dw' (restore_path ''a'') = Some (tiny_header @ [1, 2])"
    using restoreHeaderFile_weaves [of ?dw "''a''" plain_env "[tiny_header]" "[[1, 2]]" "[tiny_header]" "tiny_header @ [1, 2]"] inv cont
    by (auto simp: delivers_def buffer_idle_def segments_ok_def tiny_header_next)
  then show ?thesis by (intro exI [of _ ?dw] exI [of _ dw']) simp
qed

end
