(* ===== verification/TarSegments.thy ===== *)
theory TarSegments
  imports TarRestore
begin

text \<open>
  Mode 4 of the chunker: \<open>CutPointTarHeader\<close> collects the headers of an archive in segments of up to sixteen and pushes
  the data between them as chunks of their own.  Segments and chunks describe the archive (\<open>woven\<close>), so that
  \<open>restoreHeaderFile\<close> puts it together again.
\<close>

section \<open>Archives\<close>

text \<open>
  An archive with whole headers and whole files.  Size fields hold at most eleven octal digits, and a header with type flag
  NUL (as in the empty blocks at the end) has an empty one.  Small files leave room for their headers: sixteen of
  them with their headers are within the 64 MiB that \<open>Chunking\<close> keeps in the buffer.
\<close>

definition header_ok :: "(nat \<Rightarrow> byte) \<Rightarrow> bool" where
  "header_ok src \<longleftrightarrow> (if src 156 = AREGTYPE then dw_tar_raw_size src = 0
     else src 156 \<in> {REGTYPE, XHDTYPE, GNUTYPE_LONGNAME} \<longrightarrow> tar_size src < 2 ^ 33)"

function tar_whole :: "byte list \<Rightarrow> nat \<Rightarrow> bool" where
  "tar_whole f p =
     (if p < length f then p + 512 \<le> length f \<and> next_header f p \<le> length f \<and> header_ok (mem_at f p)
        \<and> (fst (tar_next (mem_at f p)) = FILE_CHUNK \<longrightarrow> snd (tar_next (mem_at f p)) \<le> CONTAINER_MAX_SIZE - 512)
        \<and> tar_whole f (next_header f p)
      else True)"
  by pat_completeness auto
termination
  by (relation "measure (\<lambda>(f, p). length f - p)") (auto simp: next_header_def after_header_def)

declare tar_whole.simps [simp del]

lemma tar_whole_fits: "tar_whole f p \<Longrightarrow> tar_fits True f p"
proof (induction f p rule: tar_whole.induct)
  case (1 f p)
  show ?case
  proof (cases "p < length f")
    case True
    with 1 show ?thesis
      by (subst tar_fits.simps, subst (asm) tar_whole.simps) (auto split: FILE_TYPE_OPTION.split)
  qed simp
qed

text \<open>What the chunker and the restoring routine read in such a header is the same.\<close>

lemma round512_33: "n < 2 ^ 33 \<Longrightarrow> unat (round512 n) = (unat n + 511) div 512 * 512"
  by (simp add: word_less_nat_alt round512_def unat_word_ariths unat_div)

lemma round512_zero: "n < 2 ^ 33 \<Longrightarrow> unat (round512 n) = 0 \<longleftrightarrow> n = 0"
  by (auto simp: round512_33 unat_eq_0 [symmetric])

lemma tar_next_restore:
  assumes "header_ok src" "tar_next src = (t, n)"
  shows "fst (restore_next src) = t" "t \<noteq> FILE_HEADER \<Longrightarrow> n = unat (round512 (snd (restore_next src)))"
    "t \<noteq> FILE_HEADER \<Longrightarrow> n = 0 \<longleftrightarrow> snd (restore_next src) = 0" "t = BIG_CHUNK \<Longrightarrow> n \<noteq> 0"
  using assms round512_zero [of "tar_size src"] round512_zero [of 0]
  by (auto simp: header_ok_def tar_next_def restore_next_def Let_def tar_flags size_consts split: if_splits)

section \<open>What has been pushed\<close>

lemma woven_append: "woven hs ds f \<Longrightarrow> woven hs' ds' f' \<Longrightarrow> woven (hs @ hs') (ds @ ds') (f @ f')"
proof (induction rule: woven.induct)
  case (bare h hs ds f)
  then show ?case using woven.bare [of h "hs @ hs'" "ds @ ds'" "f @ f'"] by simp
next
  case (small h hs ds f d)
  then show ?case using woven.small [of h "hs @ hs'" "ds @ ds'" "f @ f'" d] by simp
next
  case (big h ps hs ds f)
  then show ?case using woven.big [of h ps "hs @ hs'" "ds @ ds'" "f @ f'"] by simp
qed simp

text \<open>The headers \<open>H\<close> and the data chunks \<open>D\<close> have been cut; together with what is left they are all headers and all data.\<close>

definition laid :: "byte list \<Rightarrow> nat \<Rightarrow> nat \<Rightarrow> byte list \<Rightarrow> byte list list \<Rightarrow> bool" where
  "laid f p n H D \<longleftrightarrow> H @ tar_headers f (p + n) = tar_headers f 0
     \<and> concat D @ slice p n f @ tar_data f (p + n) = tar_data f 0"

lemma laid_header:
  assumes "laid f p 0 H D" "p + 512 \<le> length f" "tar_next (mem_at f p) = (t, n)"
  shows "laid f (p + 512) n (H @ slice p 512 f) D"
proof -
  have "tar_headers f p = slice p 512 f @ tar_headers f (p + 512 + n)" "tar_data f p = slice (p + 512) n f @ tar_data f (p + 512 + n)"
    unfolding tar_headers.simps [of f p] tar_data.simps [of f p] next_header_def after_header_def assms(3) using assms(2) by simp_all
  then show ?thesis using assms(1) by (simp add: laid_def slice_def)
qed

lemma laid_data: "laid f p n H D \<Longrightarrow> k \<le> n \<Longrightarrow> laid f (p + k) (n - k) H (if k = 0 then D else D @ [slice p k f])"
proof (cases "k = 0")
  case False
  assume "laid f p n H D" "k \<le> n"
  with False show ?thesis unfolding laid_def slice_split [OF \<open>k \<le> n\<close>, of p f] by simp
qed simp

text \<open>
  At position \<open>p\<close> the headers \<open>H\<close> and the data chunks \<open>D\<close> have been cut; \<open>n\<close> bytes of the current part, of kind \<open>t\<close>, are
  left.
\<close>

definition progress :: "byte list \<Rightarrow> nat \<Rightarrow> FILE_TYPE_OPTION \<Rightarrow> nat \<Rightarrow> byte list \<Rightarrow> byte list list \<Rightarrow> bool" where
  "progress f p t n H D \<longleftrightarrow> laid f p n H D \<and> p + n \<le> length f \<and> tar_whole f (p + n) \<and>
     (if t = FILE_HEADER then n = 0 \<and> (\<exists>hs. woven hs D (take p f) \<and> concat hs = H)
      else \<exists>hs ds q ps. woven hs ds (take q f) \<and> H = concat hs @ slice q 512 f \<and> D = ds @ ps \<and> [] \<notin> set ps
        \<and> p = q + 512 + length (concat ps) \<and> slice (q + 512) (length (concat ps)) f = concat ps \<and> header_ok (mem_at f q)
        \<and> tar_next (mem_at f q) = (t, length (concat ps) + n)
        \<and> (if t = FILE_CHUNK then ps = [] \<and> n \<le> CONTAINER_MAX_SIZE - 512 else n \<noteq> 0))"

lemma restore_next_slice: "restore_next (mem_at (slice q 512 f) 0) = restore_next (mem_at f q)" if "q + 512 \<le> length f"
  using that by (intro restore_next_local) (simp add: mem_at_def slice_def)

text \<open>A part that has been cut to its end closes the entry.\<close>

lemma progress_close:
  assumes "woven hs ds (take q f)" "header_ok (mem_at f q)" "tar_next (mem_at f q) = (t, length (concat ps))" "[] \<notin> set ps"
    "laid f (q + 512 + length (concat ps)) 0 (concat hs @ slice q 512 f) (ds @ ps)"
    "t = FILE_CHUNK \<Longrightarrow> length ps \<le> 1" "t = FILE_HEADER \<Longrightarrow> ps = []"
    "q + 512 + length (concat ps) \<le> length f" "slice (q + 512) (length (concat ps)) f = concat ps" "tar_whole f (q + 512 + length (concat ps))"
  shows "progress f (q + 512 + length (concat ps)) FILE_HEADER 0 (concat hs @ slice q 512 f) (ds @ ps)"
proof -
  let ?h = "slice q 512 f" and ?n = "length (concat ps)"
  note r = tar_next_restore [OF assms(2,3)] and m = restore_next_slice [of q f]
  have l: "length ?h = 512" using assms(8) by (simp add: slice_length)
  have "woven [?h] ps (?h @ concat ps)"
  proof (cases t)
    case FILE_HEADER
    then show ?thesis using woven.bare [of ?h "[]" "[]" "[]"] l m r(1) assms(7,8) woven.fin by simp
  next
    case FILE_CHUNK
    with assms(4,6) consider "ps = []" | d where "ps = [d]" "d \<noteq> []" by (cases ps) auto
    then show ?thesis
    proof cases
      case 1
      then show ?thesis using woven.bare [of ?h "[]" "[]" "[]"] l m r(3) FILE_CHUNK assms(8) woven.fin by simp
    next
      case 2
      then show ?thesis using woven.small [of ?h "[]" "[]" "[]" d] l m r(1,3) FILE_CHUNK assms(8) woven.fin by simp
    qed
  next
    case BIG_CHUNK
    then have "ps \<noteq> []" using r(4) by auto
    then show ?thesis using woven.big [of ?h ps "[]" "[]" "[]"] l m r(1,2) BIG_CHUNK assms(4,8) woven.fin by simp
  qed
  from woven_append [OF assms(1) this] have "woven (hs @ [?h]) (ds @ ps) (take q f @ ?h @ concat ps)" by simp
  moreover have "take q f @ ?h @ concat ps = take (q + 512 + ?n) f"
    using assms(9) by (metis append.assoc slice_def take_add)
  ultimately have "woven (hs @ [?h]) (ds @ ps) (take (q + 512 + ?n) f)" by metis
  then show ?thesis using assms(5,8,10) by (auto simp: progress_def intro!: exI [of _ "hs @ [?h]"])
qed

lemma progress_header:
  assumes "progress f p FILE_HEADER 0 H D" "p < length f" "tar_next (mem_at f p) = (t, n)"
  shows "progress f (p + 512) t n (H @ slice p 512 f) D"
proof -
  from assms(1) obtain hs where w: "woven hs D (take p f)" "concat hs = H" "tar_whole f p" by (auto simp: progress_def)
  have "next_header f p = p + 512 + n" if "p + 512 \<le> length f" using that assms(3) by (simp add: next_header_def after_header_def)
  with w(3) [unfolded tar_whole.simps [of f p]] assms(2,3) have b: "p + 512 \<le> length f" "p + 512 + n \<le> length f" "header_ok (mem_at f p)" "tar_whole f (p + 512 + n)"
    "t = FILE_CHUNK \<longrightarrow> n \<le> CONTAINER_MAX_SIZE - 512"
    by simp_all
  have la: "laid f (p + 512) n (H @ slice p 512 f) D" using assms(1,3) b(1) by (auto simp: progress_def intro: laid_header)
  show ?thesis
  proof (cases "t = FILE_HEADER")
    case True
    then have "n = 0" using assms(3) by (auto simp: tar_next_def Let_def split: if_splits)
    with True progress_close [of hs D p f t "[]"] w b assms(3) la show ?thesis by (simp add: slice_def)
  next
    case False
    then have "if t = FILE_CHUNK then [] = [] \<and> n \<le> CONTAINER_MAX_SIZE - 512 else n \<noteq> 0"
      using b(5) tar_next_restore(4) [OF b(3) assms(3)] by (cases t) simp_all
    then have "\<exists>hs ds q ps. woven hs ds (take q f) \<and> H @ slice p 512 f = concat hs @ slice q 512 f \<and> D = ds @ ps \<and> [] \<notin> set ps
        \<and> p + 512 = q + 512 + length (concat ps) \<and> slice (q + 512) (length (concat ps)) f = concat ps \<and> header_ok (mem_at f q)
        \<and> tar_next (mem_at f q) = (t, length (concat ps) + n)
        \<and> (if t = FILE_CHUNK then ps = [] \<and> n \<le> CONTAINER_MAX_SIZE - 512 else n \<noteq> 0)"
      using w(1,2) b(3) assms(3) by (intro exI [of _ hs] exI [of _ D] exI [of _ p] exI [of _ "[]"]) (simp add: slice_def)
    then show ?thesis using False b(2,4) la by (simp add: progress_def)
  qed
qed

lemma progress_chunk:
  assumes "progress f p FILE_CHUNK n H D"
  shows "progress f (p + n) FILE_HEADER 0 H (if n = 0 then D else D @ [slice p n f])"
proof -
  from assms obtain hs q where w: "woven hs D (take q f)" "H = concat hs @ slice q 512 f" "p + n \<le> length f" "tar_whole f (p + n)"
    "header_ok (mem_at f q)" "tar_next (mem_at f q) = (FILE_CHUNK, n)" "p = q + 512" "laid f p n H D"
    by (auto simp: progress_def slice_def)
  have la: "laid f (p + n) 0 H (if n = 0 then D else D @ [slice p n f])" using laid_data [OF w(8), of n] by simp
  have "length (slice p n f) = n" using w(3) by (simp add: slice_length)
  moreover from this have "n \<noteq> 0 \<Longrightarrow> [] \<noteq> slice p n f" by auto
  ultimately show ?thesis
    using progress_close [OF w(1,5), of FILE_CHUNK "if n = 0 then [] else [slice p n f]"] w(2-4,6,7) la by auto
qed

lemma progress_big:
  assumes "progress f p BIG_CHUNK n H D" "0 < k" "k \<le> n"
  shows "progress f (p + k) (if k = n then FILE_HEADER else BIG_CHUNK) (n - k) H (D @ [slice p k f])"
proof -
  from assms(1) obtain hs ds q ps where w: "woven hs ds (take q f)" "H = concat hs @ slice q 512 f" "p + n \<le> length f" "tar_whole f (p + n)"
    "header_ok (mem_at f q)" "tar_next (mem_at f q) = (BIG_CHUNK, length (concat ps) + n)" "D = ds @ ps" "[] \<notin> set ps"
    "p = q + 512 + length (concat ps)" "slice (q + 512) (length (concat ps)) f = concat ps" "laid f p n H D"
    by (auto simp: progress_def)
  let ?ps = "ps @ [slice p k f]"
  have l: "length (concat ?ps) = length (concat ps) + k" using w(3) assms(3) by (simp add: slice_length)
  have la: "laid f (p + k) (n - k) H (D @ [slice p k f])" using laid_data [OF w(11) assms(3)] assms(2) by simp
  have c: "slice (q + 512) (length (concat ?ps)) f = concat ?ps"
    unfolding l using w(9,10) slice_split [of "length (concat ps)" "length (concat ps) + k" "q + 512" f] by simp
  have ne: "[] \<notin> set ?ps" using w(3,8) assms(2,3) by (auto simp: slice_def)
  have pos: "p + k = q + 512 + length (concat ?ps)" using l w(9) by simp
  show ?thesis
  proof (cases "k = n")
    case True
    with w(6) l have "tar_next (mem_at f q) = (BIG_CHUNK, length (concat ?ps))" by simp
    from progress_close [OF w(1,5) this ne _ _ _ _ c] w(2-4,7) pos la True show ?thesis by simp
  next
    case False
    have "tar_next (mem_at f q) = (BIG_CHUNK, length (concat ?ps) + (n - k))" unfolding l using w(6) assms(3) by simp
    with w(1,2,5,7) ne pos c have "\<exists>hs ds q ps. woven hs ds (take q f) \<and> H = concat hs @ slice q 512 f \<and> D @ [slice p k f] = ds @ ps
        \<and> [] \<notin> set ps \<and> p + k = q + 512 + length (concat ps) \<and> slice (q + 512) (length (concat ps)) f = concat ps \<and> header_ok (mem_at f q)
        \<and> tar_next (mem_at f q) = (BIG_CHUNK, length (concat ps) + (n - k))"
      by (intro exI [of _ hs] exI [of _ ds] exI [of _ q] exI [of _ ?ps]) simp
    with False assms(3) w(3,4) la show ?thesis by (simp add: progress_def)
  qed
qed

section \<open>The cuts\<close>

text \<open>A cut of \<open>cp\<close> bytes at \<open>p\<close> takes the chunker from \<open>c\<close> to \<open>c'\<close>: progress is made with the header or the chunk that was cut.\<close>

definition tar_moves :: "byte list \<Rightarrow> nat \<Rightarrow> Chunker \<Rightarrow> nat \<Rightarrow> Chunker \<Rightarrow> bool" where
  "tar_moves f p c cp c' \<longleftrightarrow> (\<forall>H D. progress f p (Next_Chunk_Type c) (part_left c) H D \<longrightarrow>
     progress f (p + cp) (Next_Chunk_Type c') (part_left c') (if Next_Chunk_Type c = FILE_HEADER then H @ slice p cp f else H)
       (if Next_Chunk_Type c = FILE_HEADER \<or> cp = 0 then D else D @ [slice p cp f]))"

lemma cut_header:
  assumes "CutPointTarFast c src len = (cp, c')" "Next_Chunk_Type c = FILE_HEADER" "in_view f p src len" "tar_whole f p"
  shows "cp = 512" "cp \<le> len" "tar_moves f p c cp c'"
proof -
  have v: "p < length f" "p + len \<le> length f" "CONTAINER_MAX_SIZE \<le> len \<or> p + len = length f" "\<forall>i<512. src i = mem_at f p i"
    using assms(3) by (auto simp: in_view_def)
  with assms(4) show len: "cp \<le> len" "cp = 512"
    using assms(1,2) by (auto simp: CutPointTarFast_def tar_whole.simps [of f p] size_consts)
  have "c' = tar_header src c" using assms(1,2) by (simp add: CutPointTarFast_def)
  then have "tar_next (mem_at f p) = (Next_Chunk_Type c', part_left c')"
    using tar_header_next [OF assms(2), of src] tar_next_cong [OF v(4)] by (simp add: prod_eq_iff)
  with progress_header [OF _ v(1) this] show "tar_moves f p c cp c'"
    using assms(2) len(2) by (simp add: tar_moves_def part_left_header)
qed

lemma cut_chunk:
  assumes "CutPointTarFast c src len = (cp, c')" "Next_Chunk_Type c = FILE_CHUNK" "part_left c \<le> len"
  shows "cp = part_left c" "Next_Chunk_Type c' = FILE_HEADER" "tar_moves f p c cp c'"
proof -
  show r: "cp = part_left c" "Next_Chunk_Type c' = FILE_HEADER"
    using assms by (auto simp: CutPointTarFast_def part_left_def Let_def)
  then show "tar_moves f p c cp c'" using progress_chunk assms(2) by (simp add: tar_moves_def part_left_header)
qed

lemma cut_big:
  assumes "CutPointTarFast c src len = (cp, c')" "Next_Chunk_Type c = BIG_CHUNK" "in_view f p src len"
    and pr: "progress f p BIG_CHUNK (part_left c) H D" and cdc: "cdc_ok c" "maxChunkSize c \<le> CONTAINER_MAX_SIZE"
  shows "0 < cp" "cp \<le> maxChunkSize c" "cp \<le> len" "Next_Chunk_Type c' \<noteq> FILE_CHUNK" "tar_moves f p c cp c'"
proof -
  let ?r = "Big_Chunk_Size c - Big_Chunk_Offset c"
  have m: "unat (of_nat (maxChunkSize c) :: u64) = maxChunkSize c"
    using cdc(2) by (simp add: unat_of_nat size_consts take_bit_nat_eq_self)
  have left: "part_left c = unat ?r" "part_left c \<noteq> 0" "p + part_left c \<le> length f" "tar_whole f (p + part_left c)"
    using pr assms(2) by (auto simp: part_left_def progress_def)
  from left assms(2) tar_whole_fits have "part_ok True f p c" by (simp add: part_ok_def)
  from CutPointTarFast_step [OF assms(1,3) this cdc] have st: "cp \<le> len" "cp \<le> part_left c"
    "part_left c' = part_left c - cp \<or> p + cp = length f \<and> part_left c' = 0" using assms(2) by (simp_all add: moves_def)
  then have left': "part_left c' = part_left c - cp" using left(3) by auto
  have "0 < cp \<and> cp \<le> maxChunkSize c \<and> Next_Chunk_Type c' = (if cp = part_left c then FILE_HEADER else BIG_CHUNK)"
  proof (cases "?r > of_nat (maxChunkSize c)")
    case True
    then have "maxChunkSize c < part_left c" using m left(1) by (simp add: word_less_nat_alt)
    then show ?thesis using CutPointFastCDC_bounds [OF cdc(1), of "unat ?r" src] cdc(1) assms(1,2) True left(1)
      by (auto simp: CutPointTarFast_def Let_def cdc_ok_def)
  next
    case False
    then have "part_left c \<le> maxChunkSize c" using m left(1) by (simp add: word_less_nat_alt not_less)
    then show ?thesis using assms(1,2) False left(1,2) by (auto simp: CutPointTarFast_def Let_def)
  qed
  then show r: "0 < cp" "cp \<le> maxChunkSize c" "cp \<le> len" "Next_Chunk_Type c' \<noteq> FILE_CHUNK" using st(1) by simp_all
  show "tar_moves f p c cp c'"
    using progress_big [OF _ r(1) st(2)] left' assms(2) r(1) \<open>0 < cp \<and> _\<close> by (auto simp: tar_moves_def split: if_splits)
qed

section \<open>A segment\<close>

definition hsegs :: "Chunk_t list \<Rightarrow> byte list list" where "hsegs out = map chunkPtr (filter HeaderFlag out)"
definition hdata :: "Chunk_t list \<Rightarrow> byte list list" where "hdata out = map chunkPtr (filter (\<lambda>ch. \<not> HeaderFlag ch) out)"

lemma hsegs_append [simp]: "hsegs (out @ out') = hsegs out @ hsegs out'" and hdata_append [simp]: "hdata (out @ out') = hdata out @ hdata out'"
  by (simp_all add: hsegs_def hdata_def)

lemma hsegs_Nil [simp]: "hsegs [] = []" "hdata [] = []"
  by (simp_all add: hsegs_def hdata_def)

lemma hsegs_single [simp]: "hsegs [new_Chunk p n h] = (if h then [p] else [])" "hdata [new_Chunk p n h] = (if h then [] else [p])"
  by (simp_all add: hsegs_def hdata_def new_Chunk_def)

definition small_chunk :: "Chunk_t \<Rightarrow> bool" where
  "small_chunk ch \<longleftrightarrow> chunk_wf ch \<and> chunkSize ch \<le> CONTAINER_MAX_SIZE"

text \<open>The chunker at \<open>p\<close>; \<open>H\<close> are the headers that wait in the header buffer.\<close>

definition seg_state :: "byte list \<Rightarrow> nat \<Rightarrow> Chunker \<Rightarrow> byte list \<Rightarrow> bool" where
  "seg_state f p c H \<longleftrightarrow> chunkType c = TAR_MultiHeader \<and> cdc_ok c \<and> maxChunkSize c = MAX_CHUNK_SIZE
     \<and> list_all small_chunk (outputMQ c) \<and> segments_ok (hsegs (outputMQ c))
     \<and> progress f p (Next_Chunk_Type c) (part_left c) (concat (hsegs (outputMQ c)) @ H) (hdata (outputMQ c))"

definition room :: "Chunker \<Rightarrow> nat" where
  "room c = (case Next_Chunk_Type c of FILE_HEADER \<Rightarrow> 0 | FILE_CHUNK \<Rightarrow> part_left c | BIG_CHUNK \<Rightarrow> CONTAINER_MAX_SIZE - 512)"

definition open_segment :: "byte list \<Rightarrow> nat \<Rightarrow> nat \<Rightarrow> nat \<Rightarrow> Chunker \<Rightarrow> nat \<Rightarrow> bool" where
  "open_segment f tot off len c k \<longleftrightarrow> seg_state f (tot + off + k) c (take (HeaderCp c) (headerBuffer c)) \<and> localOffset c = off
     \<and> HeaderCp c \<le> length (headerBuffer c) \<and> HeaderCp c \<le> MultiHeaderSize \<and> 512 dvd HeaderCp c \<and> HeaderCp c \<le> k \<and> k \<le> len
     \<and> (Next_Chunk_Type c = FILE_CHUNK \<longrightarrow> localType c = FILE_HEADER) \<and> k + room c \<le> HeaderCp c * 8192"

lemma cut_frame:
  assumes "CutPointTarFast (c\<lparr>localType := lt\<rparr>) src len = (cp, c')"
  shows "chunkType c' = chunkType c" "cdc_ok c' = cdc_ok c" "maxChunkSize c' = maxChunkSize c" "outputMQ c' = outputMQ c"
    "HeaderCp c' = HeaderCp c" "headerBuffer c' = headerBuffer c" "localType c' = lt" "localOffset c' = localOffset c"
  using CutPointTarFast_frame [OF assms] assms
  by (auto simp: CutPointTarFast_def Let_def tar_header_def split: FILE_TYPE_OPTION.splits if_splits)

lemma room_le: "seg_state f p c H \<Longrightarrow> room c \<le> CONTAINER_MAX_SIZE - 512"
  by (auto simp: seg_state_def progress_def room_def split: FILE_TYPE_OPTION.split)

text \<open>The end of the buffer is met only between two entries.\<close>

lemma hdr_full:
  assumes "open_segment f tot off len c len" "CONTAINER_MAX_SIZE * 16 \<le> len \<or> tot + off + len = length f"
  shows "open_segment f tot off len (c\<lparr>Next_Chunk_Type := FILE_HEADER\<rparr>) len"
proof -
  let ?p = "tot + off + len" and ?H = "concat (hsegs (outputMQ c)) @ take (HeaderCp c) (headerBuffer c)"
  have pr: "progress f ?p (Next_Chunk_Type c) (part_left c) ?H (hdata (outputMQ c))"
    and rm: "len + room c \<le> HeaderCp c * 8192" "HeaderCp c \<le> 8192"
    using assms(1) by (simp_all add: open_segment_def seg_state_def size_consts)
  have "progress f ?p FILE_HEADER 0 ?H (hdata (outputMQ c))"
  proof (cases "Next_Chunk_Type c")
    case FILE_HEADER
    with pr show ?thesis by (simp add: part_left_header)
  next
    case FILE_CHUNK
    then have "part_left c = 0" using rm assms(2) pr by (auto simp: room_def size_consts progress_def)
    with progress_chunk [of f ?p 0] pr FILE_CHUNK show ?thesis by simp
  next
    case BIG_CHUNK
    then have False using rm assms(2) pr by (auto simp: room_def size_consts progress_def)
    then show ?thesis ..
  qed
  then show ?thesis using assms(1) by (simp add: open_segment_def seg_state_def room_def part_left_header cdc_ok_def)
qed

lemma header_upd [simp]:
  "part_left (c\<lparr>headerBuffer := b\<rparr>) = part_left c" "part_left (c\<lparr>HeaderCp := n\<rparr>) = part_left c"
  "cdc_ok (c\<lparr>headerBuffer := b\<rparr>) = cdc_ok c" "cdc_ok (c\<lparr>HeaderCp := n\<rparr>) = cdc_ok c"
  by (cases "Next_Chunk_Type c"; simp add: part_left_def cdc_ok_def)+

lemma view:
  assumes "buf = slice tot READ_FILE_SIZE f" "len = length buf - off" "k < len" "CONTAINER_MAX_SIZE \<le> len - k \<or> tot + off + len = length f"
  shows "in_view f (tot + off + k) (mem_at buf (off + k)) (len - k)"
  using in_view_buffer [OF assms(1), of "off + k" CONTAINER_MAX_SIZE] assms(2-4) by (simp add: add.assoc)

lemma open_header_step:
  assumes st: "open_segment f tot off len c k" "Next_Chunk_Type c = FILE_HEADER" "HeaderCp c < MultiHeaderSize" "k < len"
    and buf: "buf = slice tot READ_FILE_SIZE f" "len = length buf - off" "CONTAINER_MAX_SIZE * 16 \<le> len \<or> tot + off + len = length f"
  shows "\<exists>c'. open_segment f tot off len c' (k + 512) \<and> hdr_body buf off len c k
    = Inr (if k + 512 = len then (c'\<lparr>Next_Chunk_Type := FILE_HEADER\<rparr>, k + 512, True) else (c', k + 512, False))"
proof -
  let ?p = "tot + off + k" and ?c = "c\<lparr>localType := FILE_HEADER\<rparr>"
  have i: "seg_state f ?p c (take (HeaderCp c) (headerBuffer c))" "localOffset c = off" "HeaderCp c \<le> length (headerBuffer c)"
    "512 dvd HeaderCp c" "HeaderCp c \<le> k" "k \<le> HeaderCp c * 8192"
    using st(1) by (simp_all add: open_segment_def)
  have h: "HeaderCp c + 512 \<le> 8192" using st(3) i(4) unfolding size_consts dvd_def by auto
  then have "CONTAINER_MAX_SIZE \<le> len - k \<or> tot + off + len = length f" using buf(3) i(6) by (auto simp: size_consts)
  note v = view [OF buf(1,2) st(4) this]
  obtain cp c1 where cut: "CutPointTarFast ?c (mem_at buf (off + k)) (len - k) = (cp, c1)" by (cases "CutPointTarFast ?c (mem_at buf (off + k)) (len - k)")
  have "tar_whole f ?p" using i(1) st(2) by (auto simp: seg_state_def progress_def)
  note m = cut_header [OF cut _ v this] and fr = cut_frame [OF cut]
  have cp: "cp = 512" "k + 512 \<le> len" using m(1,2) st(2,4) by simp_all
  have lb: "length buf \<le> READ_FILE_SIZE" using buf(1) by (simp add: slice_length)
  have u: "usub64 len k = len - k" "off + k + 512 \<le> length buf" "off + k + 512 \<le> READ_FILE_SIZE"
    using st(4) buf(2) cp(2) lb by (simp_all add: size_consts)
  have sl: "slice (off + k) 512 buf = slice ?p 512 f" using slice_buffer [OF buf(1) u(2)] by (simp add: add.assoc)
  let ?c' = "c1\<lparr>headerBuffer := overwrite (HeaderCp c) (slice ?p 512 f) (headerBuffer c), HeaderCp := HeaderCp c + 512\<rparr>"
  have l: "length (slice ?p 512 f) = 512" using sl u(2) by (simp add: slice_length flip: sl)
  have tk: "take (HeaderCp c + 512) (overwrite (HeaderCp c) (slice ?p 512 f) (headerBuffer c)) = take (HeaderCp c) (headerBuffer c) @ slice ?p 512 f"
    using take_overwrite [OF i(3), of "slice ?p 512 f"] l by simp
  have "progress f (?p + 512) (Next_Chunk_Type c1) (part_left c1)
      ((concat (hsegs (outputMQ c)) @ take (HeaderCp c) (headerBuffer c)) @ slice ?p 512 f) (hdata (outputMQ c))"
    using m(3) cp(1) i(1) st(2) by (simp add: tar_moves_def seg_state_def del: append_assoc)
  then have s': "seg_state f (tot + off + (k + 512)) ?c' (take (HeaderCp ?c') (headerBuffer ?c'))"
    unfolding add.assoc [of "tot + off", symmetric]
    using i(1) fr tk by (simp add: seg_state_def)
  have "open_segment f tot off len ?c' (k + 512)"
    unfolding open_segment_def using s' room_le [OF s'] fr i h l cp(2)
    by (simp add: size_consts overwrite_def)
  moreover have "hdr_body buf off len c k = Inr (if k + 512 = len then (?c'\<lparr>Next_Chunk_Type := FILE_HEADER\<rparr>, k + 512, True) else (?c', k + 512, False))"
    using st(2) cut u fr h cp(1) sl by (simp add: hdr_body_def Let_def buf_simps)
  ultimately show ?thesis by blast
qed

lemma open_chunk_step:
  assumes st: "open_segment f tot off len c k" "Next_Chunk_Type c = FILE_CHUNK" "k < len"
    and buf: "buf = slice tot READ_FILE_SIZE f" "len = length buf - off" "CONTAINER_MAX_SIZE * 16 \<le> len \<or> tot + off + len = length f"
  shows "\<exists>c' k'. open_segment f tot off len c' k' \<and> Next_Chunk_Type c' = FILE_HEADER \<and> k \<le> k' \<and> hdr_body buf off len c k
    = Inr (if k' = len then (c'\<lparr>Next_Chunk_Type := FILE_HEADER\<rparr>, k', True) else (c', k', False))"
proof -
  let ?p = "tot + off + k" and ?c = "c\<lparr>localType := FILE_CHUNK\<rparr>" and ?n = "part_left c"
  have i: "seg_state f ?p c (take (HeaderCp c) (headerBuffer c))" "localOffset c = off" "HeaderCp c \<le> length (headerBuffer c)"
    "HeaderCp c \<le> 8192" "512 dvd HeaderCp c" "HeaderCp c \<le> k" "k + ?n \<le> HeaderCp c * 8192" "?p + ?n \<le> length f" "?n \<le> CONTAINER_MAX_SIZE"
    using st(1,2) by (auto simp: open_segment_def room_def size_consts seg_state_def progress_def)
  then have n: "?n \<le> len - k" using buf(3) by (auto simp: size_consts)
  obtain cp c1 where cut: "CutPointTarFast ?c (mem_at buf (off + k)) (len - k) = (cp, c1)" by (cases "CutPointTarFast ?c (mem_at buf (off + k)) (len - k)")
  have m: "cp = ?n" "Next_Chunk_Type c1 = FILE_HEADER" "tar_moves f ?p ?c cp c1"
    using cut_chunk [OF cut] st(2) n by simp_all
  note fr = cut_frame [OF cut]
  have lb: "length buf \<le> READ_FILE_SIZE" using buf(1) by (simp add: slice_length)
  have u: "usub64 len k = len - k" "off + k + ?n \<le> length buf" "off + k + ?n \<le> READ_FILE_SIZE" "?n < 2 ^ 32"
    using st(3) buf(2) n lb by (simp_all add: size_consts)
  note sl = slice_buffer [OF buf(1) u(2)]
  let ?out = "if ?n = 0 then [] else [new_Chunk (slice ?p ?n f) ?n False]"
  let ?c' = "c1\<lparr>outputMQ := outputMQ c @ ?out\<rparr>"
  have "progress f (?p + ?n) FILE_HEADER (part_left c1) (concat (hsegs (outputMQ c)) @ take (HeaderCp c) (headerBuffer c)) (hdata (outputMQ c @ ?out))"
    using m i(1) st(2) by (auto simp: tar_moves_def seg_state_def)
  moreover have "list_all small_chunk ?out" using i(8,9) by (auto simp: small_chunk_def chunk_wf_def slice_def)
  ultimately have s': "seg_state f (tot + off + (k + ?n)) ?c' (take (HeaderCp ?c') (headerBuffer ?c'))"
    unfolding add.assoc [of "tot + off", symmetric] using i(1) fr m(2) by (cases "?n = 0") (simp_all add: seg_state_def)
  have "open_segment f tot off len ?c' (k + ?n)"
    unfolding open_segment_def using s' fr i n m(2) st(3) by (simp add: size_consts room_def)
  moreover have "hdr_body buf off len c k = Inr (if k + ?n = len then (?c'\<lparr>Next_Chunk_Type := FILE_HEADER\<rparr>, k + ?n, True) else (?c', k + ?n, False))"
    using st(2,3) cut u fr m(1) sl by (simp add: hdr_body_def Let_def buf_simps push_data_def size_consts add.assoc)
  ultimately show ?thesis using m(2) by (intro exI [of _ ?c'] exI [of _ "k + ?n"]) simp
qed

text \<open>The first loop of \<open>CutPointTarHeader\<close> fills a segment and leaves it between two entries or in front of a big file.\<close>

lemma hdr_loop:
  assumes st: "open_segment f tot off len c 0" "Next_Chunk_Type c = FILE_HEADER" "0 < len"
    and buf: "buf = slice tot READ_FILE_SIZE f" "len = length buf - off" "CONTAINER_MAX_SIZE * 16 \<le> len \<or> tot + off + len = length f"
  shows "\<exists>c' k stop. rwhile (\<lambda>(c, k, stop). \<not> stop \<and> hdr_guard c) (\<lambda>(c, k, stop). Some (hdr_body buf off len c k)) (c, 0, False)
      = Some (Inr (c', k, stop)) \<and> open_segment f tot off len c' k \<and> Next_Chunk_Type c' \<noteq> FILE_CHUNK \<and> 0 < HeaderCp c'"
proof -
  let ?P = "\<lambda>(c, k, stop). open_segment f tot off len c k \<and> (stop \<longleftrightarrow> k = len) \<and> (stop \<longrightarrow> Next_Chunk_Type c = FILE_HEADER)"
  let ?m = "\<lambda>(c, k, stop). 2 * (len - k) + (if Next_Chunk_Type c = FILE_HEADER then 0 else 1)"
  have "\<exists>t. rwhile (\<lambda>(c, k, stop). \<not> stop \<and> hdr_guard c) (\<lambda>(c, k, stop). Some (hdr_body buf off len c k)) (c, 0, False) = Some (Inr t)
      \<and> ?P t \<and> \<not> (case t of (c, k, stop) \<Rightarrow> \<not> stop \<and> hdr_guard c)"
  proof (rule rwhile_ok [where m = ?m])
    show "?P (c, 0, False)" using st by simp
    fix s assume P: "?P s" and g: "case s of (c, k, stop) \<Rightarrow> \<not> stop \<and> hdr_guard c"
    obtain d k stop where s: "s = (d, k, stop)" by (cases s)
    have d: "open_segment f tot off len d k" "k < len" using P g by (auto simp: s open_segment_def)
    show "\<exists>s'. (case s of (c, k, stop) \<Rightarrow> Some (hdr_body buf off len c k)) = Some (Inr s') \<and> ?P s' \<and> ?m s' < ?m s"
    proof (cases "Next_Chunk_Type d")
      case FILE_HEADER
      with g have "HeaderCp d < MultiHeaderSize" by (simp add: s hdr_guard_def)
      from open_header_step [OF d(1) FILE_HEADER this d(2) buf] obtain d' where
        r: "open_segment f tot off len d' (k + 512)" "hdr_body buf off len d k
          = Inr (if k + 512 = len then (d'\<lparr>Next_Chunk_Type := FILE_HEADER\<rparr>, k + 512, True) else (d', k + 512, False))" by blast
      have "k + 512 \<le> len" using r(1) by (simp add: open_segment_def)
      with r hdr_full [of f tot off len d'] buf(3) show ?thesis by (auto simp: s FILE_HEADER)
    next
      case FILE_CHUNK
      from open_chunk_step [OF d(1) FILE_CHUNK d(2) buf] obtain d' k' where
        r: "open_segment f tot off len d' k'" "Next_Chunk_Type d' = FILE_HEADER" "k \<le> k'" "hdr_body buf off len d k
          = Inr (if k' = len then (d'\<lparr>Next_Chunk_Type := FILE_HEADER\<rparr>, k', True) else (d', k', False))" by blast
      have "k' \<le> len" using r(1) by (simp add: open_segment_def)
      with r hdr_full [of f tot off len d'] buf(3) show ?thesis by (auto simp: s FILE_CHUNK)
    next
      case BIG_CHUNK
      with g show ?thesis by (simp add: s hdr_guard_def)
    qed
  qed
  then obtain c' k stop where r: "rwhile (\<lambda>(c, k, stop). \<not> stop \<and> hdr_guard c) (\<lambda>(c, k, stop). Some (hdr_body buf off len c k)) (c, 0, False)
      = Some (Inr (c', k, stop))" "open_segment f tot off len c' k" "stop \<longleftrightarrow> k = len" "stop \<longrightarrow> Next_Chunk_Type c' = FILE_HEADER" "stop \<or> \<not> hdr_guard c'"
    by auto
  have "0 < HeaderCp c' \<and> Next_Chunk_Type c' \<noteq> FILE_CHUNK"
  proof (cases stop)
    case True
    with r(2-4) st(3) show ?thesis by (auto simp: open_segment_def)
  next
    case False
    with r(2,5) show ?thesis
      by (cases "Next_Chunk_Type c'") (auto simp: open_segment_def hdr_guard_def room_def size_consts)
  qed
  with r(1,2) show ?thesis by blast
qed

text \<open>The second loop cuts a piece of a big file.\<close>

lemma big_loop:
  assumes st: "seg_state f (tot + off) c []" "Next_Chunk_Type c = BIG_CHUNK" "0 < len" "HeaderCp c = 0" "localOffset c = off"
    and buf: "buf = slice tot READ_FILE_SIZE f" "len = length buf - off" "CONTAINER_MAX_SIZE * 16 \<le> len \<or> tot + off + len = length f"
  shows "\<exists>c' k stop. rwhile (\<lambda>(c, k, stop). \<not> stop \<and> big_guard c k) (\<lambda>(c, k, stop). Some (big_body buf off len c k)) (c, 0, False)
      = Some (Inr (c', k, stop)) \<and> seg_state f (tot + off + k) c' [] \<and> Next_Chunk_Type c' \<noteq> FILE_CHUNK \<and> HeaderCp c' = 0 \<and> localOffset c' = off
      \<and> 0 < k \<and> k \<le> len"
proof -
  let ?P = "\<lambda>(c, k, stop). seg_state f (tot + off + k) c [] \<and> Next_Chunk_Type c \<noteq> FILE_CHUNK \<and> HeaderCp c = 0 \<and> localOffset c = off
    \<and> (stop \<longleftrightarrow> k = len) \<and> k \<le> len \<and> (k = 0 \<longrightarrow> Next_Chunk_Type c = BIG_CHUNK)"
  have lb: "length buf \<le> READ_FILE_SIZE" using buf(1) by (simp add: slice_length)
  have "\<exists>t. rwhile (\<lambda>(c, k, stop). \<not> stop \<and> big_guard c k) (\<lambda>(c, k, stop). Some (big_body buf off len c k)) (c, 0, False) = Some (Inr t)
      \<and> ?P t \<and> \<not> (case t of (c, k, stop) \<Rightarrow> \<not> stop \<and> big_guard c k)"
  proof (rule rwhile_ok [where m = "\<lambda>(c, k, stop). len - k"])
    show "?P (c, 0, False)" using st by simp
    fix s assume P: "?P s" and g: "case s of (c, k, stop) \<Rightarrow> \<not> stop \<and> big_guard c k"
    obtain d k stop where s: "s = (d, k, stop)" by (cases s)
    let ?p = "tot + off + k" and ?d = "d\<lparr>localType := BIG_CHUNK\<rparr>"
    have d: "seg_state f ?p d []" "Next_Chunk_Type d = BIG_CHUNK" "k < len" "k < CONTAINER_MAX_SIZE - MAX_CHUNK_SIZE"
      using P g by (cases "Next_Chunk_Type d"; auto simp: s big_guard_def)+
    then have "CONTAINER_MAX_SIZE \<le> len - k \<or> tot + off + len = length f" using buf(3) by (auto simp: size_consts)
    note v = view [OF buf(1,2) d(3) this]
    obtain cp d1 where cut: "CutPointTarFast ?d (mem_at buf (off + k)) (len - k) = (cp, d1)" by (cases "CutPointTarFast ?d (mem_at buf (off + k)) (len - k)")
    note fr = cut_frame [OF cut]
    have pr: "progress f ?p BIG_CHUNK (part_left ?d) (concat (hsegs (outputMQ d))) (hdata (outputMQ d))" "cdc_ok ?d" "maxChunkSize ?d = 16384"
      using d(1,2) by (simp_all add: seg_state_def size_consts)
    have m: "0 < cp" "cp \<le> 16384" "cp \<le> len - k" "Next_Chunk_Type d1 \<noteq> FILE_CHUNK" "tar_moves f ?p ?d cp d1"
      using cut_big [OF cut _ v pr(1,2)] pr(3) d(2) by (simp_all add: size_consts)
    have u: "usub64 len k = len - k" "off + k + cp \<le> length buf" "off + k + cp \<le> READ_FILE_SIZE"
      using d(3) buf(2) m(3) lb by (simp_all add: size_consts)
    note sl = slice_buffer [OF buf(1) u(2)]
    let ?d' = "d1\<lparr>outputMQ := outputMQ d @ [new_Chunk (slice ?p cp f) cp False]\<rparr>"
    have "progress f (?p + cp) (Next_Chunk_Type d1) (part_left d1) (concat (hsegs (outputMQ d))) (hdata (outputMQ d) @ [slice ?p cp f])"
      using m(1,5) pr(1) d(2) by (simp add: tar_moves_def)
    moreover have "small_chunk (new_Chunk (slice ?p cp f) cp False)"
      using m(1,2) sl(2) by (auto simp: small_chunk_def chunk_wf_def slice_def size_consts add.assoc)
    ultimately have "seg_state f (tot + off + (k + cp)) ?d' []"
      unfolding add.assoc [of "tot + off", symmetric] using d(1) fr by (simp add: seg_state_def)
    moreover have "big_body buf off len d k = Inr (?d', k + cp, k + cp = len)"
      using d(2) cut u fr m(2) sl(1) by (simp add: big_body_def Let_def buf_simps push_data_def add.assoc)
    moreover have "k + cp \<le> len" "len - (k + cp) < len - k" using m(1,3) d(3) by linarith+
    ultimately show "\<exists>s'. (case s of (c, k, stop) \<Rightarrow> Some (big_body buf off len c k)) = Some (Inr s') \<and> ?P s'
        \<and> (case s' of (c, k, stop) \<Rightarrow> len - k) < (case s of (c, k, stop) \<Rightarrow> len - k)"
      using P m(1,4) fr by (simp add: s)
  qed
  then obtain c' k stop where r: "rwhile (\<lambda>(c, k, stop). \<not> stop \<and> big_guard c k) (\<lambda>(c, k, stop). Some (big_body buf off len c k)) (c, 0, False)
      = Some (Inr (c', k, stop))" "?P (c', k, stop)" "stop \<or> \<not> big_guard c' k" by auto
  moreover have "0 < k" using r(2,3) st(3) by (cases "k = 0") (auto simp: big_guard_def size_consts)
  ultimately show ?thesis by auto
qed

section \<open>The whole archive\<close>

definition segmented :: "byte list \<Rightarrow> nat \<Rightarrow> Chunker \<Rightarrow> bool" where
  "segmented f p c \<longleftrightarrow> seg_state f p c [] \<and> Next_Chunk_Type c \<noteq> FILE_CHUNK \<and> HeaderCp c = 0"

lemma seg_state_off [simp]: "seg_state f p (c\<lparr>localOffset := off\<rparr>) H = seg_state f p c H"
  by (simp add: seg_state_def)

lemma CutPointTarHeader_ok:
  assumes st: "segmented f (tot + off) c" "localOffset c = off" "0 < len"
    and buf: "buf = slice tot READ_FILE_SIZE f" "len = length buf - off" "CONTAINER_MAX_SIZE * 16 \<le> len \<or> tot + off + len = length f"
  shows "\<exists>c' k. CutPointTarHeader buf off len c = Some (Inr (k, c')) \<and> segmented f (tot + off + k) c' \<and> localOffset c' = off \<and> 0 < k \<and> k \<le> len"
proof (cases "Next_Chunk_Type c = FILE_HEADER")
  case True
  have "open_segment f tot off len c 0" using st True by (simp add: segmented_def open_segment_def room_def)
  from hdr_loop [OF this True st(3) buf] obtain c' k stop where
    r: "rwhile (\<lambda>(c, k, stop). \<not> stop \<and> hdr_guard c) (\<lambda>(c, k, stop). Some (hdr_body buf off len c k)) (c, 0, False) = Some (Inr (c', k, stop))"
      "open_segment f tot off len c' k" "Next_Chunk_Type c' \<noteq> FILE_CHUNK" "0 < HeaderCp c'" by blast
  let ?h = "take (HeaderCp c') (headerBuffer c')"
  let ?c' = "c'\<lparr>outputMQ := outputMQ c' @ [new_Chunk ?h (HeaderCp c') True], HeaderCp := 0\<rparr>"
  have h: "length ?h = HeaderCp c'" "512 dvd HeaderCp c'" "HeaderCp c' \<le> 8192" "HeaderCp c' \<le> k" "k \<le> len"
    "seg_state f (tot + off + k) c' ?h" "localOffset c' = off"
    using r(2) by (simp_all add: open_segment_def size_consts)
  then have "small_chunk (new_Chunk ?h (HeaderCp c') True)" "segments_ok [?h]"
    using r(4) by (auto simp: small_chunk_def chunk_wf_def segments_ok_def size_consts)
  with h(6) have "seg_state f (tot + off + k) ?c' []" by (simp add: seg_state_def segments_ok_def)
  with r h True show ?thesis by (simp add: CutPointTarHeader_def segmented_def)
next
  case False
  with st(1) have "Next_Chunk_Type c = BIG_CHUNK" by (cases "Next_Chunk_Type c") (simp_all add: segmented_def)
  from big_loop [OF _ this st(3) _ st(2) buf] st(1) False show ?thesis by (auto simp: CutPointTarHeader_def segmented_def)
qed

interpretation segs: reader "CONTAINER_MAX_SIZE * 16" Chunking_body segmented "\<lambda>_. False"
proof unfold_locales
  fix buf f tot c
  assume buf: "buf = slice tot READ_FILE_SIZE f" and I: "segmented f (tot + localOffset c) c"
    and lt: "localOffset c < length buf"
    and g: "CONTAINER_MAX_SIZE * 16 \<le> length buf - localOffset c \<or> tot + length buf = length f"
  let ?off = "localOffset c" and ?len = "length buf - localOffset c"
  have "length buf \<le> READ_FILE_SIZE" using buf by (simp add: slice_length)
  then have u: "usub64 (length buf) ?off = ?len" using lt by (simp add: size_consts)
  have "0 < ?len" "CONTAINER_MAX_SIZE * 16 \<le> ?len \<or> tot + ?off + ?len = length f" using lt g by auto
  from CutPointTarHeader_ok [OF I refl this(1) buf refl this(2)] obtain c' k where
    r: "CutPointTarHeader buf ?off ?len c = Some (Inr (k, c'))" "segmented f (tot + ?off + k) c'" "localOffset c' = ?off" "0 < k" "k \<le> ?len" by blast
  have "chunkType c = TAR_MultiHeader" using I by (simp add: segmented_def seg_state_def)
  with r u have "Chunking_body buf (length buf) c = Some (Inr (c'\<lparr>localOffset := ?off + k\<rparr>))" by (simp add: Chunking_body_def)
  with r show "\<exists>c'. Chunking_body buf (length buf) c = Some (Inr c') \<and> segmented f (tot + localOffset c') c'
      \<and> localOffset c \<le> localOffset c' \<and> localOffset c' \<le> length buf \<and> (localOffset c' = localOffset c \<longrightarrow> False \<and> \<not> False)"
    by (simp add: segmented_def add.assoc)
qed (simp_all add: size_consts segmented_def)

text \<open>A chunker in mode 4 that is ready for the next archive.\<close>

definition tar_ready :: "Chunker \<Rightarrow> bool" where
  "tar_ready c \<longleftrightarrow> chunkType c = TAR_MultiHeader \<and> cdc_ok c \<and> maxChunkSize c = MAX_CHUNK_SIZE \<and> Next_Chunk_Type c = FILE_HEADER \<and> HeaderCp c = 0"

lemma tar_ready_upd [simp]:
  "tar_ready (c\<lparr>outputMQ := out\<rparr>) = tar_ready c" "tar_ready (c\<lparr>mq_done := b\<rparr>) = tar_ready c"
  by (simp_all add: tar_ready_def cdc_ok_def)

lemma Chunker_new_tar: "Chunker_new 4 = Inr c \<Longrightarrow> tar_ready c \<and> outputMQ c = []"
proof -
  assume "Chunker_new 4 = Inr c"
  then have c: "c = ChunkerInit (Chunker_fields TAR_MultiHeader)" by (simp add: Chunker_new_def ChunkTypeNum_of_int_def)
  have "cdc_ok c" unfolding c cdc_ok_def by (simp add: ChunkerInit_def cdc_setup_def Chunker_fields_def Let_def CalNormalSize_le)
  moreover have "chunkType c = TAR_MultiHeader" "maxChunkSize c = MAX_CHUNK_SIZE" "outputMQ c = []" "Next_Chunk_Type c = FILE_HEADER" "HeaderCp c = 0"
    unfolding c by (simp_all add: ChunkerInit_def cdc_setup_def Chunker_fields_def Let_def size_consts)
  ultimately show ?thesis by (simp add: tar_ready_def)
qed

text \<open>Segments and data chunks that describe the archive \<open>f\<close>.\<close>

definition describes :: "byte list list \<Rightarrow> byte list list \<Rightarrow> byte list \<Rightarrow> bool" where
  "describes segs ds f \<longleftrightarrow> segments_ok segs \<and> (\<exists>hs. woven hs ds f \<and> concat segs = concat hs)"

text \<open>
  In mode 4 the chunker returns on every archive of whole entries, however long.  The segments it pushes hold all headers
  and the data chunks all data; together they describe the archive, and no chunk is longer than a container.
\<close>

theorem Chunking_segments:
  assumes "tar_ready c" "outputMQ c = []" "tar_whole f 0"
  shows "\<exists>c'. Chunking f c = Some (Inr c') \<and> mq_done c' \<and> tar_ready c' \<and> describes (hsegs (outputMQ c')) (hdata (outputMQ c')) f
    \<and> concat (hsegs (outputMQ c')) = tar_headers f 0 \<and> concat (hdata (outputMQ c')) = tar_data f 0 \<and> list_all small_chunk (outputMQ c')"
proof -
  have "progress f 0 FILE_HEADER 0 [] []" using assms(3) by (auto simp: progress_def laid_def slice_def intro!: exI [of _ "[]"] woven.fin)
  with assms(1,2) have "segmented f 0 c" by (simp add: tar_ready_def segmented_def seg_state_def part_left_header segments_ok_def)
  from segs.read_loop_ok [OF this] obtain c' where
    r: "read_loop (CONTAINER_MAX_SIZE * 16) Chunking_body f c = Some (Inr c')" "segmented f (length f) c'" by blast
  from r(2) have n: "Next_Chunk_Type c' = FILE_HEADER" by (cases "Next_Chunk_Type c'") (auto simp: segmented_def seg_state_def progress_def)
  with r(2) have "progress f (length f) FILE_HEADER 0 (concat (hsegs (outputMQ c'))) (hdata (outputMQ c'))"
    by (simp add: segmented_def seg_state_def part_left_header)
  then have "\<exists>hs. woven hs (hdata (outputMQ c')) f \<and> concat (hsegs (outputMQ c')) = concat hs"
    "concat (hsegs (outputMQ c')) = tar_headers f 0" "concat (hdata (outputMQ c')) = tar_data f 0"
    by (auto simp: progress_def laid_def slice_def)
  moreover have "tar_ready c'" "list_all small_chunk (outputMQ c')" "segments_ok (hsegs (outputMQ c'))"
    using r(2) n by (simp_all add: tar_ready_def segmented_def seg_state_def)
  ultimately show ?thesis using r(1) by (simp add: Chunking_def describes_def)
qed

end
