(* ===== verification/TarBackup.thy ===== *)
theory TarBackup
  imports TarSegments Backup
begin

text \<open>
  Backups of archives in mode 4 with exact deduplication: the method enters the numbers of header segments and of data
  chunks in two recipes, and \<open>restoreHeaderFile\<close> puts the archive together again.
\<close>

section \<open>What the method keeps\<close>

lemma place_chunk_hdr: "place_chunk src n ch dw = Inr (ch', dw') \<Longrightarrow> hdr dw' = hdr dw"
  by (auto simp: place_chunk_def Let_def hdr_def next_container_def write_container_def split: if_splits)

lemma hdr_recipes [simp]:
  "hdr (dw\<lparr>RecipeMap := r\<rparr>) = hdr dw" "hdr (dw\<lparr>RecipeMap_header := r\<rparr>) = hdr dw" "hdr (dw\<lparr>chunklist := cs\<rparr>) = hdr dw"
  "hdr (dw\<lparr>filename := n\<rparr>) = hdr dw"
  by (simp_all add: hdr_def)

lemma Chunk_Insert_hdr: "Chunk_Insert ch dw = Inr dw' \<Longrightarrow> hdr dw' = hdr dw" "Chunk_Insert_lz4 ch buf dw = Inr dw' \<Longrightarrow> hdr dw' = hdr dw"
  by (auto simp: Chunk_Insert_def Chunk_Insert_lz4_def rbind_eq_Inr_iff dest!: place_chunk_hdr)

lemma dedup_unique_hdr: "dedup_unique x h ch m = Inr (ch', m') \<Longrightarrow> hdr (dataWrite m') = hdr (dataWrite m)"
proof -
  assume a: "dedup_unique x h ch m = Inr (ch', m')"
  then obtain c buf where l: "lz4_chunk x (ch\<lparr>chunkID := uniquechunkNum m\<rparr>) = Inr (c, buf)" by (auto simp: dedup_unique_def rbind_eq_Inr_iff)
  obtain d m1 where m1: "dedup_place c (FP_Insert h (int (chunkID c)) m) = (d, m1)" by fastforce
  from a have "Chunk_Insert d (dataWrite m1) = Inr (dataWrite m') \<or> Chunk_Insert_lz4 d buf (dataWrite m1) = Inr (dataWrite m')"
    by (auto simp: dedup_unique_def l m1 rbind_eq_Inr_iff Let_def split: if_splits)
  moreover have "dataWrite m1 = dataWrite m" using m1 by (auto simp: dedup_place_def FP_Insert_def Let_def)
  ultimately show ?thesis using Chunk_Insert_hdr by metis
qed

lemma dedup_chunk_hdr: "dedup_chunk x m ch = Inr m' \<Longrightarrow> hdr (dataWrite m') = hdr (dataWrite m)"
proof -
  assume "dedup_chunk x m ch = Inr m'"
  then obtain h c m1 where "dedup_unique x h ch m = Inr (c, m1) \<or> dedup_duplicate (FP_Find h m) m = Inr (c, m1)" "m' = note_recipe c m1"
    by (auto simp: dedup_chunk_def rbind_eq_Inr_iff Let_def split: if_splits)
  then show ?thesis
    using dedup_unique_hdr by (auto simp: dedup_duplicate_def rbind_eq_Inr_iff note_recipe_def Recipe_Insert_def Recipe_Header_Insert_def)
qed

section \<open>A backup of an archive\<close>

text \<open>The store holds the archive \<open>f\<close> under \<open>name\<close>, as header segments and data chunks.\<close>

definition holds_archive :: "env \<Rightarrow> dataWrite \<Rightarrow> string \<Rightarrow> byte list \<Rightarrow> bool" where
  "holds_archive x dw name f \<longleftrightarrow> (\<exists>segs ds. delivers x (store_abs dw) (RecipeMap_header dw name) segs
     \<and> delivers x (store_abs dw) (RecipeMap dw name) ds \<and> describes segs ds f)"

lemma delivers_good: "delivers x es = list_all2 (good x es)"
  by (intro ext) (simp add: delivers_def good_def [abs_def])

lemma delivers_mono: "delivers x es is bs \<Longrightarrow> (\<And>j b. good x es j b \<Longrightarrow> good x es' j b) \<Longrightarrow> delivers x es' is bs"
  unfolding delivers_good by (rule list_all2_mono)

lemma holds_archive_mono:
  assumes "holds_archive x dw name f" "RecipeMap dw' name = RecipeMap dw name" "RecipeMap_header dw' name = RecipeMap_header dw name"
    and "\<And>j b. good x (store_abs dw) j b \<Longrightarrow> good x (store_abs dw') j b"
  shows "holds_archive x dw' name f"
  using assms(1) delivers_mono [OF _ assms(4)] unfolding holds_archive_def assms(2,3) by blast

lemma holds_archive_restores:
  assumes "dw_inv dw" "buffer_idle dw" "writable dw (restore_path name)" "holds_archive x dw name f"
  shows "\<exists>dw'. restoreHeaderFile x name dw = Some (Inr dw') \<and> fs dw' (restore_path name) = Some f"
  using assms restoreHeaderFile_weaves [OF assms(1-3), of x] unfolding holds_archive_def describes_def by blast

definition adds_recipes :: "dataWrite \<Rightarrow> dataWrite \<Rightarrow> nat list \<Rightarrow> nat list \<Rightarrow> bool" where
  "adds_recipes dw dw' is js \<longleftrightarrow> filename dw' = filename dw \<and> writable dw' = writable dw
     \<and> RecipeMap dw' = (RecipeMap dw)(filename dw := RecipeMap dw (filename dw) @ is)
     \<and> RecipeMap_header dw' = (RecipeMap_header dw)(filename dw := RecipeMap_header dw (filename dw) @ js)"

lemma tag_steps_ok:
  assumes "lz4_law x" "hash_law x C" "tag_inv x C T m" "list_all (tag_ok C T) chunks"
  shows "\<exists>m' is js. rfold (dedup_chunk x) m chunks = Inr m' \<and> tag_inv x C T m' \<and> hdr (dataWrite m') = hdr (dataWrite m)
    \<and> adds_recipes (dataWrite m) (dataWrite m') is js
    \<and> delivers x (store_abs (dataWrite m')) is (hdata chunks) \<and> delivers x (store_abs (dataWrite m')) js (hsegs chunks)
    \<and> (\<forall>j b. good x (store_abs (dataWrite m)) j b \<longrightarrow> good x (store_abs (dataWrite m')) j b)"
  using assms(3,4)
proof (induction chunks arbitrary: m)
  case Nil
  then show ?case by (intro exI [of _ m] exI [of _ "[]"]) (simp add: adds_recipes_def delivers_def)
next
  case (Cons ch chunks)
  then obtain m1 i where m1: "dedup_chunk x m ch = Inr m1" "tag_inv x C T m1" "noted (HeaderFlag ch) (dataWrite m) (dataWrite m1) i"
    "good x (store_abs (dataWrite m1)) i (chunkPtr ch)"
    "\<forall>j b. good x (store_abs (dataWrite m)) j b \<longrightarrow> good x (store_abs (dataWrite m1)) j b"
    using tag_step_ok [OF assms(1,2) Cons.prems(1), of ch] by auto
  have "list_all (tag_ok C T) chunks" using Cons.prems(2) by simp
  from Cons.IH [OF m1(2) this] obtain m2 "is" js where
    m2: "rfold (dedup_chunk x) m1 chunks = Inr m2" "tag_inv x C T m2" "hdr (dataWrite m2) = hdr (dataWrite m1)"
      "adds_recipes (dataWrite m1) (dataWrite m2) is js"
      "delivers x (store_abs (dataWrite m2)) is (hdata chunks)" "delivers x (store_abs (dataWrite m2)) js (hsegs chunks)"
      "\<forall>j b. good x (store_abs (dataWrite m1)) j b \<longrightarrow> good x (store_abs (dataWrite m2)) j b" by blast
  let ?t = "HeaderFlag ch"
  have g: "good x (store_abs (dataWrite m2)) i (chunkPtr ch)" using m1(4) m2(7) by blast
  have h: "hdr (dataWrite m2) = hdr (dataWrite m)" using m2(3) dedup_chunk_hdr [OF m1(1)] by simp
  have "adds_recipes (dataWrite m) (dataWrite m2) (if ?t then is else i # is) (if ?t then i # js else js)"
    using m1(3) m2(4) by (auto simp: noted_def recipes_def Recipe_Header_Insert_def Recipe_Insert_def adds_recipes_def split: if_splits)
  with m1(1,5) m2 g h show ?case
    by (intro exI [of _ m2] exI [of _ "if ?t then is else i # is"] exI [of _ "if ?t then i # js else js"])
      (simp add: hsegs_def hdata_def delivers_good)
qed

text \<open>What a header segment and what a data chunk of an archive can contain.\<close>

definition header_parts :: "byte list \<Rightarrow> byte list set" where "header_parts f = {b \<in> blocks (tar_headers f 0). 512 dvd length b}"
definition data_parts :: "byte list \<Rightarrow> byte list set" where "data_parts f = blocks (tar_data f 0)"

lemma concat_blocks: "xs \<in> set xss \<Longrightarrow> xs \<noteq> [] \<Longrightarrow> xs \<in> blocks (concat xss)"
  by (auto simp: blocks_def dest!: split_list) blast

lemma chunks_tagged:
  assumes "concat (hsegs out) = tar_headers f 0" "concat (hdata out) = tar_data f 0" "list_all small_chunk out" "segments_ok (hsegs out)"
    and "header_parts f \<subseteq> A" "data_parts f \<subseteq> B" "A \<inter> B = {}"
  shows "list_all (tag_ok (A \<union> B) (\<lambda>b. b \<in> A)) out"
proof -
  have "tag_ok (A \<union> B) (\<lambda>b. b \<in> A) ch" if ch: "ch \<in> set out" for ch
  proof (cases "HeaderFlag ch")
    case True
    with ch have s: "chunkPtr ch \<in> set (hsegs out)" by (simp add: hsegs_def)
    then have "chunkPtr ch \<in> header_parts f"
      using assms(1,4) concat_blocks [OF s] by (auto simp: header_parts_def segments_ok_def)
    with True assms(3,5) ch show ?thesis by (auto simp: tag_ok_def small_chunk_def list_all_iff)
  next
    case False
    with ch have s: "chunkPtr ch \<in> set (hdata out)" by (simp add: hdata_def)
    have "small_chunk ch" using assms(3) ch by (simp add: list_all_iff)
    then have "chunkPtr ch \<in> data_parts f" using assms(2) concat_blocks [OF s] by (simp add: data_parts_def small_chunk_def chunk_wf_def)
    with False assms(6,7) \<open>small_chunk ch\<close> show ?thesis by (auto simp: tag_ok_def small_chunk_def)
  qed
  then show ?thesis by (simp add: list_all_iff)
qed

lemma archive_backup:
  assumes laws: "lz4_law x" "hash_law x (A \<union> B)" "A \<inter> B = {}" "header_parts f \<subseteq> A" "data_parts f \<subseteq> B"
    and st: "tag_inv x (A \<union> B) (\<lambda>b. b \<in> A) m" "tar_ready c" "files name = Some f" "tar_whole f 0"
      "RecipeMap (dataWrite m) name = []" "RecipeMap_header (dataWrite m) name = []"
  shows "\<exists>c' m'. main_backup (Dedup_backup x) files name (c, m) = Some (Inr (c', m')) \<and> tar_ready c' \<and> tag_inv x (A \<union> B) (\<lambda>b. b \<in> A) m'
    \<and> hdr (dataWrite m') = hdr (dataWrite m) \<and> writable (dataWrite m') = writable (dataWrite m) \<and> holds_archive x (dataWrite m') name f
    \<and> (\<forall>other. other \<noteq> name \<longrightarrow> RecipeMap (dataWrite m') other = RecipeMap (dataWrite m) other
        \<and> RecipeMap_header (dataWrite m') other = RecipeMap_header (dataWrite m) other
        \<and> (\<forall>g. holds_archive x (dataWrite m) other g \<longrightarrow> holds_archive x (dataWrite m') other g))"
proof -
  let ?c = "c\<lparr>outputMQ := [], mq_done := False\<rparr>" and ?m = "set_backup name m" and ?T = "\<lambda>b. b \<in> A"
  from Chunking_segments [of ?c f] st(2,4) obtain c' where
    c': "Chunking f ?c = Some (Inr c')" "tar_ready c'" "describes (hsegs (outputMQ c')) (hdata (outputMQ c')) f"
      "concat (hsegs (outputMQ c')) = tar_headers f 0" "concat (hdata (outputMQ c')) = tar_data f 0" "list_all small_chunk (outputMQ c')" by auto
  from c'(3) have "segments_ok (hsegs (outputMQ c'))" by (simp add: describes_def)
  note ok = chunks_tagged [OF c'(4-6) this laws(4,5,3)]
  have m: "tag_inv x (A \<union> B) ?T ?m" "store_abs (dataWrite ?m) = store_abs (dataWrite m)" "hdr (dataWrite ?m) = hdr (dataWrite m)"
    "filename (dataWrite ?m) = name" "writable (dataWrite ?m) = writable (dataWrite m)" "RecipeMap (dataWrite ?m) = RecipeMap (dataWrite m)"
    "RecipeMap_header (dataWrite ?m) = RecipeMap_header (dataWrite m)"
    using st(1) by (simp_all add: set_backup_def am_SetFilename_def dw_SetFilename_def tag_inv_def Let_def)
  from tag_steps_ok [OF laws(1,2) m(1) ok] obtain m' "is" js where
    m': "rfold (dedup_chunk x) ?m (outputMQ c') = Inr m'" "tag_inv x (A \<union> B) ?T m'" "hdr (dataWrite m') = hdr (dataWrite m)"
      "adds_recipes (dataWrite ?m) (dataWrite m') is js"
      "delivers x (store_abs (dataWrite m')) is (hdata (outputMQ c'))" "delivers x (store_abs (dataWrite m')) js (hsegs (outputMQ c'))"
      "\<forall>j b. good x (store_abs (dataWrite m)) j b \<longrightarrow> good x (store_abs (dataWrite m')) j b"
    unfolding m(2,3) by blast
  let ?m' = "m'\<lparr>ads_Version := Suc (ads_Version m')\<rparr>"
  have r: "RecipeMap (dataWrite m') = (RecipeMap (dataWrite m))(name := is)" "RecipeMap_header (dataWrite m') = (RecipeMap_header (dataWrite m))(name := js)"
    "writable (dataWrite m') = writable (dataWrite m)"
    using m'(4) m(4-7) st(5,6) by (simp_all add: adds_recipes_def)
  have "main_backup (Dedup_backup x) files name (c, m) = Some (Inr (c', ?m'))"
    using c'(1) m'(1) st(3) by (simp add: main_backup_def LoadChunkFile_def Dedup_backup_def Dedup_ProcessTrace_def)
  moreover have "holds_archive x (dataWrite ?m') name f"
    unfolding holds_archive_def using m'(5,6) c'(3) r by auto
  moreover have "holds_archive x (dataWrite ?m') other g" if "other \<noteq> name" "holds_archive x (dataWrite m) other g" for other g
    by (rule holds_archive_mono [OF that(2)]) (use that(1) r m'(7) in auto)
  moreover have "tag_inv x (A \<union> B) ?T ?m'" using m'(2) by (simp add: tag_inv_def)
  ultimately show ?thesis using c'(2) m'(3) r by (intro exI [of _ c'] exI [of _ ?m']) simp
qed

section \<open>All backups\<close>

definition all_header_parts :: "(string \<rightharpoonup> byte list) \<Rightarrow> string list \<Rightarrow> byte list set" where
  "all_header_parts files names = (\<Union>name \<in> set names. header_parts (the (files name)))"

definition all_data_parts :: "(string \<rightharpoonup> byte list) \<Rightarrow> string list \<Rightarrow> byte list set" where
  "all_data_parts files names = (\<Union>name \<in> set names. data_parts (the (files name)))"

lemma archive_loop:
  assumes laws: "lz4_law x" "hash_law x (A \<union> B)" "A \<inter> B = {}"
    and "n \<le> length names" "distinct (take n names)" "tag_inv x (A \<union> B) (\<lambda>b. b \<in> A) m" "tar_ready c"
    and "\<forall>name \<in> set (take n names). \<exists>f. files name = Some f \<and> tar_whole f 0 \<and> header_parts f \<subseteq> A \<and> data_parts f \<subseteq> B
      \<and> RecipeMap (dataWrite m) name = [] \<and> RecipeMap_header (dataWrite m) name = []"
  shows "\<exists>c' m'. main_loop (Dedup_backup x) files n names (c, m) = Some (Inr (c', m')) \<and> tag_inv x (A \<union> B) (\<lambda>b. b \<in> A) m'
    \<and> hdr (dataWrite m') = hdr (dataWrite m) \<and> writable (dataWrite m') = writable (dataWrite m)
    \<and> (\<forall>name \<in> set (take n names). holds_archive x (dataWrite m') name (the (files name)))
    \<and> (\<forall>other g. other \<notin> set (take n names) \<longrightarrow> holds_archive x (dataWrite m) other g \<longrightarrow> holds_archive x (dataWrite m') other g)"
  using assms(4-)
proof (induction n arbitrary: names m c)
  case 0
  then show ?case by simp
next
  case (Suc n)
  then obtain name names' where ns: "names = name # names'" by (cases names) auto
  with Suc.prems(5) obtain f where f: "files name = Some f" "tar_whole f 0" "header_parts f \<subseteq> A" "data_parts f \<subseteq> B"
    "RecipeMap (dataWrite m) name = []" "RecipeMap_header (dataWrite m) name = []" by auto
  from archive_backup [where files = files, OF laws f(3,4) Suc.prems(3,4) f(1,2,5,6)] obtain c1 m1 where
    b: "main_backup (Dedup_backup x) files name (c, m) = Some (Inr (c1, m1))" "tar_ready c1" "tag_inv x (A \<union> B) (\<lambda>b. b \<in> A) m1"
      "hdr (dataWrite m1) = hdr (dataWrite m)" "writable (dataWrite m1) = writable (dataWrite m)" "holds_archive x (dataWrite m1) name f"
      "\<forall>other. other \<noteq> name \<longrightarrow> RecipeMap (dataWrite m1) other = RecipeMap (dataWrite m) other
        \<and> RecipeMap_header (dataWrite m1) other = RecipeMap_header (dataWrite m) other
        \<and> (\<forall>g. holds_archive x (dataWrite m) other g \<longrightarrow> holds_archive x (dataWrite m1) other g)" by blast
  have d: "name \<notin> set (take n names')" "n \<le> length names'" "distinct (take n names')" using Suc.prems(1,2) ns by auto
  have "\<forall>name \<in> set (take n names'). \<exists>f. files name = Some f \<and> tar_whole f 0 \<and> header_parts f \<subseteq> A \<and> data_parts f \<subseteq> B
      \<and> RecipeMap (dataWrite m1) name = [] \<and> RecipeMap_header (dataWrite m1) name = []"
    using Suc.prems(5) ns d(1) b(7) by (metis list.set_intros(2) take_Suc_Cons)
  from Suc.IH [OF d(2,3) b(3,2) this] obtain c' m' where
    r: "main_loop (Dedup_backup x) files n names' (c1, m1) = Some (Inr (c', m'))" "tag_inv x (A \<union> B) (\<lambda>b. b \<in> A) m'"
      "hdr (dataWrite m') = hdr (dataWrite m1)" "writable (dataWrite m') = writable (dataWrite m1)"
      "\<forall>name \<in> set (take n names'). holds_archive x (dataWrite m') name (the (files name))"
      "\<forall>other g. other \<notin> set (take n names') \<longrightarrow> holds_archive x (dataWrite m1) other g \<longrightarrow> holds_archive x (dataWrite m') other g" by blast
  then show ?case using b d(1) f(1) by (intro exI [of _ c'] exI [of _ m']) (simp add: ns)
qed


text \<open>An archive with one entry, backed up twice; the hash encodes the length and the first byte.\<close>

definition tiny_tar :: "byte list" where
  "tiny_tar = tiny_header @ replicate 512 7"

definition tar_env :: env where
  "tar_env = plain_env\<lparr>sha256 := (\<lambda>b. Some (le_bytes 32 (2 * length b + (if hd b = 7 then 1 else 0))))\<rparr>"

lemma tiny_tar_next: "tar_next (mem_at tiny_tar 0) = (FILE_CHUNK, 512)" "header_ok (mem_at tiny_tar 0)"
proof -
  have same: "mem_at tiny_tar 0 i = mem_at tiny_header 0 i" if "i < 512" for i
    using that tiny_header_fields(1) by (simp add: mem_at_def tiny_tar_def nth_append)
  have "tar_size (mem_at tiny_tar 0) = tar_size (mem_at tiny_header 0)"
    unfolding tar_size_def by (rule fold_cong) (simp_all add: same)
  then have "tar_size (mem_at tiny_tar 0) = 2" "mem_at tiny_tar 0 156 = REGTYPE" using tiny_header_fields same [of 156] by simp_all
  then show "tar_next (mem_at tiny_tar 0) = (FILE_CHUNK, 512)" "header_ok (mem_at tiny_tar 0)"
    by (simp_all add: tar_next_def header_ok_def tar_flags size_consts round512_def)
qed

lemma tiny_tar_layout:
  "tar_whole tiny_tar 0" "tar_headers tiny_tar 0 = tiny_header" "tar_data tiny_tar 0 = replicate 512 7"
proof -
  have l: "length tiny_tar = 1024" by (simp add: tiny_tar_def tiny_header_fields)
  have n: "next_header tiny_tar 0 = 1024" "after_header tiny_tar 0 = 512" by (simp_all add: next_header_def after_header_def l tiny_tar_next)
  show "tar_whole tiny_tar 0"
    by (subst tar_whole.simps, subst tar_whole.simps) (simp add: l n tiny_tar_next size_consts)
  show "tar_headers tiny_tar 0 = tiny_header"
    by (subst tar_headers.simps) (simp add: l n, simp add: slice_def tiny_tar_def tiny_header_fields)
  show "tar_data tiny_tar 0 = replicate 512 7"
    by (subst tar_data.simps) (simp add: l n tiny_tar_next, simp add: slice_def tiny_tar_def tiny_header_fields)
qed

lemma blocks_length: "b \<in> blocks f \<Longrightarrow> 0 < length b \<and> length b \<le> length f \<and> set b \<subseteq> set f"
  by (auto simp: blocks_def)

lemma tiny_tar_parts: "header_parts tiny_tar = {tiny_header}" "data_parts tiny_tar \<subseteq> (\<lambda>k. replicate k 7) ` {0<..512}"
proof -
  have "b = tiny_header" if "b \<in> blocks tiny_header" "512 dvd length b" for b
  proof -
    from blocks_length [OF that(1)] that(2) have "length b = 512" by (auto simp: tiny_header_fields dest: dvd_imp_le)
    moreover from that(1) obtain us vs where t: "tiny_header = us @ b @ vs" by (auto simp: blocks_def)
    ultimately have "us = []" "vs = []" using tiny_header_fields(1) unfolding t by simp_all
    with t show ?thesis by simp
  qed
  moreover have "tiny_header \<in> blocks tiny_header" using tiny_header_fields(1) by (auto simp: blocks_def intro!: exI [of _ "[]"])
  ultimately show "header_parts tiny_tar = {tiny_header}" by (auto simp: header_parts_def tiny_tar_layout tiny_header_fields)
  show "data_parts tiny_tar \<subseteq> (\<lambda>k. replicate k 7) ` {0<..512}"
  proof
    fix b assume "b \<in> data_parts tiny_tar"
    then have b: "b \<in> blocks (replicate 512 7)" by (simp add: data_parts_def tiny_tar_layout)
    from blocks_length [OF b] have "b = replicate (length b) 7" by (intro replicate_length_same [symmetric]) auto
    with blocks_length [OF b] show "b \<in> (\<lambda>k. replicate k 7) ` {0<..512}" by (intro image_eqI [of _ _ "length b"]) auto
  qed
qed

lemma tiny_header_hd: "hd tiny_header = 0"
  by (simp add: tiny_header_def)

lemma tar_env_laws: "lz4_law tar_env" "hash_law tar_env ({tiny_header} \<union> (\<lambda>k. replicate k 7) ` {0<..512})"
proof -
  let ?S = "{tiny_header} \<union> (\<lambda>k. replicate k 7) ` {0<..512}" and ?key = "\<lambda>b :: byte list. 2 * length b + (if hd b = 7 then 1 else 0)"
  show "lz4_law tar_env" using plain_env_laws(1) by (simp add: lz4_law_def tar_env_def)
  have key: "\<exists>k. ?key b = k \<and> k < 256 ^ 32 \<and> b = (if even k then tiny_header else replicate (k div 2) 7)" if "b \<in> ?S" for b
    using that tiny_header_fields(1) tiny_header_hd by (auto simp: gr0_conv_Suc)
  have "a = b" if a: "a \<in> ?S" and b: "b \<in> ?S" and eq: "le_bytes 32 (?key a) = le_bytes 32 (?key b)" for a b
  proof -
    from key [OF a] obtain k where k: "?key a = k" "k < 256 ^ 32" "a = (if even k then tiny_header else replicate (k div 2) 7)" by blast
    from key [OF b] obtain l where l: "?key b = l" "l < 256 ^ 32" "b = (if even l then tiny_header else replicate (l div 2) 7)" by blast
    from eq have "of_le (le_bytes 32 k) = of_le (le_bytes 32 l)" unfolding k(1) l(1) by (rule arg_cong)
    then have "k = l" unfolding of_le_bytes [OF k(2)] of_le_bytes [OF l(2)] .
    with k(3) l(3) show ?thesis by simp
  qed
  moreover have h: "sha256 tar_env b = Some (le_bytes 32 (?key b))" for b by (simp add: tar_env_def)
  ultimately have "inj_on (sha256 tar_env) ?S" unfolding h by (intro inj_onI) (blast dest: option.inject [THEN iffD1])
  then show "hash_law tar_env ?S" unfolding hash_law_def CHUNK_HASH_SIZE_def h by simp
qed


end
