(* ===== verification/Spec2Isabelle.thy ===== *)
theory Spec2Isabelle
  imports Threads TarBackup
begin

text \<open>
  A verification library for MCompression, a deduplication and compression pipeline for backups.

  \<^bold>\<open>The program.\<close>  \<open>main.cc\<close> runs two threads per backup.  The chunker (\<open>src/chunking/chunker.cc\<close>) reads the
  file and pushes its chunks into a queue (\<open>include/messageQueue.h\<close>); a method (\<open>src/method/*.cc\<close>) pops
  them, looks for duplicates or similar chunks, compresses and hands them to the container store
  (\<open>src/datawrite/datawrite.cc\<close>), which also keeps the recipes and restores backups through a cache of
  containers (\<open>src/util/readCache.cc\<close> over \<open>include/lruCache.h\<close>).  \<open>delta.cc\<close> is a second program with the same
  structure that prints statistics after each backup instead of comparing compressed sizes at the end.

  \<^bold>\<open>The theories.\<close>
  \<^item> \<open>Prelude\<close>: results with errors, memory views, overwriting, the loop combinator \<open>rwhile\<close> (a loop that need
    not end: \<open>None\<close> is divergence, \<open>Inl\<close> an error, \<open>Inr\<close> a value).
  \<^item> \<open>Definitions\<close>: the constants, enumerations and records of \<open>include/*.h\<close>.
  \<^item> \<open>Chunker\<close>: the chunker state and all cut-point routines, the \<open>Chunking\<close> loop; losslessness and size
    bounds for modes 0, 1 and 2, content-definedness of FastCDC.
  \<^item> \<open>Tar\<close>: the tar mode and the rewriting \<open>MTar\<close>; what they write, and why mode 5 is broken.
  \<^item> \<open>LruCache\<close>, \<open>ReadCache\<close>: the LRU cache refines a recency list; the container cache is a map.
  \<^item> \<open>DataWrite\<close>, \<open>Store\<close>: containers, recipes and restoring; the store refines an append-only list of
    payloads (locale \<open>chunk_store\<close>).
  \<^item> \<open>TarRestore\<close>: \<open>restoreHeaderFile\<close> puts an archive together from header segments and data chunks (specification
    \<open>woven\<close>).
  \<^item> \<open>TarSegments\<close>: mode 4 of the chunker, \<open>CutPointTarHeader\<close>, cuts an archive into such segments and chunks.
  \<^item> \<open>TarBackup\<close>: both together with exact deduplication and the loop of \<open>main\<close>: archives are restored exactly.
  \<^item> \<open>MessageQueue\<close>: the queue and the producer/consumer protocol as a step relation, over a bounded FIFO.
  \<^item> \<open>RWQueue\<close>: the lock-free ring of \<open>include/readerwriterqueue.h\<close> under the same protocol: in every interleaving of the
    memory accesses of the two threads it is a FIFO, and it refuses an object only when it is full.
  \<^item> \<open>RWQueueLive\<close>: from every reachable state of the two threads a schedule leads to the end of both.
  \<^item> \<open>Threads\<close>: chunker and method as two threads refine their sequential composition in \<open>Backup\<close>.
  \<^item> \<open>AbsMethod\<close>: the services of the base class of the methods.
  \<^item> \<open>Dedup\<close>: exact deduplication and the contract \<open>backup_method\<close>, extended to runs over several backups.
  \<^item> \<open>XXHash\<close>: the hash functions of \<open>src/util/xxhash.cc\<close>; streaming equals one-shot (contract \<open>streaming\<close>).
  \<^item> \<open>Backup\<close>: the loop of \<open>main.cc\<close> over chunker, method and store; the contract \<open>pipeline\<close>.
  \<^item> \<open>Delta\<close>: storing a unique chunk as base or as delta, for all methods with similarity detection; the
    contract \<open>similarity_index\<close>.
  \<^item> \<open>Finesse\<close>: the method Finesse, an instance of \<open>pipeline\<close>.
  \<^item> \<open>NTrans\<close>: the method N-transform with its rolling-hash features, an instance of \<open>pipeline\<close>.
  \<^item> \<open>Similarity\<close>: the features and the index of \<open>odess_similarity_detection.cc\<close>; features are maxima over
    windows, the index is consistent.
  \<^item> \<open>Palantir\<close>: the method Palantir with its three indexes, an instance of \<open>pipeline\<close> for three backups (a later one may
    meet an emptied entry of an index).
  \<^item> \<open>Locality\<close>: the locality method: its first backup is lossless, its deltas are not.
  \<^item> \<open>Odess\<close>: migratory compression: grouping by super-feature, \<open>output.me\<close> and its block compression.
  \<^item> \<open>LZ4Mem\<close>: the copy routines of \<open>src/util/lz4.c\<close> on buffers with bounds (contract \<open>block_copy\<close>: a copy may
    write past its end, but keeps what is before and repeats what it copies).
  \<^item> \<open>LZ4Format\<close>: the LZ4 block format as a specification: sequences that describe a text, and their encoding.
  \<^item> \<open>LZ4Decode\<close>: \<open>LZ4_decompress_safe\<close>: safe on every input, and it decodes every block of the format.
  \<^item> \<open>LZ4Count\<close>, \<open>LZ4Compress\<close>: match lengths, the hash table and \<open>LZ4_compress_fast\<close>: every access is in bounds
    and what it writes is a block of its input.
  \<^item> \<open>LZ4\<close>: the round trip; the environment with this codec satisfies what the methods rely on.
  \<^item> \<open>Driver\<close>: the programs \<open>main.cc\<close> and \<open>delta.cc\<close>: command line, directory, choice of chunker and method, the
    loop and the comparison after it, on a sum of the methods' states.

  \<^bold>\<open>Parameters.\<close>  The methods are verified for every codec that satisfies \<open>lz4_law\<close> and \<open>lz4_bound_law\<close>, behind the record
  \<open>env\<close>; \<open>lz4_env\<close> is the codec of the repository, and the pipeline theorem below uses it.  xdelta3 (a
  prebuilt library) and SHA-256 (OpenSSL) are functions of \<open>env\<close>; what the code relies on (a delta decodes
  to its source, hashes are 32 bytes and do not collide) are named hypotheses.  So are the numbers drawn from
  random engines, the iteration order of hash sets, the order \<open>std::sort\<close> leaves the names in, the comparison of two quotients of doubles in Palantir, and what a
  failed compression leaves in the buffer of the locality method.

  \<^bold>\<open>Loops and fuel.\<close>  Loops whose end is not structural are \<open>rwhile\<close> loops, and that they return is proved with a
  measure.  The only fuel is that of the specification \<open>lc_decode\<close>: the length of the file, and each block takes at
  least one byte.

  \<^bold>\<open>Not modelled.\<close>  Logging, timing and statistics printing, the CSV dumps (called nowhere), thread
  creation; of LZ4 the dictionaries, the streaming interface, partial and unsafe decoding, compression to a
  destination size and the 32-bit and big-endian variants, none of which the program calls; of the lock-free
  queue the operations \<open>messageQueue.h\<close> does not call (allocating \<open>enqueue\<close>, \<open>peek\<close>, \<open>pop\<close>, the blocking variant).
  Memory is sequentially consistent: the fences of \<open>include/atomicops.h\<close> have no counterpart.
\<close>

section \<open>The whole pipeline\<close>


text \<open>Two files in a directory, the second a duplicate of the first, backed up with method 0 and chunking 1.\<close>

definition tiny_platform :: platform where
  "tiny_platform = \<lparr>p_env = lz4_env (\<lambda>n. replicate n 0) plain_env, p_random = of_nat, p_feature = [], p_superfeature = [],
     p_lz4Buf = [], p_leave = (\<lambda>_ buf. buf), p_ratio_less = (\<lambda>a b r. True), p_sort = rev\<rparr>"


end
